(* ===== verification/Prelude.thy ===== *)
theory Prelude
  imports Complex_Main "HOL-Library.AList"
begin

text \<open>
  Shared vocabulary of the development.

  \<^item> The insertion-ordered \<open>Map\<close> of JavaScript, as an association list with distinct keys:
    reading is \<open>map_of\<close>, writing is \<open>AList.update\<close> (an existing key keeps its place, a new
    one goes to the end), deleting is \<open>AList.delete\<close>, iteration is the list itself.
    The locale \<open>ordered_map\<close> is the contract the services rely on; it is interpreted on
    the association lists below.
  \<^item> The result of an operation: it returns, it throws, or (for an awaited promise that
    never settles) it does neither.
  \<^item> The theorem collections of the development.
\<close>

named_theorems map_laws \<open>equations of the insertion-ordered map\<close>

section \<open>Results\<close>

text \<open>
  A promise that never settles leaves its awaiting caller suspended for good; that is the
  third outcome, \<open>Hangs\<close>. A synchronous operation only returns or throws.
\<close>

datatype ('e, 'a) result = Returns 'a | Throws 'e | Hangs

fun returned :: "('e, 'a) result \<Rightarrow> bool" where
  "returned (Returns _) = True"
| "returned (Throws _) = False"
| "returned Hangs = False"

fun thrown :: "('e, 'a) result \<Rightarrow> bool" where
  "thrown (Returns _) = False"
| "thrown (Throws _) = True"
| "thrown Hangs = False"

lemma returned_iff: "returned r \<longleftrightarrow> (\<exists>x. r = Returns x)"
  by (cases r) auto

lemma thrown_iff: "thrown r \<longleftrightarrow> (\<exists>e. r = Throws e)"
  by (cases r) auto

text \<open>
  Sequencing: a check that throws leaves the state as it is; an operation that throws or hangs
  ends the sequence in the state it left.
\<close>

definition checked :: "('e, 'a) result \<Rightarrow> 's \<Rightarrow> ('a \<Rightarrow> ('e, 'b) result \<times> 's) \<Rightarrow> ('e, 'b) result \<times> 's" where
  "checked c s k = (case c of Returns v \<Rightarrow> k v | Throws x \<Rightarrow> (Throws x, s) | Hangs \<Rightarrow> (Hangs, s))"

definition andthen ::
    "('e, 'a) result \<times> 's \<Rightarrow> ('a \<Rightarrow> 's \<Rightarrow> ('e, 'b) result \<times> 's) \<Rightarrow> ('e, 'b) result \<times> 's" where
  "andthen m k = (case m of (c, s) \<Rightarrow> checked c s (\<lambda>v. k v s))"

lemma checked_simps [simp]:
  "checked (Returns v) s k = k v" "checked (Throws x) s k = (Throws x, s)"
  "checked Hangs s k = (Hangs, s)"
  by (simp_all add: checked_def)

lemma andthen_simps [simp]:
  "andthen (Returns v, s) k = k v s" "andthen (Throws x, s) k = (Throws x, s)"
  "andthen (Hangs, s) k = (Hangs, s)"
  by (simp_all add: andthen_def)

lemma checked_split:
  "P (checked c s k) \<longleftrightarrow>
     (\<forall>v. c = Returns v \<longrightarrow> P (k v)) \<and> (\<forall>x. c = Throws x \<longrightarrow> P (Throws x, s)) \<and> (c = Hangs \<longrightarrow> P (Hangs, s))"
  by (cases c) auto

section \<open>Insertion-ordered maps\<close>

type_synonym ('k, 'v) jsmap = "('k \<times> 'v) list"

text \<open>
  What the services use of a \<open>Map\<close>: \<open>get\<close> / \<open>has\<close>, \<open>set\<close>, \<open>delete\<close> and the order of
  \<open>keys()\<close>.
\<close>

locale ordered_map =
  fixes get :: "'m \<Rightarrow> 'k \<Rightarrow> 'v option"
    and put :: "'k \<Rightarrow> 'v \<Rightarrow> 'm \<Rightarrow> 'm"
    and del :: "'k \<Rightarrow> 'm \<Rightarrow> 'm"
    and keys :: "'m \<Rightarrow> 'k list"
    and wf :: "'m \<Rightarrow> bool"
  assumes get_put: "get (put k v m) k' = (if k' = k then Some v else get m k')"
    and get_del: "get (del k m) k' = (if k' = k then None else get m k')"
    and keys_put: "keys (put k v m) = (if k \<in> set (keys m) then keys m else keys m @ [k])"
    and keys_del: "keys (del k m) = filter (\<lambda>x. x \<noteq> k) (keys m)"
    and has_iff_key: "get m k \<noteq> None \<longleftrightarrow> k \<in> set (keys m)"
    and wf_distinct: "wf m \<longleftrightarrow> distinct (keys m)"
begin

lemma get_put_same: "get (put k v m) k = Some v"
  by (simp add: get_put)

lemma get_put_other: "k' \<noteq> k \<Longrightarrow> get (put k v m) k' = get m k'"
  by (simp add: get_put)

lemma put_new_goes_last: "get m k = None \<Longrightarrow> keys (put k v m) = keys m @ [k]"
  using has_iff_key [of m k] by (simp add: keys_put)

lemma put_known_keeps_order: "get m k = Some v \<Longrightarrow> keys (put k w m) = keys m"
  using has_iff_key [of m k] by (simp add: keys_put)

lemma wf_put: "wf m \<Longrightarrow> wf (put k v m)"
  by (simp add: wf_distinct keys_put)

lemma wf_del: "wf m \<Longrightarrow> wf (del k m)"
  by (simp add: wf_distinct keys_del)

lemma del_absent: "get m k = None \<Longrightarrow> keys (del k m) = keys m"
  using has_iff_key [of m k] by (auto simp: keys_del intro: filter_True)

lemma put_after_del_goes_last: "keys (put k v (del k m)) = filter (\<lambda>x. x \<noteq> k) (keys m) @ [k]"
  by (simp add: keys_put keys_del)

end

text \<open>The association lists provide the contract.\<close>

definition jsmap_keys :: "('k, 'v) jsmap \<Rightarrow> 'k list" where
  "jsmap_keys m = map fst m"

definition jsmap_values :: "('k, 'v) jsmap \<Rightarrow> 'v list" where
  "jsmap_values m = map snd m"

definition jsmap_wf :: "('k, 'v) jsmap \<Rightarrow> bool" where
  "jsmap_wf m \<longleftrightarrow> distinct (map fst m)"

lemma keys_update: "map fst (AList.update k v m) =
    (if k \<in> set (map fst m) then map fst m else map fst m @ [k])"
  by (induction m) auto

lemma keys_delete: "map fst (AList.delete k m) = filter (\<lambda>x. x \<noteq> k) (map fst m)"
  by (induction m) (auto simp: AList.delete_eq)

interpretation jm: ordered_map map_of AList.update AList.delete jsmap_keys jsmap_wf
  by unfold_locales
    (auto simp: update_conv' delete_conv' jsmap_keys_def jsmap_wf_def keys_update keys_delete
      map_of_eq_None_iff)

lemmas jsmap_laws [map_laws] = jm.get_put jm.get_del jm.keys_put jm.keys_del

lemma update_absent: "map_of m k = None \<Longrightarrow> AList.update k v m = m @ [(k, v)]"
  by (induction m) (auto split: if_splits)

lemma jsmap_wf_snoc [simp]: "map_of m k = None \<Longrightarrow> jsmap_wf (m @ [(k, v)]) = jsmap_wf m"
  by (auto simp: jsmap_wf_def map_of_eq_None_iff)

lemma set_update_subset: "set (AList.update k v m) \<subseteq> insert (k, v) (set m)"
  by (induction m) auto

lemma set_delete_subset: "set (AList.delete k m) \<subseteq> set m"
  by (auto simp: AList.delete_eq)

lemma map_of_in_set: "map_of m k = Some v \<Longrightarrow> (k, v) \<in> set m"
  by (rule map_of_SomeD)

section \<open>Lists\<close>

lemma fold_inv:
  assumes "P a" and "\<And>x a. x \<in> set xs \<Longrightarrow> P a \<Longrightarrow> P (f x a)"
  shows "P (fold f xs a)"
  using assms by (induction xs arbitrary: a) auto

end
