(* ===== verification/JsValues.thy ===== *)
theory JsValues
  imports Prelude
begin

text \<open>
  The values of the source language that the library inspects: numbers with their special
  values, the dynamic values that reach a validator as \<open>unknown\<close>, object spread, and the
  delay a timer really waits.

  Strings are lists of code units below 256. Numbers are exact rationals with \<open>NaN\<close> and the
  two infinities; the library only adds and compares millisecond counts, which binary64
  represents exactly up to \<open>2 ^ 53\<close>.
\<close>

section \<open>Numbers\<close>

datatype jsnum = NaN | PosInf | NegInf | Fin rat

text \<open>
  The relational operators of the language, as an \<open>ord\<close> instance: every comparison with
  \<open>NaN\<close> is false, so \<open>\<not> a < b\<close> does not give \<open>b \<le> a\<close>.
\<close>

instantiation jsnum :: ord
begin

fun less_jsnum :: "jsnum \<Rightarrow> jsnum \<Rightarrow> bool" where
  "less_jsnum (Fin a) (Fin b) = (a < b)"
| "less_jsnum (Fin a) PosInf = True"
| "less_jsnum NegInf (Fin b) = True"
| "less_jsnum NegInf PosInf = True"
| "less_jsnum _ _ = False"

fun less_eq_jsnum :: "jsnum \<Rightarrow> jsnum \<Rightarrow> bool" where
  "less_eq_jsnum (Fin a) (Fin b) = (a \<le> b)"
| "less_eq_jsnum (Fin a) PosInf = True"
| "less_eq_jsnum NegInf (Fin b) = True"
| "less_eq_jsnum NegInf PosInf = True"
| "less_eq_jsnum NegInf NegInf = True"
| "less_eq_jsnum PosInf PosInf = True"
| "less_eq_jsnum _ _ = False"

instance ..

end

instantiation jsnum :: plus
begin

fun plus_jsnum :: "jsnum \<Rightarrow> jsnum \<Rightarrow> jsnum" where
  "plus_jsnum (Fin a) (Fin b) = Fin (a + b)"
| "plus_jsnum (Fin a) PosInf = PosInf"
| "plus_jsnum (Fin a) NegInf = NegInf"
| "plus_jsnum PosInf (Fin b) = PosInf"
| "plus_jsnum NegInf (Fin b) = NegInf"
| "plus_jsnum PosInf PosInf = PosInf"
| "plus_jsnum NegInf NegInf = NegInf"
| "plus_jsnum _ _ = NaN"

instance ..

end

text \<open>\<open>Number.isInteger\<close>.\<close>

fun is_integer :: "jsnum \<Rightarrow> bool" where
  "is_integer (Fin q) = (of_int \<lfloor>q\<rfloor> = q)"
| "is_integer _ = False"

lemma jsnum_less_le: "(a::jsnum) < b \<Longrightarrow> a \<le> b"
  by (cases a; cases b) auto

lemma jsnum_not_NaN_total: "a \<noteq> NaN \<Longrightarrow> b \<noteq> NaN \<Longrightarrow> \<not> (a::jsnum) < b \<longleftrightarrow> b \<le> a"
  by (cases a; cases b) auto

lemma NaN_incomparable [simp]:
  "\<not> NaN < b" "\<not> a < NaN" "\<not> NaN \<le> b" "\<not> a \<le> NaN"
  by (cases a; cases b; simp)+

section \<open>Timers\<close>

text \<open>
  \<open>setTimeout\<close>: a delay below one, above \<open>2147483647\<close> or not a number becomes one
  millisecond; a fractional delay is truncated.
\<close>

definition max_timer_delay :: rat where
  "max_timer_delay = 2147483647"

fun timer_delay :: "jsnum \<Rightarrow> nat" where
  "timer_delay (Fin q) = (if 1 \<le> q \<and> q \<le> max_timer_delay then nat \<lfloor>q\<rfloor> else 1)"
| "timer_delay _ = 1"

lemma timer_delay_pos: "1 \<le> timer_delay d"
  by (cases d) (auto simp: le_nat_iff)

lemma timer_delay_nat:
  assumes "1 \<le> n" and "n \<le> 2147483647"
  shows "timer_delay (Fin (of_nat n)) = n"
proof -
  from assms(1) have "(of_nat 1 :: rat) \<le> of_nat n" by (simp only: of_nat_le_iff)
  moreover from assms(2) have "(of_nat n :: rat) \<le> of_nat 2147483647"
    by (simp only: of_nat_le_iff)
  ultimately show ?thesis by (simp add: max_timer_delay_def)
qed

section \<open>Dynamic values\<close>

text \<open>
  \<open>Ref\<close> is an instance of a class the library does not own (an ioredis client, a telemetry
  object, a job), \<open>Fn\<close> a function; both are known by identity only.
\<close>

datatype jsval =
    Undef
  | Null
  | Boolean bool
  | Num jsnum
  | Str string
  | Arr "jsval list"
  | Obj "(string \<times> jsval) list"
  | Ref nat
  | Fn nat

type_synonym obj = "(string \<times> jsval) list"

fun truthy :: "jsval \<Rightarrow> bool" where
  "truthy Undef = False"
| "truthy Null = False"
| "truthy (Boolean b) = b"
| "truthy (Num n) = (n \<noteq> NaN \<and> n \<noteq> Fin 0)"
| "truthy (Str s) = (s \<noteq> [])"
| "truthy (Arr _) = True"
| "truthy (Obj _) = True"
| "truthy (Ref _) = True"
| "truthy (Fn _) = True"

text \<open>\<open>typeof v === 'object'\<close> together with \<open>v !== null\<close>.\<close>

fun is_object :: "jsval \<Rightarrow> bool" where
  "is_object (Arr _) = True"
| "is_object (Obj _) = True"
| "is_object (Ref _) = True"
| "is_object _ = False"

text \<open>\<open>k in v\<close> and \<open>v.k\<close> for an object \<open>v\<close>; a missing property reads as \<open>undefined\<close>.\<close>

fun props :: "jsval \<Rightarrow> obj" where
  "props (Obj ps) = ps"
| "props _ = []"

definition has_key :: "string \<Rightarrow> obj \<Rightarrow> bool" where
  "has_key k ps \<longleftrightarrow> k \<in> set (map fst ps)"

definition field :: "obj \<Rightarrow> string \<Rightarrow> jsval" where
  "field ps k = (case map_of ps k of None \<Rightarrow> Undef | Some v \<Rightarrow> v)"

text \<open>\<open>a ?? b\<close>.\<close>

definition nullish :: "jsval \<Rightarrow> bool" where
  "nullish v \<longleftrightarrow> v = Undef \<or> v = Null"

definition coalesce :: "jsval \<Rightarrow> jsval \<Rightarrow> jsval" where
  "coalesce a b = (if nullish a then b else a)"

text \<open>\<open>{...a, ...b}\<close>: the properties of \<open>b\<close> written over those of \<open>a\<close>, in order.\<close>

definition spread :: "obj \<Rightarrow> obj \<Rightarrow> obj" where
  "spread a b = fold (\<lambda>(k, v) acc. AList.update k v acc) b a"

lemma spread_Nil [simp]: "spread a [] = a"
  by (simp add: spread_def)

lemma spread_Cons: "spread a ((k, v) # b) = spread (AList.update k v a) b"
  by (simp add: spread_def)

lemma map_of_spread_absent: "k \<notin> set (map fst b) \<Longrightarrow> map_of (spread a b) k = map_of a k"
  by (induction b arbitrary: a) (auto simp: spread_Cons update_conv')

lemma map_of_spread:
  "distinct (map fst b) \<Longrightarrow> map_of (spread a b) = map_of a ++ map_of b"
proof (induction b arbitrary: a)
  case Nil
  then show ?case by simp
next
  case (Cons p b)
  obtain k v where p: "p = (k, v)" by (cases p)
  from Cons.prems p have "k \<notin> dom (map_of b)" by (simp add: dom_map_of_conv_image_fst)
  with Cons p show ?case
    by (auto simp: spread_Cons update_conv' fun_eq_iff map_add_def split: option.splits)
qed

lemma field_spread_absent: "\<not> has_key k b \<Longrightarrow> field (spread a b) k = field a k"
  by (simp add: field_def has_key_def map_of_spread_absent)

section \<open>Strings\<close>

text \<open>
  \<open>s.trim() === ''\<close>: every code unit is white space or a line terminator (tab, line feed,
  vertical tab, form feed, carriage return, space, no-break space).
\<close>

definition js_space :: "char \<Rightarrow> bool" where
  "js_space c \<longleftrightarrow> of_char c \<in> {9, 10, 11, 12, 13, 32, 160 :: nat}"

definition blank :: "string \<Rightarrow> bool" where
  "blank s \<longleftrightarrow> list_all js_space s"

lemma blank_Nil [simp]: "blank []"
  by (simp add: blank_def)

fun starts_with :: "string \<Rightarrow> string \<Rightarrow> bool" where
  "starts_with [] _ = True"
| "starts_with _ [] = False"
| "starts_with (p # ps) (c # cs) = (p = c \<and> starts_with ps cs)"

lemma starts_with_iff: "starts_with p s \<longleftrightarrow> (\<exists>r. s = p @ r)"
  by (induction p s rule: starts_with.induct) auto

end
