(* ===== verification/Errors.thy ===== *)
theory Errors
  imports JsValues
begin

text \<open>
  The error catalog (\<open>src/src/shared/constants/error-codes.ts\<close>,
  \<open>src/src/server/constants/error-codes.ts\<close>), \<open>QueueException\<close>
  (\<open>src/src/server/errors/queue-exception.ts\<close>) and \<open>describeError\<close>
  (\<open>src/src/server/utils/describe-error.ts\<close>).
\<close>

section \<open>The catalog\<close>

datatype error_code =
    CONNECTION_INVALID
  | CONNECTION_REQUIRES_NULL_RETRIES
  | CONNECTION_TIMEOUT
  | QUEUE_NOT_FOUND
  | JOB_NOT_FOUND
  | INVALID_JOB_DATA
  | INVALID_REPEAT_OPTIONS
  | DUPLICATE_PROCESSOR
  | FLOW_DISABLED
  | METRICS_DISABLED
  | SHUTDOWN_TIMEOUT_EXCEEDED
  | BULK_ENQUEUE_FAILED
  | WORKER_REGISTRATION_FAILED
  | INVALID_OPTIONS

fun code_string :: "error_code \<Rightarrow> string" where
  "code_string CONNECTION_INVALID = ''queue.connection_invalid''"
| "code_string CONNECTION_REQUIRES_NULL_RETRIES = ''queue.connection_requires_null_retries''"
| "code_string CONNECTION_TIMEOUT = ''queue.connection_timeout''"
| "code_string QUEUE_NOT_FOUND = ''queue.queue_not_found''"
| "code_string JOB_NOT_FOUND = ''queue.job_not_found''"
| "code_string INVALID_JOB_DATA = ''queue.invalid_job_data''"
| "code_string INVALID_REPEAT_OPTIONS = ''queue.invalid_repeat_options''"
| "code_string DUPLICATE_PROCESSOR = ''queue.duplicate_processor''"
| "code_string FLOW_DISABLED = ''queue.flow_disabled''"
| "code_string METRICS_DISABLED = ''queue.metrics_disabled''"
| "code_string SHUTDOWN_TIMEOUT_EXCEEDED = ''queue.shutdown_timeout_exceeded''"
| "code_string BULK_ENQUEUE_FAILED = ''queue.bulk_enqueue_failed''"
| "code_string WORKER_REGISTRATION_FAILED = ''queue.worker_registration_failed''"
| "code_string INVALID_OPTIONS = ''queue.invalid_options''"

definition queue_error_messages :: "(string \<times> string) list" where
  "queue_error_messages =
    [(code_string CONNECTION_INVALID, ''Invalid Redis connection configuration''),
     (code_string CONNECTION_REQUIRES_NULL_RETRIES,
        ''Worker connection must have maxRetriesPerRequest=null''),
     (code_string CONNECTION_TIMEOUT, ''Redis connection timeout''),
     (code_string QUEUE_NOT_FOUND, ''Queue not found''),
     (code_string JOB_NOT_FOUND, ''Job not found''),
     (code_string INVALID_JOB_DATA, ''Invalid job data''),
     (code_string INVALID_REPEAT_OPTIONS, ''Invalid repeat options''),
     (code_string DUPLICATE_PROCESSOR, ''Multiple processor decorators target the same queue''),
     (code_string FLOW_DISABLED, ''Flow support is disabled''),
     (code_string METRICS_DISABLED, ''Metrics support is disabled''),
     (code_string SHUTDOWN_TIMEOUT_EXCEEDED, ''Shutdown timeout exceeded''),
     (code_string BULK_ENQUEUE_FAILED, ''Bulk enqueue failed''),
     (code_string WORKER_REGISTRATION_FAILED, ''Failed to register worker''),
     (code_string INVALID_OPTIONS, ''Invalid module options'')]"

section \<open>QueueException\<close>

type_synonym http_status = nat

abbreviation BAD_REQUEST :: http_status where "BAD_REQUEST \<equiv> 400"
abbreviation INTERNAL_SERVER_ERROR :: http_status where "INTERNAL_SERVER_ERROR \<equiv> 500"
abbreviation SERVICE_UNAVAILABLE :: http_status where "SERVICE_UNAVAILABLE \<equiv> 503"

record queue_exception =
  qe_code :: string
  qe_message :: jsval
  qe_details :: jsval
  qe_status :: http_status

text \<open>
  \<open>QUEUE_ERROR_MESSAGES[code]\<close> reads a property of a plain object: a code that is not an own
  key but the name of a member every object inherits finds that member, not \<open>undefined\<close>.
\<close>

definition inherited_members :: "string list" where
  "inherited_members =
    [''constructor'', ''hasOwnProperty'', ''isPrototypeOf'', ''propertyIsEnumerable'',
     ''toLocaleString'', ''toString'', ''valueOf'', ''__defineGetter__'', ''__defineSetter__'',
     ''__lookupGetter__'', ''__lookupSetter__'', ''__proto__'']"

definition message_for :: "string \<Rightarrow> jsval" where
  "message_for code =
    (case map_of queue_error_messages code of
       Some m \<Rightarrow> Str m
     | None \<Rightarrow> if code = ''__proto__'' then Ref 0
               else if code \<in> set inherited_members then Fn 0
               else Str ''Queue error'')"

definition new_queue_exception :: "string \<Rightarrow> http_status \<Rightarrow> jsval \<Rightarrow> queue_exception" where
  "new_queue_exception code status details =
    \<lparr>qe_code = code, qe_message = message_for code, qe_details = coalesce details Null,
     qe_status = status\<rparr>"

text \<open>The response body, as \<open>getResponse()\<close> hands it back.\<close>

definition get_response :: "queue_exception \<Rightarrow> jsval" where
  "get_response e = Obj [(''error'', Obj
     [(''code'', Str (qe_code e)), (''message'', qe_message e), (''details'', qe_details e)])]"

text \<open>The library itself always throws with a code of the catalog.\<close>

definition queue_error :: "error_code \<Rightarrow> http_status \<Rightarrow> obj \<Rightarrow> queue_exception" where
  "queue_error c status details = new_queue_exception (code_string c) status (Obj details)"

definition queue_error_bare :: "error_code \<Rightarrow> http_status \<Rightarrow> queue_exception" where
  "queue_error_bare c status = new_queue_exception (code_string c) status Undef"

section \<open>Caught values\<close>

text \<open>
  A value that reached a \<open>catch\<close> from outside the library is modelled by what the library can
  observe of it. A primitive has its \<open>String()\<close> rendering. An object or a function may have a
  rendering or throw when rendered (\<open>None\<close>); an object also has a \<open>message\<close> property or not,
  and testing for it (a proxy) or reading it (a getter) may throw.
\<close>

datatype message_prop = NoMessage | InThrows | GetterThrows | MessageIs jsval

datatype caught =
    PrimCaught string
  | FnCaught "string option"
  | ObjCaught message_prop "string option"

fun render :: "string option \<Rightarrow> string" where
  "render (Some s) = s"
| "render None = ''unknown error''"

fun describe_error :: "caught \<Rightarrow> string" where
  "describe_error (PrimCaught s) = s"
| "describe_error (FnCaught r) = render r"
| "describe_error (ObjCaught InThrows r) = ''unknown error''"
| "describe_error (ObjCaught GetterThrows r) = ''unknown error''"
| "describe_error (ObjCaught (MessageIs (Str m)) r) = m"
| "describe_error (ObjCaught _ r) = render r"

text \<open>An \<open>Error\<close> with a message.\<close>

definition js_error :: "string \<Rightarrow> caught" where
  "js_error m = ObjCaught (MessageIs (Str m)) (Some (if m = [] then ''Error'' else ''Error: '' @ m))"

lemma describe_js_error [simp]: "describe_error (js_error m) = m"
  by (simp add: js_error_def)

text \<open>
  What the library throws or rejects with: its own exception, a value from outside, or the
  marker of a drain that ran out of its budget.
\<close>

datatype exn = QueueExn queue_exception | Foreign caught | DrainTimeout

type_synonym 'a outcome = "(exn, 'a) result"

definition raise_code :: "error_code \<Rightarrow> http_status \<Rightarrow> obj \<Rightarrow> 'a outcome" where
  "raise_code c status details = Throws (QueueExn (queue_error c status details))"

fun exn_code :: "exn \<Rightarrow> string option" where
  "exn_code (QueueExn e) = Some (qe_code e)"
| "exn_code _ = None"

lemma queue_error_fields [simp]:
  "qe_code (queue_error c s d) = code_string c" "qe_status (queue_error c s d) = s"
  "qe_details (queue_error c s d) = Obj d"
  "qe_code (queue_error_bare c s) = code_string c" "qe_status (queue_error_bare c s) = s"
  "qe_details (queue_error_bare c s) = Null"
  by (simp_all add: queue_error_def queue_error_bare_def new_queue_exception_def coalesce_def
      nullish_def)

lemma raise_code_simps [simp]:
  "raise_code c s d \<noteq> Returns x" "raise_code c s d \<noteq> Hangs" "returned (raise_code c s d) = False"
  "thrown (raise_code c s d)"
  by (simp_all add: raise_code_def)

section \<open>Properties\<close>

lemma code_string_inject [simp]: "code_string a = code_string b \<longleftrightarrow> a = b"
  by (cases a; cases b; simp)

lemma catalog_complete: "\<exists>m. map_of queue_error_messages (code_string c) = Some m \<and> m \<noteq> []"
  by (cases c) (simp_all add: queue_error_messages_def)

declare code_string.simps [simp del]

end
