(* ===== verification/Options.thy ===== *)
theory Options
  imports Errors
begin

text \<open>
  Module options: the defaults (\<open>src/src/server/constants/default-options.ts\<close>), the option
  contracts (\<open>src/src/server/interfaces\<close>), their validation
  (\<open>src/src/server/config/validate-options.ts\<close>) and their resolution
  (\<open>src/src/server/config/resolved-options.ts\<close>).

  Optional fields are \<open>option\<close>s. The connection is a dynamic value, because the validator
  reads it as \<open>unknown\<close>. The WHATWG URL parser is an argument: it maps a string to the user
  name and the password of the URL, or to nothing when it cannot parse it.
\<close>

section \<open>Defaults\<close>

definition DEFAULT_WORKER_CONCURRENCY :: jsnum where
  "DEFAULT_WORKER_CONCURRENCY = Fin 2"

definition MAX_WORKER_CONCURRENCY :: jsnum where
  "MAX_WORKER_CONCURRENCY = Fin 1000"

definition DEFAULT_JOB_OPTIONS :: obj where
  "DEFAULT_JOB_OPTIONS =
    [(''attempts'', Num (Fin 3)),
     (''backoff'', Obj [(''type'', Str ''exponential''), (''delay'', Num (Fin 2000))]),
     (''removeOnComplete'', Obj [(''age'', Num (Fin (24 * 3600))), (''count'', Num (Fin 1000))]),
     (''removeOnFail'', Obj [(''age'', Num (Fin (7 * 24 * 3600))), (''count'', Num (Fin 5000))])]"

definition DEFAULT_CONNECTION_READY_TIMEOUT_MS :: jsnum where
  "DEFAULT_CONNECTION_READY_TIMEOUT_MS = Fin 10000"

definition DEFAULT_METRICS_CACHE_TTL_MS :: jsnum where
  "DEFAULT_METRICS_CACHE_TTL_MS = Fin 5000"

definition DEFAULT_SHUTDOWN_DRAIN_TIMEOUT_MS :: jsnum where
  "DEFAULT_SHUTDOWN_DRAIN_TIMEOUT_MS = Fin 30000"

section \<open>Option contracts\<close>

record metrics_options =
  mt_enabled :: "bool option"
  mt_cacheTtlMs :: "jsnum option"

record shutdown_options =
  sd_drainTimeoutMs :: "jsnum option"
  sd_drainOnShutdown :: "bool option"

record module_options =
  mo_connection :: jsval
  mo_defaultJobOptions :: "obj option"
  mo_prefix :: "string option"
  mo_queueOptions :: "obj option"
  mo_flows :: "bool option option"
  mo_metrics :: "metrics_options option"
  mo_telemetry :: jsval
  mo_shutdown :: "shutdown_options option"
  mo_isGlobal :: "bool option"
  mo_connectionReadyTimeoutMs :: "jsnum option"

record limiter =
  lim_max :: jsnum
  lim_duration :: jsnum

record worker_options =
  wo_concurrency :: "jsnum option"
  wo_limiter :: "limiter option"
  wo_autorun :: "bool option"
  wo_lockDuration :: "jsnum option"
  wo_stalledInterval :: "jsnum option"

definition drain_timeout_of :: "module_options \<Rightarrow> jsnum option" where
  "drain_timeout_of o1 = Option.bind (mo_shutdown o1) sd_drainTimeoutMs"

definition cache_ttl_of :: "module_options \<Rightarrow> jsnum option" where
  "cache_ttl_of o1 = Option.bind (mo_metrics o1) mt_cacheTtlMs"

definition opt_test :: "('a \<Rightarrow> bool) \<Rightarrow> 'a option \<Rightarrow> bool" where
  "opt_test P x = (case x of None \<Rightarrow> False | Some y \<Rightarrow> P y)"

definition opt_default :: "'a option \<Rightarrow> 'a \<Rightarrow> 'a" where
  "opt_default x d = (case x of None \<Rightarrow> d | Some y \<Rightarrow> y)"

lemma opt_simps [simp]:
  "opt_test P None = False" "opt_test P (Some y) = P y"
  "opt_default None d = d" "opt_default (Some y) d = y"
  by (simp_all add: opt_test_def opt_default_def)

section \<open>Percent-decoding\<close>

text \<open>
  \<open>decodeURIComponent\<close> throws on a percent sign without two hexadecimal digits and on
  escaped bytes that are not the UTF-8 encoding of a code point.
\<close>

datatype uri_token = Lit char | Byte nat

definition hex_digit :: "char \<Rightarrow> nat option" where
  "hex_digit c = (let n = of_char c in
     if 48 \<le> n \<and> n \<le> 57 then Some (n - 48)
     else if 65 \<le> n \<and> n \<le> 70 then Some (n - 55)
     else if 97 \<le> n \<and> n \<le> 102 then Some (n - 87)
     else None)"

fun uri_tokens :: "string \<Rightarrow> uri_token list option" where
  "uri_tokens [] = Some []"
| "uri_tokens (c # cs) =
     (if c \<noteq> CHR ''%'' then map_option ((#) (Lit c)) (uri_tokens cs)
      else case cs of
        a # b # r \<Rightarrow>
          (case (hex_digit a, hex_digit b) of
             (Some x, Some y) \<Rightarrow> map_option ((#) (Byte (16 * x + y))) (uri_tokens r)
           | _ \<Rightarrow> None)
      | _ \<Rightarrow> None)"

definition in_range :: "nat \<Rightarrow> nat \<Rightarrow> nat \<Rightarrow> bool" where
  "in_range lo hi b \<longleftrightarrow> lo \<le> b \<and> b \<le> hi"

definition utf8_second :: "nat \<Rightarrow> nat \<Rightarrow> bool" where
  "utf8_second b c =
    (if b = 224 then in_range 160 191 c
     else if b = 237 then in_range 128 159 c
     else if b = 240 then in_range 144 191 c
     else if b = 244 then in_range 128 143 c
     else in_range 128 191 c)"

fun utf8_ok :: "uri_token list \<Rightarrow> bool" where
  "utf8_ok [] = True"
| "utf8_ok (Lit c # ts) = utf8_ok ts"
| "utf8_ok (Byte b # ts) =
     (if b < 128 then utf8_ok ts
      else if in_range 194 223 b then
        (case ts of Byte c # r \<Rightarrow> utf8_second b c \<and> utf8_ok r | _ \<Rightarrow> False)
      else if in_range 224 239 b then
        (case ts of
           Byte c # Byte d # r \<Rightarrow> utf8_second b c \<and> in_range 128 191 d \<and> utf8_ok r
         | _ \<Rightarrow> False)
      else if in_range 240 244 b then
        (case ts of
           Byte c # Byte d # Byte e # r \<Rightarrow>
             utf8_second b c \<and> in_range 128 191 d \<and> in_range 128 191 e \<and> utf8_ok r
         | _ \<Rightarrow> False)
      else False)"

definition decodable :: "string \<Rightarrow> bool" where
  "decodable s = (case uri_tokens s of None \<Rightarrow> False | Some ts \<Rightarrow> utf8_ok ts)"

lemma uri_tokens_no_percent: "CHR ''%'' \<notin> set s \<Longrightarrow> uri_tokens s = Some (map Lit s)"
  by (induction s) auto

lemma utf8_ok_Lits: "utf8_ok (map Lit s)"
  by (induction s) auto

lemma decodable_no_percent: "CHR ''%'' \<notin> set s \<Longrightarrow> decodable s"
  by (simp add: decodable_def uri_tokens_no_percent utf8_ok_Lits)

text \<open>The escape that \<open>encodeURIComponent\<close> writes for an ASCII code unit.\<close>

definition hex_char :: "nat \<Rightarrow> char" where
  "hex_char n = char_of (if n < 10 then 48 + n else 55 + n)"

definition pct_escape :: "char \<Rightarrow> string" where
  "pct_escape c = [CHR ''%'', hex_char (of_char c div 16), hex_char (of_char c mod 16)]"

lemma hex_digit_hex_char: "n < 16 \<Longrightarrow> hex_digit (hex_char n) = Some n"
  by (auto simp: hex_digit_def hex_char_def Let_def)

lemma uri_tokens_pct_escape:
  "uri_tokens (pct_escape c @ t) = map_option ((#) (Byte (of_char c))) (uri_tokens t)"
proof -
  have "(of_char c :: nat) < 256" by (rule nat_of_char_less_256)
  then have "(of_char c :: nat) div 16 < 16" by linarith
  then show ?thesis by (simp add: pct_escape_def hex_digit_hex_char)
qed

lemma decodable_concat_escapes:
  "\<forall>c \<in> set s. (of_char c :: nat) < 128 \<Longrightarrow> decodable (concat (map pct_escape s))"
proof -
  assume ascii: "\<forall>c \<in> set s. (of_char c :: nat) < 128"
  have "uri_tokens (concat (map pct_escape s)) = Some (map (\<lambda>c. Byte (of_char c)) s)"
    by (induction s) (simp_all add: uri_tokens_pct_escape)
  moreover from ascii have "utf8_ok (map (\<lambda>c. Byte (of_char c)) s)"
    by (induction s) auto
  ultimately show ?thesis by (simp add: decodable_def)
qed

section \<open>The URL of a library-owned connection\<close>

type_synonym url_parser = "string \<Rightarrow> (string \<times> string) option"

definition ascii_lower :: "char \<Rightarrow> char" where
  "ascii_lower c = (let n = of_char c :: nat in if 65 \<le> n \<and> n \<le> 90 then char_of (n + 32) else c)"

definition redis_scheme :: "string \<Rightarrow> bool" where
  "redis_scheme url \<longleftrightarrow>
     starts_with ''redis://'' (map ascii_lower url) \<or> starts_with ''rediss://'' (map ascii_lower url)"

definition candidate_url :: "string \<Rightarrow> string" where
  "candidate_url url =
    (if redis_scheme url then url
     else if starts_with ''//'' url then ''redis:'' @ url
     else ''redis://'' @ url)"

definition is_parseable_url :: "url_parser \<Rightarrow> string \<Rightarrow> bool" where
  "is_parseable_url parse url =
    (case parse (candidate_url url) of
       None \<Rightarrow> False
     | Some (username, password) \<Rightarrow> decodable username \<and> decodable password)"

section \<open>Validation\<close>

definition invalid_option :: "string \<Rightarrow> unit outcome" where
  "invalid_option reason = raise_code INVALID_OPTIONS INTERNAL_SERVER_ERROR [(''reason'', Str reason)]"

fun nonblank_string :: "jsval \<Rightarrow> bool" where
  "nonblank_string (Str s) = (\<not> blank s)"
| "nonblank_string _ = False"

fun string_of :: "jsval \<Rightarrow> string" where
  "string_of (Str s) = s"
| "string_of _ = []"

definition validate_options :: "url_parser \<Rightarrow> module_options \<Rightarrow> unit outcome" where
  "validate_options parse opts =
    (let cfg = mo_connection opts;
         hasClient = has_key ''client'' (props cfg);
         hasUrl = has_key ''url'' (props cfg);
         hasOptions = has_key ''options'' (props cfg);
         url = field (props cfg) ''url''
     in if \<not> is_object cfg then invalid_option ''connection is required''
        else if \<not> hasClient \<and> \<not> hasUrl \<and> \<not> hasOptions
          then invalid_option ''connection must specify client | url | options''
        else if hasClient \<and> (hasUrl \<or> hasOptions)
          then invalid_option ''connection.client is mutually exclusive with url/options''
        else if hasUrl \<and> \<not> nonblank_string url
          then invalid_option ''connection.url must be a non-empty string''
        else if hasUrl \<and> \<not> is_parseable_url parse (string_of url)
          then invalid_option ''connection.url is not a valid Redis URL''
        else if opt_test (\<lambda>d. d \<le> Fin 0) (drain_timeout_of opts)
          then invalid_option ''shutdown.drainTimeoutMs must be > 0''
        else if opt_test (\<lambda>t. t < Fin 0) (cache_ttl_of opts)
          then invalid_option ''metrics.cacheTtlMs must be >= 0''
        else Returns ())"

section \<open>Resolution\<close>

record resolved_options =
  ro_connection :: jsval
  ro_defaultJobOptions :: obj
  ro_prefix :: string
  ro_queueOptions :: obj
  ro_flows_enabled :: bool
  ro_metrics_enabled :: bool
  ro_cacheTtlMs :: jsnum
  ro_drainTimeoutMs :: jsnum
  ro_drainOnShutdown :: bool
  ro_telemetry :: jsval
  ro_connectionReadyTimeoutMs :: jsnum

definition apply_defaults :: "module_options \<Rightarrow> resolved_options" where
  "apply_defaults opts =
    \<lparr>ro_connection = mo_connection opts,
     ro_defaultJobOptions = spread DEFAULT_JOB_OPTIONS (opt_default (mo_defaultJobOptions opts) []),
     ro_prefix = opt_default (mo_prefix opts) ''bull'',
     ro_queueOptions = opt_default (mo_queueOptions opts) [],
     ro_flows_enabled = opt_default (Option.bind (mo_flows opts) id) False,
     ro_metrics_enabled = opt_default (Option.bind (mo_metrics opts) mt_enabled) False,
     ro_cacheTtlMs = opt_default (cache_ttl_of opts) DEFAULT_METRICS_CACHE_TTL_MS,
     ro_drainTimeoutMs = opt_default (drain_timeout_of opts) DEFAULT_SHUTDOWN_DRAIN_TIMEOUT_MS,
     ro_drainOnShutdown = opt_default (Option.bind (mo_shutdown opts) sd_drainOnShutdown) False,
     ro_telemetry = mo_telemetry opts,
     ro_connectionReadyTimeoutMs =
       opt_default (mo_connectionReadyTimeoutMs opts) DEFAULT_CONNECTION_READY_TIMEOUT_MS\<rparr>"

text \<open>
  The resolved object as a list of property descriptors (key, enumerable, value): the
  connection is attached last, as a non-enumerable accessor; \<open>telemetry\<close> exists only when it
  was supplied. A serializer sees the enumerable properties.
\<close>

definition resolved_descriptors :: "resolved_options \<Rightarrow> (string \<times> bool \<times> jsval) list" where
  "resolved_descriptors ro =
    [(''defaultJobOptions'', True, Obj (ro_defaultJobOptions ro)),
     (''prefix'', True, Str (ro_prefix ro)),
     (''queueOptions'', True, Obj (ro_queueOptions ro)),
     (''flows'', True, Obj [(''enabled'', Boolean (ro_flows_enabled ro))]),
     (''metrics'', True, Obj [(''enabled'', Boolean (ro_metrics_enabled ro)),
                              (''cacheTtlMs'', Num (ro_cacheTtlMs ro))]),
     (''shutdown'', True, Obj [(''drainTimeoutMs'', Num (ro_drainTimeoutMs ro)),
                               (''drainOnShutdown'', Boolean (ro_drainOnShutdown ro))]),
     (''connectionReadyTimeoutMs'', True, Num (ro_connectionReadyTimeoutMs ro))]
    @ (if ro_telemetry ro = Undef then [] else [(''telemetry'', True, ro_telemetry ro)])
    @ [(''connection'', False, ro_connection ro)]"

definition serialized_view :: "resolved_options \<Rightarrow> obj" where
  "serialized_view ro =
    map (\<lambda>(k, e, v). (k, v)) (filter (\<lambda>(k, e, v). e) (resolved_descriptors ro))"

section \<open>Properties\<close>

lemma invalid_option_not_returned [simp]: "invalid_option r \<noteq> Returns ()"
  by (simp add: invalid_option_def raise_code_def)

lemma invalid_option_inject [simp]: "invalid_option r = invalid_option s \<longleftrightarrow> r = s"
  by (simp add: invalid_option_def raise_code_def queue_error_def new_queue_exception_def
      coalesce_def nullish_def)

text \<open>
  The contract of the connection, stated without the order of the checks: which keys it has. Of \<open>client\<close> and
  \<open>options\<close> only the key counts, whatever its value.
\<close>

definition connection_shape_ok :: "url_parser \<Rightarrow> jsval \<Rightarrow> bool" where
  "connection_shape_ok parse cfg \<longleftrightarrow>
     has_key ''client'' (props cfg) \<and> \<not> has_key ''url'' (props cfg) \<and> \<not> has_key ''options'' (props cfg)
   \<or> \<not> has_key ''client'' (props cfg) \<and> has_key ''options'' (props cfg) \<and> \<not> has_key ''url'' (props cfg)
   \<or> \<not> has_key ''client'' (props cfg) \<and>
       (\<exists>s. map_of (props cfg) ''url'' = Some (Str s) \<and> \<not> blank s \<and> is_parseable_url parse s)"

lemma nonblank_string_iff: "nonblank_string v \<longleftrightarrow> (\<exists>s. v = Str s \<and> \<not> blank s)"
  by (cases v) auto

lemma field_Str_iff: "field ps k = Str s \<longleftrightarrow> map_of ps k = Some (Str s)"
  by (auto simp: field_def split: option.splits)

lemma has_key_iff: "has_key k ps \<longleftrightarrow> map_of ps k \<noteq> None"
  by (auto simp: has_key_def map_of_eq_None_iff)

lemma props_is_object: "has_key k (props v) \<Longrightarrow> is_object v"
  by (cases v) (auto simp: has_key_def)

text \<open>
  The two numbers: every comparison with \<open>NaN\<close> fails, so \<open>NaN\<close> passes both tests.
\<close>

definition budget_passes :: "jsnum option \<Rightarrow> bool" where
  "budget_passes budget \<longleftrightarrow> (case budget of None \<Rightarrow> True | Some d \<Rightarrow> d = NaN \<or> Fin 0 < d)"

definition lifetime_passes :: "jsnum option \<Rightarrow> bool" where
  "lifetime_passes lifetime \<longleftrightarrow> (case lifetime of None \<Rightarrow> True | Some t \<Rightarrow> t = NaN \<or> Fin 0 \<le> t)"

lemma passes_tests:
  "opt_test (\<lambda>d. d \<le> Fin 0) x \<longleftrightarrow> \<not> budget_passes x" "opt_test (\<lambda>t. t < Fin 0) x \<longleftrightarrow> \<not> lifetime_passes x"
  unfolding budget_passes_def lifetime_passes_def
  by (cases x; cases "the x"; auto)+

text \<open>
  C10. Options are accepted exactly when the connection has one of these shapes: the key \<open>client\<close> alone, with any
  value (\<open>null\<close> included); the key \<open>options\<close> without the other two, with any value (\<open>undefined\<close> included); or
  the key \<open>url\<close> without \<open>client\<close>, with or without \<open>options\<close>, its value a string that is not blank and a URL; and
  when the drain budget, if given, is positive or \<open>NaN\<close>, and the cache lifetime, if given, is not negative
  or \<open>NaN\<close>. So a \<open>NaN\<close> is accepted for both numbers.
\<close>

theorem validate_options_iff:
  "validate_options parse opts = Returns () \<longleftrightarrow>
     connection_shape_ok parse (mo_connection opts)
   \<and> budget_passes (drain_timeout_of opts) \<and> lifetime_passes (cache_ttl_of opts)"
proof -
  let ?ps = "props (mo_connection opts)"
  have url: "nonblank_string (field ?ps ''url'') \<and> is_parseable_url parse (string_of (field ?ps ''url''))
      \<longleftrightarrow> (\<exists>s. map_of ?ps ''url'' = Some (Str s) \<and> \<not> blank s \<and> is_parseable_url parse s)"
    by (auto simp: nonblank_string_iff field_Str_iff [symmetric])
  have present: "map_of ?ps ''url'' = Some (Str s) \<Longrightarrow> has_key ''url'' ?ps" for s
    by (simp add: has_key_iff)
  show ?thesis
    using url present props_is_object [of _ "mo_connection opts"]
    unfolding validate_options_def connection_shape_ok_def Let_def passes_tests by auto
qed

lemma validate_options_rejects_with_code:
  "validate_options parse opts \<noteq> Returns () \<Longrightarrow>
   \<exists>e. validate_options parse opts = Throws (QueueExn e) \<and> qe_code e = code_string INVALID_OPTIONS
     \<and> qe_status e = INTERNAL_SERVER_ERROR"
  unfolding validate_options_def Let_def
  by (simp add: invalid_option_def raise_code_def queue_error_def new_queue_exception_def
      split: if_splits)

text \<open>
  The serializable view of the resolved options does not depend on the connection, so no
  credential reaches it, and the connection is not among its keys.
\<close>

lemma credentials_withheld:
  "serialized_view (apply_defaults (opts\<lparr>mo_connection := c\<rparr>)) = serialized_view (apply_defaults opts)
   \<and> \<not> has_key ''connection'' (serialized_view (apply_defaults opts))
   \<and> ro_connection (apply_defaults opts) = mo_connection opts"
  by (simp add: serialized_view_def resolved_descriptors_def apply_defaults_def cache_ttl_of_def
      drain_timeout_of_def has_key_def)

text \<open>
  A job option the consumer sets wins over the library's, and every default the consumer
  does not mention is kept.
\<close>

lemma default_job_options_merge:
  assumes "mo_defaultJobOptions opts = Some job" and "distinct (map fst job)"
  shows "map_of (ro_defaultJobOptions (apply_defaults opts)) k =
    (case map_of job k of Some v \<Rightarrow> Some v | None \<Rightarrow> map_of DEFAULT_JOB_OPTIONS k)"
  using assms by (simp add: apply_defaults_def map_of_spread map_add_def split: option.splits)

end
