(* ===== verification/Externals.thy ===== *)
theory Externals
  imports Options
begin

text \<open>
  The boundary of the library: ioredis clients and the four BullMQ classes, which are not part
  of the repository.

  Every call that leaves the library is recorded, in order, in the trace of the world; a client
  or an emitter is known by its identity, a number no other object has. What the outside
  answers is an argument of the model, the environment: it may depend on the whole history and
  on the call. Nothing is assumed of it: a constructor may throw, a promise may resolve or
  reject after any delay, or never settle.
\<close>

section \<open>Calls, log lines, world\<close>

datatype kind = QueueKind | WorkerKind | QueueEventsKind | FlowProducerKind

datatype call =
    RedisNew nat jsval obj
  | RedisDuplicate nat nat obj
  | DuplicateFailed nat
  | RedisQuit nat
  | RedisDisconnect nat
  | Construct kind nat string jsval obj
  | OnError kind nat string
  | Listen nat string string string
  | Invoke nat string "jsval list"

datatype log_line =
    EmitterError kind string string
  | ConcurrencyDefaulted string
  | HandlerFailed string string string string string
  | DrainExceeded string jsnum
  | CloseFailed string string
  | QueueNotDrained string string
  | ShutdownComplete nat nat

record world =
  w_now :: nat
  w_next :: nat
  w_calls :: "call list"
  w_log :: "log_line list"

datatype settlement = Resolves nat jsval | Rejects nat caught | NeverSettles

datatype sock_event = SockReady | SockError caught

record env =
  env_throws :: "call list \<Rightarrow> call \<Rightarrow> caught option"
  env_settles :: "call list \<Rightarrow> call \<Rightarrow> settlement"
  env_status :: "call list \<Rightarrow> nat \<Rightarrow> string"
  env_retries :: "call list \<Rightarrow> nat \<Rightarrow> jsval"
  env_events :: "call list \<Rightarrow> nat \<Rightarrow> (nat \<times> sock_event) list"
  env_date_parse :: "jsval \<Rightarrow> jsnum"
  env_cron_parses :: "nat \<Rightarrow> jsval \<Rightarrow> bool"
  env_exception_text :: "queue_exception \<Rightarrow> string"

section \<open>Performing calls\<close>

definition log_call :: "call \<Rightarrow> world \<Rightarrow> world" where
  "log_call c w = w\<lparr>w_calls := w_calls w @ [c]\<rparr>"

definition write_log :: "log_line \<Rightarrow> world \<Rightarrow> world" where
  "write_log l w = w\<lparr>w_log := w_log w @ [l]\<rparr>"

text \<open>\<open>await p\<close> for the promise a call returned.\<close>

definition await :: "env \<Rightarrow> call \<Rightarrow> world \<Rightarrow> jsval outcome \<times> world" where
  "await E c w =
    (let w1 = log_call c w
     in case env_settles E (w_calls w) c of
          Resolves d v \<Rightarrow> (Returns v, w1\<lparr>w_now := w_now w1 + d\<rparr>)
        | Rejects d x \<Rightarrow> (Throws (Foreign x), w1\<lparr>w_now := w_now w1 + d\<rparr>)
        | NeverSettles \<Rightarrow> (Hangs, w1))"

text \<open>\<open>new Queue(...)\<close>, \<open>new Worker(...)\<close>, \<open>new QueueEvents(...)\<close>, \<open>new FlowProducer(...)\<close>.\<close>

definition construct :: "env \<Rightarrow> kind \<Rightarrow> string \<Rightarrow> jsval \<Rightarrow> obj \<Rightarrow> world \<Rightarrow> nat outcome \<times> world" where
  "construct E k name processor options w =
    (let h = w_next w;
         c = Construct k h name processor options;
         w1 = (log_call c w)\<lparr>w_next := Suc h\<rparr>
     in case env_throws E (w_calls w) c of
          None \<Rightarrow> (Returns h, w1)
        | Some x \<Rightarrow> (Throws (Foreign x), w1))"

text \<open>\<open>duplicateConnection\<close> (\<open>src/src/server/utils/duplicate-connection.ts\<close>).\<close>

definition blocking_override :: obj where
  "blocking_override = [(''maxRetriesPerRequest'', Null)]"

definition duplicate_connection :: "env \<Rightarrow> nat \<Rightarrow> world \<Rightarrow> nat outcome \<times> world" where
  "duplicate_connection E client w =
    (let c = w_next w;
         d = RedisDuplicate client c blocking_override
     in case env_throws E (w_calls w) d of
          None \<Rightarrow> (Returns c, (log_call d w)\<lparr>w_next := Suc c\<rparr>)
        | Some x \<Rightarrow> (Throws (Foreign x), log_call (DuplicateFailed client) w))"

text \<open>\<open>connection.disconnect()\<close> returns at once and does not throw.\<close>

definition disconnect :: "nat \<Rightarrow> world \<Rightarrow> world" where
  "disconnect c w = log_call (RedisDisconnect c) w"

text \<open>
  \<open>attachDefaultErrorListener\<close> (\<open>src/src/server/utils/attach-error-listener.ts\<close>): the listener
  is registered on the emitter; when the emitter reports an error it logs one line.
\<close>

definition attach_default_error_listener :: "kind \<Rightarrow> nat \<Rightarrow> string \<Rightarrow> world \<Rightarrow> world" where
  "attach_default_error_listener k h name w = log_call (OnError k h name) w"

definition default_error_listener :: "kind \<Rightarrow> string \<Rightarrow> caught \<Rightarrow> world \<Rightarrow> world" where
  "default_error_listener k name err w = write_log (EmitterError k name (describe_error err)) w"

text \<open>
  \<open>emit('error', err)\<close> of an emitter: without a listener the emission throws \<open>err\<close>, with
  the library's listener it is logged.
\<close>

definition emit_error :: "kind \<Rightarrow> nat \<Rightarrow> string \<Rightarrow> caught \<Rightarrow> world \<Rightarrow> unit outcome \<times> world" where
  "emit_error k h name err w =
    (if OnError k h name \<in> set (w_calls w)
     then (Returns (), default_error_listener k name err w)
     else (Throws (Foreign err), w))"

text \<open>\<open>describeError\<close> of anything an operation of the library can throw.\<close>

fun describe_exn :: "env \<Rightarrow> exn \<Rightarrow> string" where
  "describe_exn E (QueueExn e) = env_exception_text E e"
| "describe_exn E (Foreign x) = describe_error x"
| "describe_exn E DrainTimeout = []"

section \<open>What a trace says\<close>

fun ids_of :: "call \<Rightarrow> nat list" where
  "ids_of (RedisNew c _ _) = [c]"
| "ids_of (RedisDuplicate s c _) = [s, c]"
| "ids_of (DuplicateFailed s) = [s]"
| "ids_of (RedisQuit c) = [c]"
| "ids_of (RedisDisconnect c) = [c]"
| "ids_of (Construct _ h _ _ _) = [h]"
| "ids_of (OnError _ h _) = [h]"
| "ids_of (Listen h _ _ _) = [h]"
| "ids_of (Invoke h _ _) = [h]"

fun duplicate_in :: "call \<Rightarrow> nat set" where
  "duplicate_in (RedisDuplicate s c _) = {c}"
| "duplicate_in _ = {}"

fun released_in :: "call \<Rightarrow> nat set" where
  "released_in (RedisQuit c) = {c}"
| "released_in (RedisDisconnect c) = {c}"
| "released_in _ = {}"

definition duplicates :: "call list \<Rightarrow> nat set" where
  "duplicates cs = \<Union> (duplicate_in ` set cs)"

definition released :: "call list \<Rightarrow> nat set" where
  "released cs = \<Union> (released_in ` set cs)"

text \<open>Duplicated connections that nothing has asked to close.\<close>

definition open_duplicates :: "world \<Rightarrow> nat set" where
  "open_duplicates w = duplicates (w_calls w) - released (w_calls w)"

definition world_ok :: "world \<Rightarrow> bool" where
  "world_ok w \<longleftrightarrow> (\<forall>c \<in> set (w_calls w). \<forall>i \<in> set (ids_of c). i < w_next w)"

lemma duplicates_append [simp]: "duplicates (xs @ ys) = duplicates xs \<union> duplicates ys"
  by (simp add: duplicates_def)

lemma duplicates_single [simp]: "duplicates [] = {}" "duplicates (c # cs) = duplicate_in c \<union> duplicates cs"
  by (simp_all add: duplicates_def)

lemma released_append [simp]: "released (xs @ ys) = released xs \<union> released ys"
  by (simp add: released_def)

lemma released_single [simp]: "released [] = {}" "released (c # cs) = released_in c \<union> released cs"
  by (simp_all add: released_def)

lemma duplicate_in_ids: "c \<in> duplicate_in x \<Longrightarrow> c \<in> set (ids_of x)"
  by (cases x) auto

lemma released_in_ids: "c \<in> released_in x \<Longrightarrow> c \<in> set (ids_of x)"
  by (cases x) auto

lemma duplicates_below: "world_ok w \<Longrightarrow> c \<in> duplicates (w_calls w) \<Longrightarrow> c < w_next w"
  unfolding world_ok_def duplicates_def by (auto dest: duplicate_in_ids)

lemma released_below: "world_ok w \<Longrightarrow> c \<in> released (w_calls w) \<Longrightarrow> c < w_next w"
  unfolding world_ok_def released_def by (auto dest: released_in_ids)

lemma fresh_not_released: "world_ok w \<Longrightarrow> w_next w \<notin> released (w_calls w)"
  using released_below [of w "w_next w"] by auto

section \<open>Frame facts of the calls\<close>

lemma log_call_simps [simp]:
  "w_calls (log_call c w) = w_calls w @ [c]" "w_now (log_call c w) = w_now w"
  "w_next (log_call c w) = w_next w" "w_log (log_call c w) = w_log w"
  by (simp_all add: log_call_def)

lemma write_log_simps [simp]:
  "w_calls (write_log l w) = w_calls w" "w_now (write_log l w) = w_now w"
  "w_next (write_log l w) = w_next w" "w_log (write_log l w) = w_log w @ [l]"
  by (simp_all add: write_log_def)

lemma await_calls: "await E c w = (r, w') \<Longrightarrow> w_calls w' = w_calls w @ [c] \<and> w_next w' = w_next w
    \<and> w_log w' = w_log w \<and> w_now w \<le> w_now w'"
  by (auto simp: await_def Let_def split: settlement.splits)

lemma await_result:
  "fst (await E c w) = (case env_settles E (w_calls w) c of
     Resolves d v \<Rightarrow> Returns v | Rejects d x \<Rightarrow> Throws (Foreign x) | NeverSettles \<Rightarrow> Hangs)"
  by (simp add: await_def Let_def split: settlement.splits)

lemma construct_calls: "construct E k n p opts w = (r, w') \<Longrightarrow>
    w_calls w' = w_calls w @ [Construct k (w_next w) n p opts] \<and> w_next w' = Suc (w_next w)
    \<and> w_log w' = w_log w \<and> w_now w' = w_now w
    \<and> (r = Returns (w_next w) \<or> (\<exists>x. r = Throws (Foreign x)))"
  by (auto simp: construct_def Let_def split: option.splits)

lemma duplicate_calls: "duplicate_connection E s w = (r, w') \<Longrightarrow>
    (r = Returns (w_next w) \<and> w_next w' = Suc (w_next w)
       \<and> w_calls w' = w_calls w @ [RedisDuplicate s (w_next w) blocking_override]
     \<or> (\<exists>x. r = Throws (Foreign x)) \<and> w_next w' = w_next w
       \<and> w_calls w' = w_calls w @ [DuplicateFailed s])
    \<and> w_log w' = w_log w \<and> w_now w' = w_now w"
  by (auto simp: duplicate_connection_def Let_def split: option.splits)

lemma disconnect_simps [simp]:
  "w_calls (disconnect c w) = w_calls w @ [RedisDisconnect c]" "w_next (disconnect c w) = w_next w"
  "w_log (disconnect c w) = w_log w" "w_now (disconnect c w) = w_now w"
  by (simp_all add: disconnect_def)

lemma attach_simps [simp]:
  "w_calls (attach_default_error_listener k h n w) = w_calls w @ [OnError k h n]"
  "w_next (attach_default_error_listener k h n w) = w_next w"
  "w_log (attach_default_error_listener k h n w) = w_log w"
  "w_now (attach_default_error_listener k h n w) = w_now w"
  by (simp_all add: attach_default_error_listener_def)

lemma world_ok_extend:
  assumes "world_ok w" and "w_calls w' = w_calls w @ cs" and "w_next w \<le> w_next w'"
    and "\<And>c i. c \<in> set cs \<Longrightarrow> i \<in> set (ids_of c) \<Longrightarrow> i < w_next w'"
  shows "world_ok w'"
  using assms unfolding world_ok_def by (auto dest: order_less_le_trans)

text \<open>A world that came after another: the trace grew, identities were only added.\<close>

definition world_grows :: "world \<Rightarrow> world \<Rightarrow> bool" where
  "world_grows w w' \<longleftrightarrow> w_next w \<le> w_next w' \<and> (\<exists>cs. w_calls w' = w_calls w @ cs)"

lemma world_grows_refl [simp]: "world_grows w w"
  by (simp add: world_grows_def)

lemma world_grows_trans: "world_grows w1 w2 \<Longrightarrow> world_grows w2 w3 \<Longrightarrow> world_grows w1 w3"
  by (auto simp: world_grows_def)

lemma world_grows_calls: "world_grows w w' \<Longrightarrow> set (w_calls w) \<subseteq> set (w_calls w')"
  by (auto simp: world_grows_def)

lemma world_grows_log_call [simp]: "world_grows w (log_call c w)"
  by (simp add: world_grows_def)

lemma world_grows_write_log [simp]: "world_grows w (write_log l w)"
  by (simp add: world_grows_def)

section \<open>Awaiting one call after another, ignoring rejections\<close>

text \<open>
  \<open>for (const x of xs) await x.m().catch(() => undefined)\<close>: a rejection is dropped, a promise
  that never settles stops the loop.
\<close>

fun await_each :: "env \<Rightarrow> call list \<Rightarrow> world \<Rightarrow> unit outcome \<times> world" where
  "await_each E [] w = (Returns (), w)"
| "await_each E (c # cs) w =
     (case await E c w of
        (Hangs, w1) \<Rightarrow> (Hangs, w1)
      | (_, w1) \<Rightarrow> await_each E cs w1)"

lemma await_each_frame:
  "await_each E cs w = (r, w') \<Longrightarrow>
     \<not> thrown r \<and> w_next w' = w_next w \<and> w_log w' = w_log w \<and> w_now w \<le> w_now w'
     \<and> (\<exists>k \<le> length cs. w_calls w' = w_calls w @ take k cs \<and> (returned r \<longrightarrow> k = length cs))"
proof (induction cs arbitrary: w)
  case Nil
  then show ?case by auto
next
  case (Cons c cs)
  obtain x w1 where a: "await E c w = (x, w1)" by force
  note step = await_calls [OF a]
  show ?case
  proof (cases "x = Hangs")
    case True
    with a Cons.prems step show ?thesis by (auto intro!: exI [of _ 1])
  next
    case False
    with a Cons.prems have "await_each E cs w1 = (r, w')" by (cases x) auto
    from Cons.IH [OF this] obtain k where
      "\<not> thrown r \<and> w_next w' = w_next w1 \<and> w_log w' = w_log w1 \<and> w_now w1 \<le> w_now w'"
      "k \<le> length cs" "w_calls w' = w_calls w1 @ take k cs" "returned r \<longrightarrow> k = length cs"
      by blast
    with step show ?thesis by (auto intro!: exI [of _ "Suc k"])
  qed
qed

lemma await_each_returned:
  "await_each E cs w = (Returns u, w') \<Longrightarrow> w_calls w' = w_calls w @ cs"
  using await_each_frame [of E cs w "Returns u" w'] by auto

lemma await_each_settles:
  assumes "\<And>h c. c \<in> set cs \<Longrightarrow> env_settles E h c \<noteq> NeverSettles"
  shows "\<exists>w'. await_each E cs w = (Returns (), w')"
  using assms
proof (induction cs arbitrary: w)
  case Nil
  then show ?case by simp
next
  case (Cons c cs)
  obtain x w1 where a: "await E c w = (x, w1)" by force
  with Cons.prems [of c] have "x \<noteq> Hangs"
    by (auto simp: await_def Let_def split: settlement.splits)
  with a Cons show ?case by (cases x) auto
qed

lemma emit_error_listened:
  "OnError k h name \<in> set (w_calls w) \<Longrightarrow>
   emit_error k h name err w = (Returns (), write_log (EmitterError k name (describe_error err)) w)"
  by (simp add: emit_error_def default_error_listener_def)

lemma emit_error_unlistened:
  "OnError k h name \<notin> set (w_calls w) \<Longrightarrow> emit_error k h name err w = (Throws (Foreign err), w)"
  by (simp add: emit_error_def)

end
