(* ===== verification/Connection.thy ===== *)
theory Connection
  imports Externals
begin

text \<open>
  The Redis connection (\<open>src/src/server/services/connection-resolver.service.ts\<close>) and the
  assertions on clients (\<open>src/src/server/utils/validate-connection.ts\<close>).

  The resolver keeps the Queue-role client and the mode. Mode A adopts the consumer's client
  after probing a duplicate; Mode B opens a client and waits for it: a race of three events
  (ready, error, timer) over one promise, modelled as a state machine whose state is the armed
  timer, the two listeners and the settlement.
\<close>

section \<open>Assertions on clients\<close>

definition assert_blocking_connection :: "env \<Rightarrow> nat \<Rightarrow> world \<Rightarrow> unit outcome" where
  "assert_blocking_connection E client w =
    (let actualValue = env_retries E (w_calls w) client
     in if actualValue \<noteq> Null
        then raise_code CONNECTION_REQUIRES_NULL_RETRIES INTERNAL_SERVER_ERROR
               [(''actualValue'', coalesce actualValue Null), (''expectedValue'', Null)]
        else Returns ())"

definition usable_status :: "string \<Rightarrow> bool" where
  "usable_status s \<longleftrightarrow> s = ''ready'' \<or> s = ''connecting''"

definition is_client_usable :: "env \<Rightarrow> nat \<Rightarrow> world \<Rightarrow> bool" where
  "is_client_usable E client w = usable_status (env_status E (w_calls w) client)"

section \<open>State\<close>

datatype connection_mode = Mode_A_byo | Mode_B_owned

record resolver =
  r_client :: "nat option"
  r_mode :: "connection_mode option"

definition new_resolver :: resolver where
  "new_resolver = \<lparr>r_client = None, r_mode = None\<rparr>"

definition not_initialized :: "'a outcome" where
  "not_initialized = raise_code CONNECTION_INVALID INTERNAL_SERVER_ERROR [(''reason'', Str ''not initialized'')]"

definition get_client :: "resolver \<Rightarrow> nat outcome" where
  "get_client r = (case r_client r of None \<Rightarrow> not_initialized | Some c \<Rightarrow> Returns c)"

definition get_mode :: "resolver \<Rightarrow> connection_mode outcome" where
  "get_mode r = (case r_mode r of None \<Rightarrow> not_initialized | Some m \<Rightarrow> Returns m)"

definition is_owned :: "resolver \<Rightarrow> bool" where
  "is_owned r \<longleftrightarrow> r_mode r = Some Mode_B_owned"

section \<open>Mode A\<close>

definition init_mode_a :: "env \<Rightarrow> nat \<Rightarrow> world \<Rightarrow> unit outcome \<times> resolver \<times> world" where
  "init_mode_a E client w =
    (let r = \<lparr>r_client = Some client, r_mode = Some Mode_A_byo\<rparr>
     in if \<not> is_client_usable E client w
        then (raise_code CONNECTION_INVALID INTERNAL_SERVER_ERROR
                [(''status'', Str (env_status E (w_calls w) client))], r, w)
        else case duplicate_connection E client w of
          (Returns probe, w1) \<Rightarrow>
            (assert_blocking_connection E probe w1, r, disconnect probe w1)
        | (Throws x, w1) \<Rightarrow> (Throws x, r, w1)
        | (Hangs, w1) \<Rightarrow> (Hangs, r, w1))"

text \<open>
  A configuration may carry anything under \<open>client\<close>. Reading \<open>status\<close> of \<open>null\<close> or
  \<open>undefined\<close> throws a \<open>TypeError\<close>; a value without a usable \<open>status\<close> is refused; plain data
  with a usable \<open>status\<close> has no \<open>duplicate\<close> method.
\<close>

definition type_error :: "string \<Rightarrow> 'a outcome" where
  "type_error m = Throws (Foreign (js_error m))"

definition adopt_client :: "env \<Rightarrow> jsval \<Rightarrow> world \<Rightarrow> unit outcome \<times> resolver \<times> world" where
  "adopt_client E v w =
    (let r = \<lparr>r_client = None, r_mode = Some Mode_A_byo\<rparr>
     in case v of
          Ref c \<Rightarrow> init_mode_a E c w
        | Undef \<Rightarrow> (type_error ''Cannot read properties of undefined (reading 'status')'', r, w)
        | Null \<Rightarrow> (type_error ''Cannot read properties of null (reading 'status')'', r, w)
        | _ \<Rightarrow>
          (let status = field (props v) ''status''
           in if status = Str ''ready'' \<or> status = Str ''connecting''
              then (type_error ''client.duplicate is not a function'', r, w)
              else (raise_code CONNECTION_INVALID INTERNAL_SERVER_ERROR [(''status'', status)], r, w)))"

section \<open>Mode B: waiting for ready\<close>

datatype ready_event = Sock sock_event | TimerFired

record ready_wait =
  rw_timer :: bool
  rw_on_ready :: bool
  rw_on_error :: bool
  rw_result :: "unit outcome option"

definition armed :: ready_wait where
  "armed = \<lparr>rw_timer = True, rw_on_ready = True, rw_on_error = True, rw_result = None\<rparr>"

text \<open>
  \<open>cleanup()\<close>, then \<open>resolve\<close> or \<open>reject\<close>: the first settlement of a promise is its last.
\<close>

definition settle :: "unit outcome \<Rightarrow> ready_wait \<Rightarrow> ready_wait" where
  "settle r s = \<lparr>rw_timer = False, rw_on_ready = False, rw_on_error = False,
     rw_result = (case rw_result s of None \<Rightarrow> Some r | Some r' \<Rightarrow> Some r')\<rparr>"

definition ready_timeout_error :: "jsnum \<Rightarrow> unit outcome" where
  "ready_timeout_error timeoutMs =
     raise_code CONNECTION_TIMEOUT INTERNAL_SERVER_ERROR [(''timeoutMs'', Num timeoutMs)]"

fun ready_step :: "jsnum \<Rightarrow> ready_event \<Rightarrow> ready_wait \<Rightarrow> ready_wait" where
  "ready_step t (Sock SockReady) s = (if rw_on_ready s then settle (Returns ()) s else s)"
| "ready_step t (Sock (SockError x)) s = (if rw_on_error s then settle (Throws (Foreign x)) s else s)"
| "ready_step t TimerFired s = (if rw_timer s then settle (ready_timeout_error t) s else s)"

definition ready_run :: "jsnum \<Rightarrow> ready_event list \<Rightarrow> ready_wait \<Rightarrow> ready_wait" where
  "ready_run t es s = fold (ready_step t) es s"

text \<open>
  The events in the order they happen: each socket event comes some milliseconds after the one
  before it; the timer fires once its delay has passed.
\<close>

fun timeline :: "nat \<Rightarrow> (nat \<times> sock_event) list \<Rightarrow> (nat \<times> ready_event) list" where
  "timeline delay [] = [(delay, TimerFired)]"
| "timeline delay ((gap, e) # es) =
     (if gap < delay then (gap, Sock e) # timeline (delay - gap) es
      else (delay, TimerFired) # (gap - delay, Sock e) # map (\<lambda>(g, x). (g, Sock x)) es)"

definition wait_ready :: "env \<Rightarrow> jsnum \<Rightarrow> nat \<Rightarrow> world \<Rightarrow> unit outcome \<times> world" where
  "wait_ready E timeoutMs client w =
    (if env_status E (w_calls w) client = ''ready'' then (Returns (), w)
     else case timeline (timer_delay timeoutMs) (env_events E (w_calls w) client) of
       [] \<Rightarrow> (Hangs, w)
     | (elapsed, e) # es \<Rightarrow>
         (case rw_result (ready_step timeoutMs e armed) of
            None \<Rightarrow> (Hangs, w)
          | Some r \<Rightarrow> (r, w\<lparr>w_now := w_now w + elapsed\<rparr>)))"

definition owned_options :: "jsval \<Rightarrow> obj" where
  "owned_options options = spread (props (coalesce options (Obj []))) [(''lazyConnect'', Boolean False)]"

text \<open>\<open>new Redis(...)\<close> of the library-owned client.\<close>

definition open_owned :: "env \<Rightarrow> jsval \<Rightarrow> world \<Rightarrow> nat outcome \<times> world" where
  "open_owned E cfg w =
    (let c = w_next w;
         url = (if has_key ''url'' (props cfg) then field (props cfg) ''url'' else Undef);
         d = RedisNew c url (owned_options (field (props cfg) ''options''));
         w1 = (log_call d w)\<lparr>w_next := Suc c\<rparr>
     in case env_throws E (w_calls w) d of
          None \<Rightarrow> (Returns c, w1)
        | Some x \<Rightarrow> (Throws (Foreign x), w1))"

definition init :: "env \<Rightarrow> module_options \<Rightarrow> world \<Rightarrow> unit outcome \<times> resolver \<times> world" where
  "init E opts w =
    (let cfg = mo_connection opts
     in if has_key ''client'' (props cfg) then adopt_client E (field (props cfg) ''client'') w
        else case open_owned E cfg w of
          (Returns c, w1) \<Rightarrow>
            (let r = \<lparr>r_client = Some c, r_mode = Some Mode_B_owned\<rparr>;
                 timeoutMs = opt_default (mo_connectionReadyTimeoutMs opts)
                               DEFAULT_CONNECTION_READY_TIMEOUT_MS;
                 (res, w2) = wait_ready E timeoutMs c w1
             in (res, r, w2))
        | (Throws x, w1) \<Rightarrow> (Throws x, \<lparr>r_client = None, r_mode = Some Mode_B_owned\<rparr>, w1)
        | (Hangs, w1) \<Rightarrow> (Hangs, \<lparr>r_client = None, r_mode = Some Mode_B_owned\<rparr>, w1))"

section \<open>Shutdown\<close>

text \<open>\<open>quit()\<close>, falling back to \<open>disconnect()\<close> when the handshake fails.\<close>

definition quit_or_disconnect :: "env \<Rightarrow> nat \<Rightarrow> world \<Rightarrow> unit outcome \<times> world" where
  "quit_or_disconnect E c w =
    (case await E (RedisQuit c) w of
       (Returns _, w1) \<Rightarrow> (Returns (), w1)
     | (Throws _, w1) \<Rightarrow> (Returns (), disconnect c w1)
     | (Hangs, w1) \<Rightarrow> (Hangs, w1))"

definition teardown :: "env \<Rightarrow> resolver \<Rightarrow> world \<Rightarrow> unit outcome \<times> world" where
  "teardown E r w =
    (case r_client r of
       Some c \<Rightarrow> if is_owned r then quit_or_disconnect E c w else (Returns (), w)
     | None \<Rightarrow> (Returns (), w))"

section \<open>Properties\<close>

lemma get_client_cases:
  obtains c where "r_client r = Some c" "get_client r = Returns c"
  | "r_client r = None" "get_client r = not_initialized"
  by (cases "r_client r") (simp_all add: get_client_def)

lemma not_initialized_simps [simp]: "not_initialized \<noteq> Returns x" "not_initialized \<noteq> Hangs"
  by (simp_all add: not_initialized_def)

definition client_ok :: "resolver \<Rightarrow> world \<Rightarrow> bool" where
  "client_ok r w \<longleftrightarrow> (case r_client r of None \<Rightarrow> True | Some c \<Rightarrow> c < w_next w)"

definition detached :: "ready_wait \<Rightarrow> bool" where
  "detached s \<longleftrightarrow> \<not> rw_timer s \<and> \<not> rw_on_ready s \<and> \<not> rw_on_error s \<and> rw_result s \<noteq> None"

lemma ready_step_armed: "detached (ready_step t e armed)"
  by (cases "(t, e, armed)" rule: ready_step.cases)
    (auto simp: armed_def settle_def detached_def)

lemma ready_step_detached: "detached s \<Longrightarrow> ready_step t e s = s"
  by (cases "(t, e, s)" rule: ready_step.cases) (auto simp: detached_def)

lemma ready_run_detached: "detached s \<Longrightarrow> ready_run t es s = s"
  unfolding ready_run_def by (induction es) (auto simp: ready_step_detached)

lemma ready_run_first: "ready_run t (e # es) armed = ready_step t e armed"
  using ready_run_detached [OF ready_step_armed] by (simp add: ready_run_def)

fun event_outcome :: "jsnum \<Rightarrow> ready_event \<Rightarrow> unit outcome" where
  "event_outcome t (Sock SockReady) = Returns ()"
| "event_outcome t (Sock (SockError x)) = Throws (Foreign x)"
| "event_outcome t TimerFired = ready_timeout_error t"

lemma ready_step_result: "rw_result (ready_step t e armed) = Some (event_outcome t e)"
  by (cases "(t, e)" rule: event_outcome.cases) (simp_all add: armed_def settle_def)

text \<open>
  C18. Whatever events follow one another on the socket and the timer, the wait is settled by
  the very first one, with its outcome; from then on the timer is cleared, both listeners are
  detached, and no later event (a late \<open>ready\<close>, an error, the timer) changes anything.
\<close>

theorem ready_race_first_event_wins:
  "rw_result (ready_run t (e # es) armed) = Some (event_outcome t e)
   \<and> detached (ready_run t (e # es) armed)
   \<and> ready_run t (e # es @ late) armed = ready_run t (e # es) armed"
  by (simp add: ready_run_first ready_step_result ready_step_armed)

lemma timeline_nonempty: "\<exists>g e es. timeline d evs = (g, e) # es \<and> g \<le> d"
  by (cases "(d, evs)" rule: timeline.cases) auto

text \<open>
  C19. Waiting for the owned client always comes to an end, and no later than the delay the
  timer was armed with.
\<close>

theorem wait_ready_terminates:
  "\<exists>r w'. wait_ready E timeoutMs c w = (r, w') \<and> r \<noteq> Hangs
     \<and> w_now w' \<le> w_now w + timer_delay timeoutMs"
proof -
  obtain g e es where tl: "timeline (timer_delay timeoutMs) (env_events E (w_calls w) c) = (g, e) # es"
    and g: "g \<le> timer_delay timeoutMs"
    using timeline_nonempty by blast
  have "event_outcome timeoutMs e \<noteq> Hangs"
    by (cases "(timeoutMs, e)" rule: event_outcome.cases)
      (simp_all add: ready_timeout_error_def raise_code_def)
  with tl g show ?thesis by (simp add: wait_ready_def ready_step_result)
qed

lemma wait_ready_calls: "wait_ready E t c w = (r, w') \<Longrightarrow>
    w_calls w' = w_calls w \<and> w_next w' = w_next w \<and> w_log w' = w_log w"
  by (auto simp: wait_ready_def split: if_splits list.splits option.splits)

lemma quit_or_disconnect_calls: "quit_or_disconnect E c w = (r, w') \<Longrightarrow>
    (w_calls w' = w_calls w @ [RedisQuit c] \<or> w_calls w' = w_calls w @ [RedisQuit c, RedisDisconnect c])
    \<and> w_next w' = w_next w \<and> w_log w' = w_log w \<and> w_now w \<le> w_now w' \<and> \<not> thrown r"
  by (auto simp: quit_or_disconnect_def await_def Let_def split: settlement.splits)

lemma teardown_mode_a: "r_mode r \<noteq> Some Mode_B_owned \<Longrightarrow> teardown E r w = (Returns (), w)"
  by (simp add: teardown_def is_owned_def split: option.splits)

lemma not_thrown_teardown: "teardown E r w = (x, w') \<Longrightarrow> \<not> thrown x"
  by (auto simp: teardown_def split: option.splits if_splits dest: quit_or_disconnect_calls)

text \<open>
  Mode A, the consumer's client: whatever the outcome of the initialization, the client
  itself is never quit or disconnected, the only connection opened is the probe, and the probe
  is closed; it succeeds exactly when the client's status is usable, the client can be
  duplicated and the duplicate honours the \<open>null\<close> override.
\<close>

lemma mode_a_init:
  assumes "world_ok w" and "client < w_next w" and "init_mode_a E client w = (res, r, w')"
  shows "released (w_calls w') \<subseteq> released (w_calls w) \<union> {w_next w}
    \<and> open_duplicates w' = open_duplicates w
    \<and> client \<notin> released (w_calls w') - released (w_calls w)
    \<and> (res = Returns () \<longleftrightarrow>
         is_client_usable E client w \<and>
         (\<exists>w1. duplicate_connection E client w = (Returns (w_next w), w1)
             \<and> env_retries E (w_calls w1) (w_next w) = Null))"
proof (cases "is_client_usable E client w")
  case False
  with assms show ?thesis by (auto simp: init_mode_a_def raise_code_def)
next
  case True
  obtain d w1 where dup: "duplicate_connection E client w = (d, w1)" by force
  have below: "w_next w \<notin> duplicates (w_calls w)"
    using duplicates_below [OF assms(1), of "w_next w"] by auto
  from duplicate_calls [OF dup] show ?thesis
    using assms True dup below
    by (auto simp: init_mode_a_def Let_def open_duplicates_def assert_blocking_connection_def
        raise_code_def split: if_splits)
qed

definition quiet_env :: env where
  "quiet_env = \<lparr>env_throws = (\<lambda>_ _. None), env_settles = (\<lambda>_ _. Resolves 0 Undef),
     env_status = (\<lambda>_ _. ''ready''), env_retries = (\<lambda>_ _. Null), env_events = (\<lambda>_ _. []),
     env_date_parse = (\<lambda>_. NaN), env_cron_parses = (\<lambda>_ _. True),
     env_exception_text = (\<lambda>_. ''Queue Exception'')\<rparr>"

lemma quiet_env_simps [simp]:
  "env_throws quiet_env h c = None" "env_settles quiet_env h c = Resolves 0 Undef"
  "env_status quiet_env h k = ''ready''" "env_retries quiet_env h k = Null"
  by (simp_all add: quiet_env_def)

definition start_world :: world where
  "start_world = \<lparr>w_now = 0, w_next = 1, w_calls = [], w_log = []\<rparr>"

lemma start_world_ok [simp]: "world_ok start_world"
  by (simp add: world_ok_def start_world_def)

lemma mode_a_init_witness:
  "\<exists>res r w'. init_mode_a quiet_env 0 start_world = (res, r, w') \<and> res = Returns ()
     \<and> open_duplicates w' = open_duplicates start_world"
proof -
  obtain res r w' where run: "init_mode_a quiet_env 0 start_world = (res, r, w')"
    by (metis prod_cases3)
  have "0 < w_next start_world" by (simp add: start_world_def)
  note fact = mode_a_init [OF start_world_ok this run]
  then have "res = Returns ()"
    by (simp add: quiet_env_def is_client_usable_def usable_status_def duplicate_connection_def Let_def)
  with run fact show ?thesis by blast
qed

text \<open>
  Mode B, an owned client that does not become ready: when the race is lost to the timer
  the initialization is rejected with \<open>CONNECTION_TIMEOUT\<close>, and the client the library opened is
  left open: nothing has quit or disconnected it.
\<close>

lemma timed_out_client_stays_open:
  assumes "world_ok w" and "\<not> has_key ''client'' (props (mo_connection opts))"
    and "init E opts w = (Throws x, r, w')" and "exn_code x = Some (code_string CONNECTION_TIMEOUT)"
  shows "r_client r = Some (w_next w)
    \<and> w_calls w' = w_calls w @ [RedisNew (w_next w)
        (if has_key ''url'' (props (mo_connection opts)) then field (props (mo_connection opts)) ''url''
         else Undef)
        (owned_options (field (props (mo_connection opts)) ''options''))]
    \<and> w_next w \<notin> released (w_calls w')"
  using assms fresh_not_released [OF assms(1)]
  by (auto simp: init_def open_owned_def Let_def split: option.splits prod.splits
      dest!: wait_ready_calls)

definition url_only :: "string \<Rightarrow> module_options" where
  "url_only u = \<lparr>mo_connection = Obj [(''url'', Str u)], mo_defaultJobOptions = None,
     mo_prefix = None, mo_queueOptions = None, mo_flows = None, mo_metrics = None,
     mo_telemetry = Undef, mo_shutdown = None, mo_isGlobal = None,
     mo_connectionReadyTimeoutMs = None\<rparr>"

definition silent_env :: env where
  "silent_env = quiet_env\<lparr>env_status := (\<lambda>_ _. ''connecting'')\<rparr>"

lemma timed_out_client_stays_open_witness:
  "\<exists>x r w'. init silent_env (url_only ''redis://h'') start_world = (Throws x, r, w')
     \<and> exn_code x = Some (code_string CONNECTION_TIMEOUT) \<and> 1 \<notin> released (w_calls w')"
proof -
  let ?w1 = "(log_call (RedisNew 1 (Str ''redis://h'') [(''lazyConnect'', Boolean False)]) start_world)
               \<lparr>w_next := 2\<rparr>"
  have run: "init silent_env (url_only ''redis://h'') start_world =
    (ready_timeout_error (Fin 10000), \<lparr>r_client = Some 1, r_mode = Some Mode_B_owned\<rparr>,
     ?w1\<lparr>w_now := 10000\<rparr>)"
    by (simp add: init_def open_owned_def url_only_def silent_env_def quiet_env_def has_key_def
        field_def owned_options_def coalesce_def nullish_def spread_def start_world_def
        wait_ready_def armed_def settle_def DEFAULT_CONNECTION_READY_TIMEOUT_MS_def
        max_timer_delay_def)
  define x where "x = QueueExn (queue_error CONNECTION_TIMEOUT INTERNAL_SERVER_ERROR
      [(''timeoutMs'', Num (Fin 10000))])"
  then have x: "ready_timeout_error (Fin 10000) = Throws x"
    and code: "exn_code x = Some (code_string CONNECTION_TIMEOUT)"
    by (simp_all add: ready_timeout_error_def raise_code_def)
  have "\<not> has_key ''client'' (props (mo_connection (url_only ''redis://h'')))"
    by (simp add: url_only_def has_key_def)
  from timed_out_client_stays_open [OF start_world_ok this run [unfolded x] code]
  show ?thesis using run x code by (auto simp: start_world_def)
qed

text \<open>
  A configuration with a \<open>client\<close> key passes the option validation whatever the value
  under it; with \<open>undefined\<close> or \<open>null\<close> there, the bootstrap then fails with a raw
  \<open>TypeError\<close>, which carries no code of the error catalog.
\<close>

lemma missing_client_escapes_the_catalog:
  "validate_options parse ((url_only u)\<lparr>mo_connection := Obj [(''client'', Null)]\<rparr>) = Returns ()
   \<and> (\<exists>x. fst (init E ((url_only u)\<lparr>mo_connection := Obj [(''client'', Null)]\<rparr>) w) = Throws (Foreign x))"
  by (simp add: validate_options_def url_only_def has_key_def drain_timeout_of_def cache_ttl_of_def
      init_def adopt_client_def field_def type_error_def Let_def)

section \<open>Sample configurations\<close>

definition demo_ro :: resolved_options where
  "demo_ro = apply_defaults (url_only ''redis://h'')"

definition demo_resolver :: resolver where
  "demo_resolver = \<lparr>r_client = Some 0, r_mode = Some Mode_A_byo\<rparr>"

lemma demo_resolver_ok [simp]: "client_ok demo_resolver start_world"
  by (simp add: client_ok_def demo_resolver_def start_world_def)

end
