(* ===== verification/Schedules.thy ===== *)
theory Schedules
  imports Errors
begin

text \<open>
  Validation of Job Scheduler options
  (\<open>src/src/server/utils/validate-job-scheduler-options.ts\<close>) and the cron check of
  \<open>src/src/server/services/queue.service.ts\<close>.

  \<open>Date.parse\<close> (with its conversion to a string) is the argument \<open>date_parse\<close>; the pure repeat
  strategy of BullMQ is \<open>cron_parses\<close>, true when it returns and false when it throws.
\<close>

definition invalid_repeat :: "string \<Rightarrow> unit outcome" where
  "invalid_repeat reason = raise_code INVALID_REPEAT_OPTIONS BAD_REQUEST [(''reason'', Str reason)]"

fun to_epoch_ms :: "(jsval \<Rightarrow> jsnum) \<Rightarrow> jsval \<Rightarrow> jsnum" where
  "to_epoch_ms date_parse (Num n) = n"
| "to_epoch_ms date_parse v = date_parse v"

fun is_array :: "jsval \<Rightarrow> bool" where
  "is_array (Arr _) = True"
| "is_array _ = False"

fun usable_pattern :: "jsval \<Rightarrow> bool" where
  "usable_pattern (Str s) = (\<not> blank s)"
| "usable_pattern _ = False"

fun usable_interval :: "jsval \<Rightarrow> bool" where
  "usable_interval (Num n) = (is_integer n \<and> \<not> n \<le> Fin 0)"
| "usable_interval _ = False"

definition validate_job_scheduler_options ::
    "(jsval \<Rightarrow> jsnum) \<Rightarrow> nat \<Rightarrow> jsval \<Rightarrow> unit outcome" where
  "validate_job_scheduler_options date_parse now repeat =
    (let ps = props repeat;
         hasPattern = has_key ''pattern'' ps;
         hasEvery = has_key ''every'' ps;
         endDate = field ps ''endDate'';
         endMs = to_epoch_ms date_parse endDate
     in if \<not> is_object repeat \<or> is_array repeat
          then invalid_repeat ''repeat must be an object declaring either pattern or every''
        else if hasPattern = hasEvery
          then invalid_repeat ''exactly one of pattern | every is required''
        else if hasPattern \<and> \<not> usable_pattern (field ps ''pattern'')
          then invalid_repeat ''pattern must be a non-empty string''
        else if hasEvery \<and> \<not> usable_interval (field ps ''every'')
          then invalid_repeat ''every must be a positive integer''
        else if endDate \<noteq> Undef \<and> (endMs = NaN \<or> endMs \<le> Fin (of_nat now))
          then invalid_repeat ''endDate must be in the future''
        else Returns ())"

text \<open>\<open>queueOptions.settings?.repeatStrategy\<close>.\<close>

definition custom_repeat_strategy :: "obj \<Rightarrow> jsval" where
  "custom_repeat_strategy queueOptions = field (props (field queueOptions ''settings'')) ''repeatStrategy''"

definition assert_valid_cron :: "(nat \<Rightarrow> jsval \<Rightarrow> bool) \<Rightarrow> nat \<Rightarrow> jsval \<Rightarrow> obj \<Rightarrow> unit outcome" where
  "assert_valid_cron cron_parses now repeat queueOptions =
    (if custom_repeat_strategy queueOptions \<noteq> Undef then Returns ()
     else if cron_parses now repeat then Returns ()
     else invalid_repeat ''pattern must be a valid cron expression (5- or 6-field)'')"

text \<open>
  What a TypeScript caller can pass (\<open>JobSchedulerRepeatOptions\<close> of
  \<open>src/src/shared/types/job-scheduler-options.types.ts\<close>): the union of two object types. Typing is structural and no
  member tells the two apart, so an object may have further members, and one with both a \<open>pattern\<close> and an \<open>every\<close>
  is of the union. An optional member that is absent reads as \<open>undefined\<close>.
\<close>

fun is_num :: "jsval \<Rightarrow> bool" where
  "is_num (Num _) = True"
| "is_num _ = False"

fun is_str :: "jsval \<Rightarrow> bool" where
  "is_str (Str _) = True"
| "is_str _ = False"

definition is_date :: "jsval \<Rightarrow> bool" where
  "is_date v \<longleftrightarrow> is_num v \<or> is_str v"

definition optional_member :: "(jsval \<Rightarrow> bool) \<Rightarrow> obj \<Rightarrow> string \<Rightarrow> bool" where
  "optional_member P ps k \<longleftrightarrow> field ps k = Undef \<or> P (field ps k)"

definition cron_schedule :: "obj \<Rightarrow> bool" where
  "cron_schedule ps \<longleftrightarrow> is_str (field ps ''pattern'') \<and> optional_member is_str ps ''tz''
     \<and> optional_member is_num ps ''limit'' \<and> optional_member is_date ps ''startDate''
     \<and> optional_member is_date ps ''endDate''"

definition interval_schedule :: "obj \<Rightarrow> bool" where
  "interval_schedule ps \<longleftrightarrow> is_num (field ps ''every'') \<and> optional_member is_num ps ''limit''
     \<and> optional_member is_num ps ''offset'' \<and> optional_member is_date ps ''startDate''
     \<and> optional_member is_date ps ''endDate''"

definition repeat_options :: "jsval \<Rightarrow> bool" where
  "repeat_options v \<longleftrightarrow> (\<exists>ps. v = Obj ps \<and> (cron_schedule ps \<or> interval_schedule ps))"

section \<open>Properties\<close>

lemma invalid_repeat_not_returned [simp]: "invalid_repeat r \<noteq> Returns x"
  by (simp add: invalid_repeat_def raise_code_def)

lemma usable_pattern_iff: "usable_pattern v \<longleftrightarrow> (\<exists>s. v = Str s \<and> \<not> blank s)"
  by (cases v) auto

lemma usable_interval_iff:
  "usable_interval v \<longleftrightarrow> (\<exists>k::nat. 0 < k \<and> v = Num (Fin (of_nat k)))"
proof (cases v)
  case (Num n)
  show ?thesis
  proof (cases n)
    case (Fin q)
    have "of_int \<lfloor>q\<rfloor> = q \<and> \<not> q \<le> 0 \<longleftrightarrow> (\<exists>k::nat. 0 < k \<and> q = of_nat k)"
    proof
      assume "of_int \<lfloor>q\<rfloor> = q \<and> \<not> q \<le> 0"
      then obtain z where z: "q = of_int z" "\<not> (of_int z :: rat) \<le> 0" by metis
      then have pos: "0 < z" by (simp only: of_int_le_0_iff not_le)
      then have "0 < nat z \<and> q = of_nat (nat z)" using z by simp
      then show "\<exists>k::nat. 0 < k \<and> q = of_nat k" by blast
    qed (auto, metis of_int_of_nat_eq)
    with Num Fin show ?thesis by simp
  qed (simp_all add: Num)
qed simp_all

lemma field_present: "field ps k = v \<Longrightarrow> v \<noteq> Undef \<Longrightarrow> has_key k ps"
  by (auto simp: has_key_def field_def split: option.splits dest!: map_of_SomeD intro: rev_image_eqI)

text \<open>The contract of a schedule, stated without the order of the checks.\<close>

definition schedule_ok :: "(jsval \<Rightarrow> jsnum) \<Rightarrow> nat \<Rightarrow> jsval \<Rightarrow> bool" where
  "schedule_ok date_parse now repeat \<longleftrightarrow>
    (\<exists>ps. repeat = Obj ps \<and>
      ((\<exists>s. field ps ''pattern'' = Str s \<and> \<not> blank s) \<and> \<not> has_key ''every'' ps
       \<or> (\<exists>k::nat. 0 < k \<and> field ps ''every'' = Num (Fin (of_nat k))) \<and> \<not> has_key ''pattern'' ps) \<and>
      (field ps ''endDate'' = Undef
       \<or> Fin (of_nat now) < to_epoch_ms date_parse (field ps ''endDate'')))"

lemma schedule_accepted:
  "validate_job_scheduler_options date_parse now repeat = Returns () \<longleftrightarrow>
     schedule_ok date_parse now repeat"
proof (cases repeat)
  case (Obj ps)
  have pat: "usable_pattern (field ps ''pattern'') \<Longrightarrow> has_key ''pattern'' ps"
    and ev: "usable_interval (field ps ''every'') \<Longrightarrow> has_key ''every'' ps"
    by (auto simp: usable_pattern_iff usable_interval_iff dest!: field_present)
  have fut: "x \<noteq> NaN \<and> \<not> x \<le> Fin (of_nat now) \<longleftrightarrow> Fin (of_nat now) < x" for x
    using jsnum_not_NaN_total [of "Fin (of_nat now)" x] by (cases x) auto
  show ?thesis
    using Obj pat ev
    by (auto simp: validate_job_scheduler_options_def Let_def schedule_ok_def
        usable_pattern_iff [symmetric] usable_interval_iff [symmetric] fut [symmetric])
qed (simp_all add: validate_job_scheduler_options_def schedule_ok_def Let_def has_key_def)

text \<open>
  A schedule is accepted exactly when it is a plain object with either a non-blank
  string \<open>pattern\<close> or a positive integer \<open>every\<close>, never both, whose end date, if it has one,
  lies strictly in the future.
\<close>

lemma validate_schedule_iff:
  "validate_job_scheduler_options date_parse now repeat = Returns () \<longleftrightarrow>
     schedule_ok date_parse now repeat"
  by (rule schedule_accepted)

lemma validate_schedule_rejects:
  "validate_job_scheduler_options date_parse now repeat \<noteq> Returns () \<Longrightarrow>
   \<exists>reason. validate_job_scheduler_options date_parse now repeat = invalid_repeat reason"
  unfolding validate_job_scheduler_options_def Let_def by (auto split: if_splits)

lemma assert_valid_cron_rejects:
  "assert_valid_cron cp now repeat qo \<noteq> Returns () \<Longrightarrow>
   \<exists>reason. assert_valid_cron cp now repeat qo = invalid_repeat reason"
  unfolding assert_valid_cron_def by (auto split: if_splits)

section \<open>Typed schedules\<close>

lemma has_key_Cons [simp]: "has_key k ((k', v) # ps) \<longleftrightarrow> k = k' \<or> has_key k ps"
  by (auto simp: has_key_def)

lemma field_Cons [simp]: "field ((k', v) # ps) k = (if k = k' then v else field ps k)"
  by (simp add: field_def)

lemma not_later_iff: "x = NaN \<or> x \<le> Fin q \<longleftrightarrow> \<not> Fin q < x"
  by (cases x) auto

lemma typed_keys:
  "is_str (field ps k) \<Longrightarrow> has_key k ps" "is_num (field ps k) \<Longrightarrow> has_key k ps"
  by (auto intro: field_present)

text \<open>The end date, if there is one, is a moment after now.\<close>

definition ends_later :: "(jsval \<Rightarrow> jsnum) \<Rightarrow> nat \<Rightarrow> obj \<Rightarrow> bool" where
  "ends_later date_parse now ps \<longleftrightarrow> field ps ''endDate'' = Undef
     \<or> (\<exists>n. field ps ''endDate'' = Num n \<and> Fin (of_nat now) < n)
     \<or> (\<exists>s. field ps ''endDate'' = Str s \<and> Fin (of_nat now) < date_parse (Str s))"

lemma typed_end_date:
  "optional_member is_date ps ''endDate'' \<Longrightarrow>
   field ps ''endDate'' \<noteq> Undef \<and> (to_epoch_ms date_parse (field ps ''endDate'') = NaN
     \<or> to_epoch_ms date_parse (field ps ''endDate'') \<le> Fin (of_nat now)) \<longleftrightarrow> \<not> ends_later date_parse now ps"
  unfolding not_later_iff by (cases "field ps ''endDate''") (auto simp: ends_later_def optional_member_def is_date_def)

text \<open>
  C37. What the declared type leaves to check at run time. A value of the type is an object and has one of the two
  keys, so the refusals left are these, in this order: it has both keys, which the type does not
  exclude; it is a cron schedule with a blank pattern; it is an interval schedule whose interval is no positive integer;
  it has an end date that is not in the future. Without any of them it is accepted.
\<close>

theorem typed_schedules_have_a_shape:
  assumes "repeat_options repeat"
  shows "\<exists>ps. repeat = Obj ps \<and> (has_key ''pattern'' ps \<or> has_key ''every'' ps)
    \<and> validate_job_scheduler_options date_parse now repeat =
      (if has_key ''pattern'' ps \<and> has_key ''every'' ps then invalid_repeat ''exactly one of pattern | every is required''
       else if \<exists>s. field ps ''pattern'' = Str s \<and> blank s then invalid_repeat ''pattern must be a non-empty string''
       else if has_key ''every'' ps \<and> \<not> (\<exists>k::nat. 0 < k \<and> field ps ''every'' = Num (Fin (of_nat k)))
         then invalid_repeat ''every must be a positive integer''
       else if \<not> ends_later date_parse now ps then invalid_repeat ''endDate must be in the future''
       else Returns ())"
proof -
  from assms obtain ps where ps: "repeat = Obj ps" "cron_schedule ps \<or> interval_schedule ps"
    by (auto simp: repeat_options_def)
  then have "optional_member is_date ps ''endDate''" by (auto simp: cron_schedule_def interval_schedule_def)
  note ends = typed_end_date [OF this, of date_parse now]
  have keys: "has_key ''pattern'' ps \<or> has_key ''every'' ps"
    using ps(2) typed_keys by (auto simp: cron_schedule_def interval_schedule_def)
  have pat: "has_key ''pattern'' ps \<and> \<not> usable_pattern (field ps ''pattern'') \<longleftrightarrow> (\<exists>s. field ps ''pattern'' = Str s \<and> blank s)"
    if "\<not> has_key ''every'' ps"
  proof -
    have "is_str (field ps ''pattern'')"
      using ps(2) that typed_keys by (auto simp: cron_schedule_def interval_schedule_def)
    then show ?thesis using typed_keys(1) by (cases "field ps ''pattern''") auto
  qed
  have no_pat: "field ps ''pattern'' = Undef" if "\<not> has_key ''pattern'' ps"
    using that field_present by blast
  show ?thesis unfolding usable_interval_iff [symmetric]
    by (intro exI [of _ ps] conjI ps(1) keys)
      (use keys pat no_pat ends in \<open>auto simp: ps(1) validate_job_scheduler_options_def Let_def
        simp del: usable_interval.simps\<close>)
qed

theorem typed_schedules_have_a_shape_witness:
  "repeat_options (Obj [(''pattern'', Str ''0 3 * * *''), (''every'', Num (Fin 5))])
   \<and> validate_job_scheduler_options (\<lambda>_. NaN) 0 (Obj [(''pattern'', Str ''0 3 * * *''), (''every'', Num (Fin 5))]) =
      invalid_repeat ''exactly one of pattern | every is required''"
proof -
  let ?both = "Obj [(''pattern'', Str ''0 3 * * *''), (''every'', Num (Fin 5))]"
  have typed: "repeat_options ?both"
    by (simp add: repeat_options_def cron_schedule_def optional_member_def field_def)
  from typed_schedules_have_a_shape [OF typed, of "\<lambda>_. NaN" 0] typed show ?thesis by (simp add: has_key_def)
qed

end
