(* ===== verification/Contracts.thy ===== *)
theory Contracts
  imports Externals
begin

text \<open>
  The interfaces several components share, as locales: the cache that creates one instance per
  name, and the ledger of duplicated connections. Each is interpreted, in the theory of the
  component that provides it, on the component's own definitions.
\<close>

section \<open>Caches of instances\<close>

text \<open>
  The contract of a cache that creates one instance per name, on first use. Both the queue
  service and the queue-events registry provide it.
\<close>

locale instance_cache =
  fixes get_or_create :: "string \<Rightarrow> 's \<Rightarrow> nat outcome \<times> 's"
    and cached :: "'s \<Rightarrow> string \<Rightarrow> nat option"
  assumes hit: "cached s n = Some h \<Longrightarrow> get_or_create n s = (Returns h, s)"
    and created: "cached s n = None \<Longrightarrow> get_or_create n s = (Returns h, s') \<Longrightarrow>
      cached s' = (cached s)(n \<mapsto> h)"
    and failed: "cached s n = None \<Longrightarrow> get_or_create n s = (res, s') \<Longrightarrow> \<not> returned res \<Longrightarrow>
      cached s' = cached s"
begin

lemma result_cached: "get_or_create n s = (Returns h, s') \<Longrightarrow> cached s' n = Some h"
  using hit [of s n] created [of s n h s'] by (cases "cached s n") auto

lemma keeps:
  assumes "get_or_create n s = (res, s')" and "cached s m = Some h"
  shows "cached s' m = Some h"
proof (cases "cached s n")
  case None
  with assms show ?thesis
    using created [of s n _ s'] failed [of s n res s'] by (cases res) auto
next
  case (Some k)
  with assms hit show ?thesis by auto
qed

lemma stable: "cached s m = Some h \<Longrightarrow> cached (fold (\<lambda>n t. snd (get_or_create n t)) ns s) m = Some h"
proof (induction ns arbitrary: s)
  case (Cons n ns)
  have "cached (snd (get_or_create n s)) m = Some h"
    using keeps [OF _ Cons.prems, of n "fst (get_or_create n s)"] by simp
  with Cons.IH show ?case by simp
qed simp

lemma same_instance:
  assumes "get_or_create n s = (Returns h, s')"
  shows "get_or_create n (fold (\<lambda>m t. snd (get_or_create m t)) ns s') =
    (Returns h, fold (\<lambda>m t. snd (get_or_create m t)) ns s')"
  by (rule hit) (rule stable [OF result_cached [OF assms]])

end

section \<open>Ledgers of connections\<close>

text \<open>
  A component that duplicates connections keeps a ledger of them: whatever it does, a duplicate
  that is still open and that it did not find open already is one it tracks. \<open>B\<close> are the
  connections of the other components.
\<close>

locale connection_ledger =
  fixes step :: "'op \<Rightarrow> 's \<Rightarrow> 's"
    and world_of :: "'s \<Rightarrow> world"
    and tracked :: "'s \<Rightarrow> nat set"
    and inv :: "'s \<Rightarrow> bool"
  assumes inv_step: "inv s \<Longrightarrow> inv (step opn s)"
    and ledger_step: "inv s \<Longrightarrow> open_duplicates (world_of s) \<subseteq> B \<union> tracked s \<Longrightarrow>
      open_duplicates (world_of (step opn s)) \<subseteq> B \<union> tracked (step opn s)"
begin

lemma inv_run: "inv s \<Longrightarrow> inv (fold step ops s)"
  by (rule fold_inv) (auto intro: inv_step)

lemma ledger_run:
  "inv s \<Longrightarrow> open_duplicates (world_of s) \<subseteq> B \<union> tracked s \<Longrightarrow>
   open_duplicates (world_of (fold step ops s)) \<subseteq> B \<union> tracked (fold step ops s)"
proof (induction ops arbitrary: s)
  case (Cons opn ops)
  have "open_duplicates (world_of (fold step ops (step opn s))) \<subseteq> B \<union> tracked (fold step ops (step opn s))"
    by (rule Cons.IH [OF inv_step [OF Cons.prems(1)] ledger_step [OF Cons.prems]])
  then show ?case by simp
qed simp

end

text \<open>
  Such a component never touches the connections of others: it releases only connections it tracks
  or has just opened. A client that was there before, and that it does not track, stays as it is.
\<close>

locale connection_owner = connection_ledger step world_of tracked inv
  for step :: "'op \<Rightarrow> 's \<Rightarrow> 's" and world_of :: "'s \<Rightarrow> world" and tracked :: "'s \<Rightarrow> nat set"
    and inv :: "'s \<Rightarrow> bool" +
  assumes grows: "inv s \<Longrightarrow> w_next (world_of s) \<le> w_next (world_of (step opn s))"
    and releases_own: "inv s \<Longrightarrow> released (w_calls (world_of (step opn s))) \<subseteq>
      released (w_calls (world_of s)) \<union> tracked s \<union> {i. w_next (world_of s) \<le> i}"
    and tracks_fresh: "inv s \<Longrightarrow> tracked (step opn s) \<subseteq> tracked s \<union> {i. w_next (world_of s) \<le> i}"
begin

lemma foreign_untracked_step:
  "inv s \<Longrightarrow> c < w_next (world_of s) \<Longrightarrow> c \<notin> tracked s \<Longrightarrow>
   c < w_next (world_of (step opn s)) \<and> c \<notin> tracked (step opn s)"
  using grows [of s opn] tracks_fresh [of s opn] by fastforce

lemma foreign_step:
  "inv s \<Longrightarrow> c < w_next (world_of s) \<Longrightarrow> c \<notin> tracked s \<Longrightarrow> c \<notin> released (w_calls (world_of s)) \<Longrightarrow>
   c \<notin> released (w_calls (world_of (step opn s)))"
  using releases_own [of s opn] by fastforce

lemma foreign_run:
  "inv s \<Longrightarrow> c < w_next (world_of s) \<Longrightarrow> c \<notin> tracked s \<Longrightarrow> c \<notin> released (w_calls (world_of s)) \<Longrightarrow>
   c \<notin> released (w_calls (world_of (fold step ops s)))"
proof (induction ops arbitrary: s)
  case (Cons opn ops)
  note next_ok = foreign_untracked_step [OF Cons.prems(1-3), of opn]
  have "c \<notin> released (w_calls (world_of (fold step ops (step opn s))))"
    by (rule Cons.IH [OF inv_step [OF Cons.prems(1)] conjunct1 [OF next_ok] conjunct2 [OF next_ok]
          foreign_step [OF Cons.prems]])
  then show ?case by simp
qed simp

end

section \<open>Opt-in services\<close>

text \<open>
  A service that is always injectable but works only when switched on: switched off, every
  operation is refused with its own code and status 503 and changes nothing.
\<close>

definition failure :: "'a outcome \<Rightarrow> exn option" where
  "failure r = (case r of Throws x \<Rightarrow> Some x | _ \<Rightarrow> None)"

lemma failure_simps [simp]:
  "failure (Returns v) = None" "failure (Throws x) = Some x" "failure Hangs = None"
  by (simp_all add: failure_def)

definition switched_off :: "error_code \<Rightarrow> exn" where
  "switched_off c = QueueExn (queue_error_bare c SERVICE_UNAVAILABLE)"

locale opt_in =
  fixes enabled :: "'s \<Rightarrow> bool"
    and attempt :: "'op \<Rightarrow> 's \<Rightarrow> exn option \<times> 's"
    and code :: error_code
  assumes refused: "\<not> enabled s \<Longrightarrow> attempt opn s = (Some (switched_off code), s)"
    and keeps_flag: "attempt opn s = (x, s') \<Longrightarrow> enabled s' = enabled s"
begin

lemma never_moves: "\<not> enabled s \<Longrightarrow> fold (\<lambda>opn t. snd (attempt opn t)) ops s = s"
  by (induction ops) (simp_all add: refused)

lemma always_refused:
  "\<not> enabled s \<Longrightarrow>
   fst (attempt opn (fold (\<lambda>opn t. snd (attempt opn t)) ops s)) = Some (switched_off code)"
  by (simp add: never_moves refused)

lemma flag_constant: "enabled (fold (\<lambda>opn t. snd (attempt opn t)) ops s) = enabled s"
proof (induction ops arbitrary: s)
  case (Cons opn ops)
  have "enabled (snd (attempt opn s)) = enabled s"
    by (rule keeps_flag [of opn s "fst (attempt opn s)"]) simp
  with Cons.IH show ?case by simp
qed simp

end

end
