(* ===== verification/Queues.thy ===== *)
theory Queues
  imports Connection Schedules Contracts
begin

text \<open>
  The queue service (\<open>src/src/server/services/queue.service.ts\<close>): the per-name cache of
  \<open>Queue\<close> objects, and the producing, inspecting and controlling operations on top of it.

  The state of the service is its cache; every operation also threads the world. Job data, job
  options and the replies of BullMQ are dynamic values the service passes on untouched.
\<close>

section \<open>State\<close>

record queue_service =
  q_cache :: "(string, nat) jsmap"

definition new_queue_service :: queue_service where
  "new_queue_service = \<lparr>q_cache = []\<rparr>"

type_synonym queue_state = "queue_service \<times> world"

definition MAX_BULK_SIZE :: nat where
  "MAX_BULK_SIZE = 1000"

datatype job_status = Waiting | Active | Completed | Failed | Delayed

fun status_string :: "job_status \<Rightarrow> string" where
  "status_string Waiting = ''waiting''"
| "status_string Active = ''active''"
| "status_string Completed = ''completed''"
| "status_string Failed = ''failed''"
| "status_string Delayed = ''delayed''"

section \<open>The cache\<close>

definition telemetry_option :: "resolved_options \<Rightarrow> obj" where
  "telemetry_option ro = (if truthy (ro_telemetry ro) then [(''telemetry'', ro_telemetry ro)] else [])"

definition queue_options :: "resolved_options \<Rightarrow> nat \<Rightarrow> obj \<Rightarrow> obj" where
  "queue_options ro client overrides =
    spread (spread (spread
      [(''connection'', Ref client), (''prefix'', Str (ro_prefix ro)),
       (''defaultJobOptions'', Obj (ro_defaultJobOptions ro))]
      (ro_queueOptions ro))
      (telemetry_option ro))
      overrides"

definition get_or_create_queue ::
    "env \<Rightarrow> resolved_options \<Rightarrow> resolver \<Rightarrow> string \<Rightarrow> obj \<Rightarrow> queue_state \<Rightarrow> nat outcome \<times> queue_state" where
  "get_or_create_queue E ro r queueName overrides s =
    (let (q, w) = s
     in case map_of (q_cache q) queueName of
          Some h \<Rightarrow> (Returns h, s)
        | None \<Rightarrow>
          (case get_client r of
             Returns client \<Rightarrow>
               (case construct E QueueKind queueName Undef (queue_options ro client overrides) w of
                  (Returns h, w1) \<Rightarrow>
                    (Returns h,
                     (q\<lparr>q_cache := AList.update queueName h (q_cache q)\<rparr>,
                      attach_default_error_listener QueueKind h queueName w1))
                | (Throws x, w1) \<Rightarrow> (Throws x, (q, w1))
                | (Hangs, w1) \<Rightarrow> (Hangs, (q, w1)))
           | Throws x \<Rightarrow> (Throws x, s)
           | Hangs \<Rightarrow> (Hangs, s)))"

definition queue_for :: "env \<Rightarrow> resolved_options \<Rightarrow> resolver \<Rightarrow> string \<Rightarrow> queue_state \<Rightarrow> nat outcome \<times> queue_state" where
  "queue_for E ro r queueName s = get_or_create_queue E ro r queueName [] s"

text \<open>\<open>await this.queueFor(queueName).m(...)\<close>.\<close>

definition queue_call ::
    "env \<Rightarrow> resolved_options \<Rightarrow> resolver \<Rightarrow> string \<Rightarrow> string \<Rightarrow> jsval list \<Rightarrow> queue_state
     \<Rightarrow> jsval outcome \<times> queue_state" where
  "queue_call E ro r queueName m args s =
    (case queue_for E ro r queueName s of
       (Returns h, (q, w)) \<Rightarrow> (let (res, w1) = await E (Invoke h m args) w in (res, (q, w1)))
     | (Throws x, s1) \<Rightarrow> (Throws x, s1)
     | (Hangs, s1) \<Rightarrow> (Hangs, s1))"

section \<open>Operations\<close>

definition enqueue where
  "enqueue E ro r queueName jobName data options s =
    queue_call E ro r queueName ''add'' [Str jobName, data, options] s"

record bulk_job =
  bj_name :: string
  bj_data :: jsval
  bj_options :: jsval

definition bulk_entry :: "bulk_job \<Rightarrow> jsval" where
  "bulk_entry job = Obj ([(''name'', Str (bj_name job)), (''data'', bj_data job)]
     @ (if bj_options job = Undef then [] else [(''opts'', bj_options job)]))"

definition enqueue_bulk ::
    "env \<Rightarrow> resolved_options \<Rightarrow> resolver \<Rightarrow> string \<Rightarrow> bulk_job list \<Rightarrow> queue_state
     \<Rightarrow> jsval outcome \<times> queue_state" where
  "enqueue_bulk E ro r queueName jobs s =
    (if length jobs > MAX_BULK_SIZE
     then (raise_code BULK_ENQUEUE_FAILED INTERNAL_SERVER_ERROR
             [(''reason'', Str ''batch size exceeds limit''),
              (''limit'', Num (Fin (of_nat MAX_BULK_SIZE))),
              (''received'', Num (Fin (of_nat (length jobs))))], s)
     else case queue_call E ro r queueName ''addBulk'' [Arr (map bulk_entry jobs)] s of
            (Throws x, s1) \<Rightarrow>
              (raise_code BULK_ENQUEUE_FAILED INTERNAL_SERVER_ERROR
                 [(''cause'', Str (describe_exn E x))], s1)
          | res \<Rightarrow> res)"

definition get_job where
  "get_job E ro r queueName jobId s =
    (case queue_call E ro r queueName ''getJob'' [Str jobId] s of
       (Returns v, s1) \<Rightarrow> (Returns (coalesce v Null), s1)
     | res \<Rightarrow> res)"

definition page_start :: "jsnum option \<Rightarrow> jsval" where
  "page_start x = Num (opt_default x (Fin 0))"

definition page_end :: "jsnum option \<Rightarrow> jsval" where
  "page_end x = Num (opt_default x (Fin 50))"

definition get_jobs where
  "get_jobs E ro r queueName status start stop s =
    queue_call E ro r queueName ''getJobs''
      [Arr [Str (status_string status)], page_start start, page_end stop] s"

record queue_metrics =
  qm_queue :: string
  qm_counts :: jsval
  qm_collectedAt :: nat

definition get_metrics ::
    "env \<Rightarrow> resolved_options \<Rightarrow> resolver \<Rightarrow> string \<Rightarrow> queue_state \<Rightarrow> queue_metrics outcome \<times> queue_state" where
  "get_metrics E ro r queueName s =
    (case queue_call E ro r queueName ''getJobCounts''
        (map (Str \<circ> status_string) [Waiting, Active, Completed, Failed, Delayed]) s of
       (Returns counts, s1) \<Rightarrow>
         (Returns \<lparr>qm_queue = queueName, qm_counts = counts, qm_collectedAt = w_now (snd s1)\<rparr>, s1)
     | (Throws x, s1) \<Rightarrow> (Throws x, s1)
     | (Hangs, s1) \<Rightarrow> (Hangs, s1))"

definition job_template :: "string \<Rightarrow> obj option \<Rightarrow> obj" where
  "job_template schedulerId template =
    (let t = opt_default template []
     in [(''name'', coalesce (field t ''name'') (Str schedulerId)),
         (''data'', coalesce (field t ''data'') (Obj []))]
        @ (if field t ''opts'' = Undef then [] else [(''opts'', field t ''opts'')]))"

definition upsert_job_scheduler ::
    "env \<Rightarrow> resolved_options \<Rightarrow> resolver \<Rightarrow> string \<Rightarrow> string \<Rightarrow> jsval \<Rightarrow> obj option \<Rightarrow> queue_state
     \<Rightarrow> jsval outcome \<times> queue_state" where
  "upsert_job_scheduler E ro r queueName schedulerId repeat template s =
    (case validate_job_scheduler_options (env_date_parse E) (w_now (snd s)) repeat of
       Throws x \<Rightarrow> (Throws x, s)
     | Hangs \<Rightarrow> (Hangs, s)
     | Returns _ \<Rightarrow>
       (case queue_for E ro r queueName s of
          (Throws x, s1) \<Rightarrow> (Throws x, s1)
        | (Hangs, s1) \<Rightarrow> (Hangs, s1)
        | (Returns h, (q, w)) \<Rightarrow>
          (case (if has_key ''pattern'' (props repeat)
                 then assert_valid_cron (env_cron_parses E) (w_now w) repeat (ro_queueOptions ro)
                 else Returns ()) of
             Throws x \<Rightarrow> (Throws x, (q, w))
           | Hangs \<Rightarrow> (Hangs, (q, w))
           | Returns _ \<Rightarrow>
             (let (res, w1) = await E (Invoke h ''upsertJobScheduler''
                    [Str schedulerId, repeat, Obj (job_template schedulerId template)]) w
              in (res, (q, w1))))))"

definition remove_job_scheduler where
  "remove_job_scheduler E ro r queueName schedulerId s =
    queue_call E ro r queueName ''removeJobScheduler'' [Str schedulerId] s"

definition get_job_schedulers where
  "get_job_schedulers E ro r queueName start stop asc s =
    queue_call E ro r queueName ''getJobSchedulers''
      [page_start start, page_end stop, Boolean (opt_default asc True)] s"

definition pause_queue where
  "pause_queue E ro r queueName s = queue_call E ro r queueName ''pause'' [] s"

definition resume_queue where
  "resume_queue E ro r queueName s = queue_call E ro r queueName ''resume'' [] s"

definition clean_queue where
  "clean_queue E ro r queueName gracePeriodMs limit status s =
    queue_call E ro r queueName ''clean'' [Num gracePeriodMs, Num limit, status] s"

definition get_cached_queues :: "queue_state \<Rightarrow> (string, nat) jsmap" where
  "get_cached_queues s = q_cache (fst s)"

text \<open>
  \<open>closeAll\<close> when no other operation runs while it awaits; the interleaved version is in
  \<open>QueueClosing\<close>.
\<close>

definition close_all :: "env \<Rightarrow> queue_state \<Rightarrow> unit outcome \<times> queue_state" where
  "close_all E s =
    (let (q, w) = s
     in case await_each E (map (\<lambda>h. Invoke h ''close'' []) (jsmap_values (q_cache q))) w of
          (Returns u, w1) \<Rightarrow> (Returns u, (q\<lparr>q_cache := []\<rparr>, w1))
        | (Throws x, w1) \<Rightarrow> (Throws x, (q, w1))
        | (Hangs, w1) \<Rightarrow> (Hangs, (q, w1)))"

section \<open>The cache as an instance of the contract\<close>

interpretation qc: instance_cache "\<lambda>n s. get_or_create_queue E ro r n overrides s"
    "\<lambda>s n. map_of (q_cache (fst s)) n" for E ro r overrides
  by unfold_locales
    (auto simp: get_or_create_queue_def Let_def update_conv' fun_eq_iff
      split: prod.splits option.splits result.splits)

section \<open>Any sequence of operations\<close>

datatype queue_op =
    OpGetOrCreate string obj
  | OpEnqueue string string jsval jsval
  | OpEnqueueBulk string "bulk_job list"
  | OpGetJob string string
  | OpGetJobs string job_status "jsnum option" "jsnum option"
  | OpGetMetrics string
  | OpUpsertScheduler string string jsval "obj option"
  | OpRemoveScheduler string string
  | OpGetSchedulers string "jsnum option" "jsnum option" "bool option"
  | OpPause string
  | OpResume string
  | OpClean string jsnum jsnum jsval
  | OpCloseAll

fun queue_step :: "env \<Rightarrow> resolved_options \<Rightarrow> resolver \<Rightarrow> queue_op \<Rightarrow> queue_state \<Rightarrow> queue_state" where
  "queue_step E ro r (OpGetOrCreate n ov) s = snd (get_or_create_queue E ro r n ov s)"
| "queue_step E ro r (OpEnqueue n j d opts) s = snd (enqueue E ro r n j d opts s)"
| "queue_step E ro r (OpEnqueueBulk n jobs) s = snd (enqueue_bulk E ro r n jobs s)"
| "queue_step E ro r (OpGetJob n i) s = snd (get_job E ro r n i s)"
| "queue_step E ro r (OpGetJobs n st a b) s = snd (get_jobs E ro r n st a b s)"
| "queue_step E ro r (OpGetMetrics n) s = snd (get_metrics E ro r n s)"
| "queue_step E ro r (OpUpsertScheduler n i rep t) s = snd (upsert_job_scheduler E ro r n i rep t s)"
| "queue_step E ro r (OpRemoveScheduler n i) s = snd (remove_job_scheduler E ro r n i s)"
| "queue_step E ro r (OpGetSchedulers n a b c) s = snd (get_job_schedulers E ro r n a b c s)"
| "queue_step E ro r (OpPause n) s = snd (pause_queue E ro r n s)"
| "queue_step E ro r (OpResume n) s = snd (resume_queue E ro r n s)"
| "queue_step E ro r (OpClean n g l st) s = snd (clean_queue E ro r n g l st s)"
| "queue_step E ro r OpCloseAll s = snd (close_all E s)"

text \<open>
  Whatever an operation does, its effect on the state is one of five: nothing, the lookup of a
  queue (which may create it), a lookup followed by the call of one method, and the two of
  \<open>closeAll\<close>: it never comes back, having closed some of the queues, or it closes them all and forgets them.
\<close>

definition close_calls :: "queue_service \<Rightarrow> call list" where
  "close_calls q = map (\<lambda>h. Invoke h ''close'' []) (jsmap_values (q_cache q))"

inductive queue_effect :: "env \<Rightarrow> resolved_options \<Rightarrow> resolver \<Rightarrow> queue_state \<Rightarrow> queue_state \<Rightarrow> bool"
  for E ro r where
  none: "queue_effect E ro r s s"
| lookup: "get_or_create_queue E ro r n ov s = (res, s') \<Longrightarrow> queue_effect E ro r s s'"
| call: "get_or_create_queue E ro r n ov s = (Returns h, (q, w)) \<Longrightarrow>
     w_calls w' = w_calls w @ [Invoke h m args] \<Longrightarrow> w_next w' = w_next w \<Longrightarrow>
     w_log w' = w_log w \<Longrightarrow> w_now w \<le> w_now w' \<Longrightarrow> queue_effect E ro r s (q, w')"
| stuck: "w_calls w' = w_calls w @ take k (close_calls q) \<Longrightarrow> w_next w' = w_next w \<Longrightarrow>
     w_log w' = w_log w \<Longrightarrow> w_now w \<le> w_now w' \<Longrightarrow> queue_effect E ro r (q, w) (q, w')"
| closed: "w_calls w' = w_calls w @ close_calls q \<Longrightarrow> w_next w' = w_next w \<Longrightarrow>
     w_log w' = w_log w \<Longrightarrow> w_now w \<le> w_now w' \<Longrightarrow> queue_effect E ro r (q, w) (q\<lparr>q_cache := []\<rparr>, w')"

lemma queue_call_effect: "queue_effect E ro r s (snd (queue_call E ro r n m args s))"
proof -
  obtain res s1 where f: "get_or_create_queue E ro r n [] s = (res, s1)" by (metis surj_pair)
  show ?thesis
  proof (cases res)
    case (Returns h)
    obtain q w where s1: "s1 = (q, w)" by force
    obtain x w1 where a: "await E (Invoke h m args) w = (x, w1)" by force
    from f Returns s1 a have "snd (queue_call E ro r n m args s) = (q, w1)"
      by (simp add: queue_call_def queue_for_def)
    with queue_effect.call [OF f [unfolded Returns s1], of w1] await_calls [OF a]
    show ?thesis by simp
  qed (use f in \<open>auto simp: queue_call_def queue_for_def intro: queue_effect.lookup\<close>)
qed

lemma enqueue_bulk_effect: "queue_effect E ro r s (snd (enqueue_bulk E ro r n jobs s))"
  using queue_call_effect [of E ro r s n "''addBulk''" "[Arr (map bulk_entry jobs)]"]
  unfolding enqueue_bulk_def by (auto split: prod.splits result.splits intro: queue_effect.none)

lemma get_job_effect: "queue_effect E ro r s (snd (get_job E ro r n i s))"
  using queue_call_effect [of E ro r s n "''getJob''" "[Str i]"]
  unfolding get_job_def by (auto split: prod.splits result.splits)

lemma get_metrics_effect: "queue_effect E ro r s (snd (get_metrics E ro r n s))"
  using queue_call_effect [of E ro r s n "''getJobCounts''"
      "map (Str \<circ> status_string) [Waiting, Active, Completed, Failed, Delayed]"]
  unfolding get_metrics_def by (auto split: prod.splits result.splits)

lemma upsert_snd:
  "snd (upsert_job_scheduler E ro r n i rep t s) = s \<or>
   snd (upsert_job_scheduler E ro r n i rep t s) = snd (queue_for E ro r n s) \<or>
   snd (upsert_job_scheduler E ro r n i rep t s) =
     snd (queue_call E ro r n ''upsertJobScheduler'' [Str i, rep, Obj (job_template i t)] s)"
  unfolding upsert_job_scheduler_def queue_call_def
  by (auto simp: Let_def split: prod.splits result.splits)

lemma queue_for_effect: "queue_effect E ro r s (snd (queue_for E ro r n s))"
  unfolding queue_for_def by (rule queue_effect.lookup [where res = "fst (get_or_create_queue E ro r n [] s)"]) simp

lemma upsert_effect: "queue_effect E ro r s (snd (upsert_job_scheduler E ro r n i rep t s))"
  using upsert_snd [of E ro r n i rep t s] queue_call_effect queue_for_effect queue_effect.none
  by metis

lemma close_all_effect: "queue_effect E ro r s (snd (close_all E s))"
proof -
  obtain q w where s: "s = (q, w)" by force
  obtain x w1 where a: "await_each E (close_calls q) w = (x, w1)" by force
  from await_each_frame [OF a] obtain k where k: "\<not> thrown x" "w_next w1 = w_next w" "w_log w1 = w_log w" "w_now w \<le> w_now w1"
    "w_calls w1 = w_calls w @ take k (close_calls q)" "returned x \<longrightarrow> k = length (close_calls q)" by blast
  show ?thesis
  proof (cases x)
    case (Returns u)
    then have "snd (close_all E s) = (q\<lparr>q_cache := []\<rparr>, w1)" using a s by (simp add: close_all_def close_calls_def)
    with k Returns s show ?thesis by (auto intro: queue_effect.closed)
  next
    case Hangs
    then have "snd (close_all E s) = (q, w1)" using a s by (simp add: close_all_def close_calls_def)
    with k s show ?thesis by (auto intro: queue_effect.stuck)
  qed (use k in simp)
qed

lemmas plain_calls = enqueue_def get_jobs_def remove_job_scheduler_def get_job_schedulers_def
  pause_queue_def resume_queue_def clean_queue_def

lemmas queue_effects = queue_call_effect enqueue_bulk_effect get_job_effect get_metrics_effect
  upsert_effect close_all_effect

lemma queue_step_effect: "queue_effect E ro r s (queue_step E ro r opn s)"
  by (cases opn) (auto simp: plain_calls intro: queue_effects queue_effect.lookup [OF prod.collapse [symmetric]])

lemma get_or_create_keeps:
  "get_or_create_queue E ro r n ov s = (res, s') \<Longrightarrow> map_of (q_cache (fst s)) m = Some h \<Longrightarrow>
   map_of (q_cache (fst s')) m = Some h"
  by (rule qc.keeps)

text \<open>
  What becomes of a name: its queue stays, or it has been closed and whatever the name stands for now was
  opened later than \<open>N\<close>. An operation other than \<open>closeAll\<close> keeps it.
\<close>

definition name_stands_for :: "string \<Rightarrow> nat \<Rightarrow> nat \<Rightarrow> queue_state \<Rightarrow> bool" where
  "name_stands_for n h N s \<longleftrightarrow> N \<le> w_next (snd s) \<and> (map_of (q_cache (fst s)) n = Some h \<or>
     Invoke h ''close'' [] \<in> set (w_calls (snd s)) \<and> (\<forall>k. map_of (q_cache (fst s)) n = Some k \<longrightarrow> N \<le> k))"

lemma get_or_create_fresh:
  assumes "get_or_create_queue E ro r n ov s = (res, s')"
  shows "w_next (snd s) \<le> w_next (snd s') \<and> set (w_calls (snd s)) \<subseteq> set (w_calls (snd s'))
    \<and> (\<forall>m k. map_of (q_cache (fst s')) m = Some k \<longrightarrow> map_of (q_cache (fst s)) m = Some k \<or> w_next (snd s) \<le> k)"
proof -
  obtain q w where s: "s = (q, w)" by force
  show ?thesis
  proof (cases "\<exists>h. map_of (q_cache q) n = Some h")
    case True
    with assms s show ?thesis by (auto simp: get_or_create_queue_def)
  next
    case False
    show ?thesis
    proof (cases rule: get_client_cases [of r])
      case (1 c)
      obtain x w1 where k: "construct E QueueKind n Undef (queue_options ro c ov) w = (x, w1)" by force
      from assms s False 1 k construct_calls [OF k] show ?thesis
        by (cases x) (auto simp: get_or_create_queue_def update_conv' split: if_splits)
    next
      case 2
      with assms s False show ?thesis by (auto simp: get_or_create_queue_def not_initialized_def raise_code_def)
    qed
  qed
qed

lemma name_stands_for_lookup:
  assumes "get_or_create_queue E ro r m ov s = (res, s')" and "name_stands_for n h N s"
  shows "name_stands_for n h N s'"
  using get_or_create_fresh [OF assms(1)] assms(2) get_or_create_keeps [OF assms(1), of n h]
  by (fastforce simp: name_stands_for_def)

lemma name_stands_for_effect:
  "queue_effect E ro r s s' \<Longrightarrow> name_stands_for n h N s \<Longrightarrow> name_stands_for n h N s'"
proof (induction rule: queue_effect.induct)
  case (lookup m ov s res s')
  from name_stands_for_lookup [OF lookup] show ?case .
next
  case (call m ov s k q w w' meth args)
  from name_stands_for_lookup [OF call(1,6)] call(2-5) show ?case by (auto simp: name_stands_for_def)
next
  case (stuck w' w k q)
  then show ?case by (auto simp: name_stands_for_def)
next
  case (closed w' w q)
  have "Invoke h ''close'' [] \<in> set (close_calls q)" if "map_of (q_cache q) n = Some h"
    using that by (force simp: close_calls_def jsmap_values_def dest: map_of_SomeD)
  with closed show ?case by (auto simp: name_stands_for_def)
qed

lemma queue_step_keeps:
  assumes "opn \<noteq> OpCloseAll" and "map_of (q_cache (fst s)) m = Some h"
  shows "map_of (q_cache (fst (queue_step E ro r opn s))) m = Some h"
proof -
  have "map_of (q_cache (fst (snd (get_or_create_queue E ro r n ov s)))) m = Some h" for n ov
    by (rule get_or_create_keeps [OF prod.collapse [symmetric] assms(2)])
  moreover have "q_cache (fst (snd (queue_call E ro r n meth args s))) =
      q_cache (fst (snd (get_or_create_queue E ro r n [] s)))" for n meth args
    by (auto simp: queue_call_def queue_for_def Let_def split: prod.splits result.splits)
  ultimately have called: "map_of (q_cache (fst (snd (queue_call E ro r n meth args s)))) m = Some h"
    and looked: "map_of (q_cache (fst (snd (get_or_create_queue E ro r n ov s)))) m = Some h" for n meth args ov
    by simp_all
  show ?thesis
  proof (cases opn)
    case (OpEnqueueBulk n jobs)
    with called [of n "''addBulk''" "[Arr (map bulk_entry jobs)]"] assms(2) show ?thesis
      by (auto simp: enqueue_bulk_def split: prod.splits result.splits)
  next
    case (OpGetJob n i)
    with called [of n "''getJob''" "[Str i]"] show ?thesis by (auto simp: get_job_def split: prod.splits result.splits)
  next
    case (OpGetMetrics n)
    with called [of n "''getJobCounts''" "map (Str \<circ> status_string) [Waiting, Active, Completed, Failed, Delayed]"]
    show ?thesis by (auto simp: get_metrics_def split: prod.splits result.splits)
  next
    case (OpUpsertScheduler n i rep t)
    with upsert_snd [of E ro r n i rep t s] called looked [of n "[]"] assms(2) show ?thesis
      unfolding queue_for_def by auto
  qed (use assms(1) looked called in \<open>simp_all add: plain_calls\<close>)
qed

lemma queue_steps_keep:
  "OpCloseAll \<notin> set ops \<Longrightarrow> map_of (q_cache (fst s)) m = Some h \<Longrightarrow>
   map_of (q_cache (fst (fold (queue_step E ro r) ops s))) m = Some h"
proof (induction ops arbitrary: s)
  case (Cons opn ops)
  then have "map_of (q_cache (fst (queue_step E ro r opn s))) m = Some h" by (intro queue_step_keeps) auto
  with Cons show ?case by simp
qed simp

text \<open>
  C22. One queue object per name, until it is closed: as long as \<open>closeAll\<close> does not run, the object a name was
  first given is what every later lookup of that name returns, without opening anything, whatever
  operations run in between, on this queue or another, failing or not. And with \<open>closeAll\<close> among
  the operations a lookup that returns still gives that object, or one opened since then, and in this case the
  first one has been closed. Once \<open>closeAll\<close> has returned no queue is cached, so the next lookup of
  any name opens a new one.
\<close>

theorem one_queue_per_name:
  assumes "get_or_create_queue E ro r n ov s = (Returns h, s')"
    and "s'' = fold (queue_step E ro r) ops s'"
  shows "(OpCloseAll \<notin> set ops \<longrightarrow> get_or_create_queue E ro r n ov' s'' = (Returns h, s''))
    \<and> (get_or_create_queue E ro r n ov' s'' = (Returns k, t) \<longrightarrow> k = h \<and> t = s'' \<or>
         w_next (snd s') \<le> k \<and> Invoke h ''close'' [] \<in> set (w_calls (snd s'')))
    \<and> (fst (close_all E s'') = Returns () \<and> get_or_create_queue E ro r m ov' (snd (close_all E s'')) = (Returns k, t) \<longrightarrow>
         k = w_next (snd s'') \<and> map_of (q_cache (fst t)) = [m \<mapsto> k])"
proof (intro conjI impI)
  from assms(1) have now: "map_of (q_cache (fst s')) n = Some h" by (rule qc.result_cached)
  then show "get_or_create_queue E ro r n ov' s'' = (Returns h, s'')" if "OpCloseAll \<notin> set ops"
    unfolding assms(2) by (intro qc.hit queue_steps_keep that)
  have "name_stands_for n h (w_next (snd s')) s'" using now by (simp add: name_stands_for_def)
  then have stands: "name_stands_for n h (w_next (snd s')) s''" unfolding assms(2)
    by (rule fold_inv) (auto intro: name_stands_for_effect [OF queue_step_effect])
  show "k = h \<and> t = s'' \<or> w_next (snd s') \<le> k \<and> Invoke h ''close'' [] \<in> set (w_calls (snd s''))"
    if look: "get_or_create_queue E ro r n ov' s'' = (Returns k, t)"
  proof (cases "map_of (q_cache (fst s'')) n = Some h")
    case True
    from qc.hit [OF this] look show ?thesis by simp
  next
    case False
    from look have "map_of (q_cache (fst t)) n = Some k" by (rule qc.result_cached)
    with get_or_create_fresh [OF look] False stands show ?thesis by (fastforce simp: name_stands_for_def)
  qed
  assume close: "fst (close_all E s'') = Returns ()
    \<and> get_or_create_queue E ro r m ov' (snd (close_all E s'')) = (Returns k, t)"
  obtain q w where s: "s'' = (q, w)" by force
  obtain w1 where w1: "snd (close_all E s'') = (q\<lparr>q_cache := []\<rparr>, w1)" "w_next w1 = w_next w"
    using close s by (auto simp: close_all_def split: prod.splits result.splits dest!: await_each_frame)
  obtain c w2 where "construct E QueueKind m Undef (queue_options ro c ov') w1 = (Returns k, w2)"
    "fst t = q\<lparr>q_cache := [(m, k)]\<rparr>"
    using close w1(1) by (cases rule: get_client_cases [of r])
      (auto simp: get_or_create_queue_def not_initialized_def raise_code_def split: prod.splits result.splits)
  then show "k = w_next (snd s'')" and "map_of (q_cache (fst t)) = [m \<mapsto> k]"
    using construct_calls [of E QueueKind m Undef] w1(2) s by auto
qed

definition demo_queues :: queue_state where
  "demo_queues = (new_queue_service, start_world)"

lemmas demo_defs = demo_ro_def demo_resolver_def demo_queues_def new_queue_service_def
  start_world_def quiet_env_def url_only_def apply_defaults_def

lemma demo_create:
  "get_or_create_queue quiet_env demo_ro demo_resolver n ov demo_queues =
    (Returns 1,
     (\<lparr>q_cache = [(n, 1)]\<rparr>,
      \<lparr>w_now = 0, w_next = 2,
       w_calls = [Construct QueueKind 1 n Undef (queue_options demo_ro 0 ov), OnError QueueKind 1 n],
       w_log = []\<rparr>))"
  by (simp add: get_or_create_queue_def demo_resolver_def demo_queues_def new_queue_service_def
      get_client_def construct_def quiet_env_def start_world_def Let_def log_call_def
      attach_default_error_listener_def)

theorem one_queue_per_name_witness:
  "\<exists>s'. get_or_create_queue quiet_env demo_ro demo_resolver ''mail'' [] demo_queues = (Returns 1, s')
     \<and> fst (get_or_create_queue quiet_env demo_ro demo_resolver ''mail'' []
         (fold (queue_step quiet_env demo_ro demo_resolver)
            [OpPause ''mail'', OpEnqueue ''sms'' ''j'' Null Undef] s')) = Returns 1"
proof -
  let ?run = "fold (queue_step quiet_env demo_ro demo_resolver)
    [OpPause ''mail'', OpEnqueue ''sms'' ''j'' Null Undef]"
  obtain s' where s': "get_or_create_queue quiet_env demo_ro demo_resolver ''mail'' [] demo_queues
      = (Returns 1, s')"
    using demo_create by blast
  have "get_or_create_queue quiet_env demo_ro demo_resolver ''mail'' [] (?run s') = (Returns 1, ?run s')"
    using one_queue_per_name [OF s' refl, of "[OpPause ''mail'', OpEnqueue ''sms'' ''j'' Null Undef]" "[]"] by simp
  with s' show ?thesis by (metis fst_conv)
qed

section \<open>The invariant of the cache\<close>

text \<open>Names are unique, and every cached queue carries the fallback error listener.\<close>

definition queue_inv :: "queue_state \<Rightarrow> bool" where
  "queue_inv s \<longleftrightarrow> jsmap_wf (q_cache (fst s)) \<and>
     (\<forall>(n, h) \<in> set (q_cache (fst s)). OnError QueueKind h n \<in> set (w_calls (snd s)))"

lemma queue_inv_new: "queue_inv (new_queue_service, w)"
  by (simp add: queue_inv_def new_queue_service_def jsmap_wf_def)

lemma queue_inv_get_or_create:
  assumes "get_or_create_queue E ro r n ov s = (res, s')" and "queue_inv s"
  shows "queue_inv s'"
proof -
  obtain q w where s: "s = (q, w)" by force
  show ?thesis
  proof (cases "map_of (q_cache q) n")
    case (Some h)
    with assms s show ?thesis by (simp add: get_or_create_queue_def)
  next
    case None
    show ?thesis
    proof (cases rule: get_client_cases [of r])
      case (1 c)
      obtain x w1 where k: "construct E QueueKind n Undef (queue_options ro c ov) w = (x, w1)" by force
      from assms s None 1 k show ?thesis
        using construct_calls [OF k] set_update_subset [of n _ "q_cache q"]
        by (cases x)
          (auto simp: get_or_create_queue_def queue_inv_def jsmap_wf_snoc update_absent)
    next
      case 2
      with assms s None show ?thesis
        by (auto simp: get_or_create_queue_def not_initialized_def raise_code_def)
    qed
  qed
qed

lemma queue_inv_effect: "queue_effect E ro r s s' \<Longrightarrow> queue_inv s \<Longrightarrow> queue_inv s'"
proof (induction rule: queue_effect.induct)
  case (call n ov s h q w w' m args)
  then have "queue_inv (q, w)" by (blast intro: queue_inv_get_or_create)
  with call show ?case by (auto simp: queue_inv_def)
next
  case (lookup n ov s res s')
  then show ?case by (rule queue_inv_get_or_create)
qed (auto simp: queue_inv_def jsmap_wf_def)

text \<open>
  In every state the queue service can reach, an \<open>error\<close> emitted by a cached queue is
  logged and never thrown at the application.
\<close>

lemma cached_queues_survive_errors:
  assumes "s = fold (queue_step E ro r) ops (new_queue_service, w0)"
    and "map_of (get_cached_queues s) n = Some h"
  shows "emit_error QueueKind h n err (snd s) =
    (Returns (), write_log (EmitterError QueueKind n (describe_error err)) (snd s))"
proof -
  have "queue_inv s" unfolding assms(1)
    by (rule fold_inv) (auto intro: queue_inv_new queue_inv_effect [OF queue_step_effect])
  with assms(2) have "OnError QueueKind h n \<in> set (w_calls (snd s))"
    by (auto simp: queue_inv_def get_cached_queues_def dest: map_of_SomeD)
  then show ?thesis by (rule emit_error_listened)
qed

section \<open>Options of the queues\<close>

text \<open>
  Later sources win: per-call overrides over telemetry, over the module's queue options, over
  the connection, the prefix and the default job options.
\<close>

lemma map_of_queue_options:
  assumes "distinct (map fst (ro_queueOptions ro))" and "distinct (map fst overrides)"
  shows "map_of (queue_options ro client overrides) =
    map_of [(''connection'', Ref client), (''prefix'', Str (ro_prefix ro)),
     (''defaultJobOptions'', Obj (ro_defaultJobOptions ro))]
    ++ map_of (ro_queueOptions ro) ++ map_of (telemetry_option ro) ++ map_of overrides"
  using assms by (cases "truthy (ro_telemetry ro)")
    (simp_all add: queue_options_def map_of_spread telemetry_option_def)

lemma queue_prefix:
  assumes "\<not> has_key ''prefix'' (ro_queueOptions ro)" and "\<not> has_key ''prefix'' overrides"
  shows "field (queue_options ro client overrides) ''prefix'' = Str (ro_prefix ro)"
proof -
  have "\<not> has_key ''prefix'' (telemetry_option ro)"
    by (cases "truthy (ro_telemetry ro)") (simp_all add: telemetry_option_def has_key_def)
  with assms show ?thesis
    by (simp add: queue_options_def field_spread_absent)
qed

lemma queue_connection:
  assumes "\<not> has_key ''connection'' (ro_queueOptions ro)" and "\<not> has_key ''connection'' overrides"
  shows "field (queue_options ro client overrides) ''connection'' = Ref client"
proof -
  have "\<not> has_key ''connection'' (telemetry_option ro)"
    by (cases "truthy (ro_telemetry ro)") (simp_all add: telemetry_option_def has_key_def)
  with assms show ?thesis
    by (simp add: queue_options_def field_spread_absent)
qed

section \<open>Bulk insertion\<close>

text \<open>
  A batch above the cap is refused before anything is looked up, created or sent; and
  whatever makes a batch fail, at any size, the caller sees \<open>BULK_ENQUEUE_FAILED\<close> with status
  500, never a foreign error.
\<close>

lemma bulk_failure_is_wrapped:
  assumes "enqueue_bulk E ro r n jobs s = (Throws x, s')"
  shows "(\<exists>e. x = QueueExn e \<and> qe_code e = code_string BULK_ENQUEUE_FAILED
            \<and> qe_status e = INTERNAL_SERVER_ERROR)
    \<and> (MAX_BULK_SIZE < length jobs \<longrightarrow> s' = s)"
  using assms unfolding enqueue_bulk_def raise_code_def
  by (auto split: if_splits prod.splits result.splits)

lemma bulk_failure_is_wrapped_witness:
  "\<exists>x. enqueue_bulk quiet_env demo_ro demo_resolver ''mail''
        (replicate 1001 \<lparr>bj_name = ''j'', bj_data = Null, bj_options = Undef\<rparr>) demo_queues
      = (Throws x, demo_queues) \<and> exn_code x = Some (code_string BULK_ENQUEUE_FAILED)"
proof -
  obtain x where run: "enqueue_bulk quiet_env demo_ro demo_resolver ''mail''
        (replicate 1001 \<lparr>bj_name = ''j'', bj_data = Null, bj_options = Undef\<rparr>) demo_queues
      = (Throws x, demo_queues)"
    by (simp add: enqueue_bulk_def MAX_BULK_SIZE_def raise_code_def)
  from bulk_failure_is_wrapped [OF this] run show ?thesis by auto
qed

text \<open>
  A batch within the cap is one \<open>addBulk\<close> call on the queue, with one entry per job in the
  order given.
\<close>

lemma bulk_is_one_call:
  assumes "length jobs \<le> MAX_BULK_SIZE" and "queue_for E ro r n s = (Returns h, (q, w))"
  shows "\<exists>w'. snd (enqueue_bulk E ro r n jobs s) = (q, w')
    \<and> w_calls w' = w_calls w @ [Invoke h ''addBulk'' [Arr (map bulk_entry jobs)]]"
proof -
  obtain x w1 where a: "await E (Invoke h ''addBulk'' [Arr (map bulk_entry jobs)]) w = (x, w1)"
    by force
  with assms await_calls [OF a] show ?thesis
    by (cases x) (auto simp: enqueue_bulk_def queue_call_def)
qed

section \<open>Schedulers\<close>

definition cron_refused :: "env \<Rightarrow> resolved_options \<Rightarrow> nat \<Rightarrow> jsval \<Rightarrow> bool" where
  "cron_refused E ro now repeat \<longleftrightarrow> has_key ''pattern'' (props repeat)
     \<and> custom_repeat_strategy (ro_queueOptions ro) = Undef \<and> \<not> env_cron_parses E now repeat"

lemma get_or_create_throws:
  "get_or_create_queue E ro r n ov s = (Throws x, s') \<Longrightarrow>
   exn_code x \<noteq> Some (code_string INVALID_REPEAT_OPTIONS)"
  by (auto simp: get_or_create_queue_def get_client_def not_initialized_def raise_code_def
      construct_def Let_def split: prod.splits option.splits)

lemma get_or_create_now: "w_now (snd (snd (get_or_create_queue E ro r n ov s))) = w_now (snd s)"
  by (auto simp: get_or_create_queue_def get_client_def not_initialized_def raise_code_def
      construct_def Let_def split: prod.splits option.splits)

lemma get_or_create_not_hangs: "fst (get_or_create_queue E ro r n ov s) \<noteq> Hangs"
  by (auto simp: get_or_create_queue_def get_client_def not_initialized_def raise_code_def
      construct_def Let_def split: prod.splits option.splits)

text \<open>
  C15. \<open>INVALID_REPEAT_OPTIONS\<close> means the schedule, and only the schedule: the upsert answers
  with it exactly when the structural contract is broken, or the queue is available and BullMQ's
  own parser refuses the pattern (unless the application brings its own repeat strategy). Any
  failure of Redis keeps its own identity.
\<close>

theorem upsert_failure_classification:
  "(\<exists>x. fst (upsert_job_scheduler E ro r n sid repeat t s) = Throws x
       \<and> exn_code x = Some (code_string INVALID_REPEAT_OPTIONS))
   \<longleftrightarrow> (if schedule_ok (env_date_parse E) (w_now (snd s)) repeat
        then returned (fst (queue_for E ro r n s)) \<and> cron_refused E ro (w_now (snd s)) repeat
        else True)"
  (is "?L \<longleftrightarrow> ?R")
proof (cases "schedule_ok (env_date_parse E) (w_now (snd s)) repeat")
  case False
  then obtain reason where
    "validate_job_scheduler_options (env_date_parse E) (w_now (snd s)) repeat = invalid_repeat reason"
    using validate_schedule_rejects schedule_accepted by blast
  with False show ?thesis
    by (simp add: upsert_job_scheduler_def invalid_repeat_def raise_code_def)
next
  case True
  then have ok: "validate_job_scheduler_options (env_date_parse E) (w_now (snd s)) repeat = Returns ()"
    by (simp add: schedule_accepted)
  obtain res q w where f: "get_or_create_queue E ro r n [] s = (res, q, w)" by (metis prod_cases3)
  have now: "w_now w = w_now (snd s)" using get_or_create_now [of E ro r n "[]" s] f by simp
  show ?thesis
    using True ok f now get_or_create_throws [of E ro r n "[]" s] get_or_create_not_hangs [of E ro r n "[]" s]
    by (cases res)
      (auto simp: upsert_job_scheduler_def queue_for_def cron_refused_def assert_valid_cron_def
        invalid_repeat_def raise_code_def await_def Let_def split: settlement.splits)
qed

text \<open>
  Redis is asked exactly when nothing is wrong with the schedule: after the lookup of the
  queue the trace grows by the single upsert call when the schedule is valid and its pattern is
  not refused, and by nothing otherwise.
\<close>

lemma upsert_asks_redis_only_when_valid:
  "w_calls (snd (snd (upsert_job_scheduler E ro r n sid repeat t s))) =
    (if schedule_ok (env_date_parse E) (w_now (snd s)) repeat
     then w_calls (snd (snd (queue_for E ro r n s))) @
       (case fst (queue_for E ro r n s) of
          Returns h \<Rightarrow>
            if cron_refused E ro (w_now (snd s)) repeat then []
            else [Invoke h ''upsertJobScheduler'' [Str sid, repeat, Obj (job_template sid t)]]
        | _ \<Rightarrow> [])
     else w_calls (snd s))"
proof (cases "schedule_ok (env_date_parse E) (w_now (snd s)) repeat")
  case False
  then obtain reason where
    "validate_job_scheduler_options (env_date_parse E) (w_now (snd s)) repeat = invalid_repeat reason"
    using validate_schedule_rejects schedule_accepted by blast
  with False show ?thesis
    by (simp add: upsert_job_scheduler_def invalid_repeat_def raise_code_def)
next
  case True
  then have ok: "validate_job_scheduler_options (env_date_parse E) (w_now (snd s)) repeat = Returns ()"
    by (simp add: schedule_accepted)
  obtain res q w where f: "get_or_create_queue E ro r n [] s = (res, q, w)" by (metis prod_cases3)
  have now: "w_now w = w_now (snd s)" using get_or_create_now [of E ro r n "[]" s] f by simp
  show ?thesis
    using True ok f now
    by (cases res)
      (auto simp: upsert_job_scheduler_def queue_for_def cron_refused_def assert_valid_cron_def
        invalid_repeat_def raise_code_def await_def Let_def split: settlement.splits)
qed

section \<open>Closing\<close>

text \<open>
  \<open>closeAll\<close> calls \<open>close\<close> once on every cached queue, in the order they were created,
  whichever of them reject, and leaves the cache empty.
\<close>

lemma close_all_closes_every_queue:
  assumes "\<And>h k. k \<in> set (jsmap_values (q_cache q)) \<Longrightarrow>
     env_settles E h (Invoke k ''close'' []) \<noteq> NeverSettles"
  shows "\<exists>w'. close_all E (q, w) = (Returns (), (\<lparr>q_cache = []\<rparr>, w'))
    \<and> w_calls w' = w_calls w @ map (\<lambda>h. Invoke h ''close'' []) (jsmap_values (q_cache q))"
proof -
  let ?cs = "map (\<lambda>h. Invoke h ''close'' []) (jsmap_values (q_cache q))"
  from assms have "\<And>h c. c \<in> set ?cs \<Longrightarrow> env_settles E h c \<noteq> NeverSettles" by auto
  from await_each_settles [OF this] obtain w' where a: "await_each E ?cs w = (Returns (), w')"
    by blast
  from await_each_returned [OF a] a show ?thesis by (auto simp: close_all_def)
qed

definition refusing_env :: env where
  "refusing_env = quiet_env\<lparr>env_settles := (\<lambda>_ _. Rejects 3 (js_error ''closed''))\<rparr>"

end
