(* ===== verification/Metrics.thy ===== *)
theory Metrics
  imports Queues
begin

text \<open>
  The metrics service (\<open>src/src/server/services/metrics.service.ts\<close>): an opt-in cache, with a
  time to live, over the queue service's metrics.

  Each operation runs to its end before the next one starts (\<open>MetricsRace\<close> lets them interleave).
  The service is written against whatever it fetches from, so its lemmas are proved over the
  interface \<open>metrics_source\<close>, which the queue service provides.
\<close>

section \<open>State and operations\<close>

record cache_entry =
  ce_metrics :: queue_metrics
  ce_expiresAt :: jsnum

record metrics_service =
  ms_enabled :: bool
  ms_ttl :: jsnum
  ms_cache :: "(string, cache_entry) jsmap"

definition new_metrics_service :: "bool \<Rightarrow> jsnum \<Rightarrow> metrics_service" where
  "new_metrics_service enabled ttlMs = \<lparr>ms_enabled = enabled, ms_ttl = ttlMs, ms_cache = []\<rparr>"

definition ensure_enabled :: "metrics_service \<Rightarrow> unit outcome" where
  "ensure_enabled ms =
    (if \<not> ms_enabled ms then Throws (QueueExn (queue_error_bare METRICS_DISABLED SERVICE_UNAVAILABLE))
     else Returns ())"

abbreviation instant :: "nat \<Rightarrow> jsnum" where
  "instant t \<equiv> Fin (of_nat t)"

definition cached_metrics :: "nat \<Rightarrow> string \<Rightarrow> metrics_service \<Rightarrow> queue_metrics option" where
  "cached_metrics now queueName ms =
    (case map_of (ms_cache ms) queueName of
       None \<Rightarrow> None
     | Some entry \<Rightarrow> if instant now < ce_expiresAt entry then Some (ce_metrics entry) else None)"

definition store_metrics :: "nat \<Rightarrow> string \<Rightarrow> queue_metrics \<Rightarrow> metrics_service \<Rightarrow> metrics_service" where
  "store_metrics now queueName m ms =
    ms\<lparr>ms_cache := AList.update queueName
        \<lparr>ce_metrics = m, ce_expiresAt = instant now + ms_ttl ms\<rparr> (ms_cache ms)\<rparr>"

definition metrics_get_from ::
    "(string \<Rightarrow> 's \<Rightarrow> queue_metrics outcome \<times> 's) \<Rightarrow> ('s \<Rightarrow> nat) \<Rightarrow> string \<Rightarrow> metrics_service \<times> 's
     \<Rightarrow> queue_metrics outcome \<times> (metrics_service \<times> 's)" where
  "metrics_get_from fetch now queueName t =
    checked (ensure_enabled (fst t)) t (\<lambda>_.
      case cached_metrics (now (snd t)) queueName (fst t) of
        Some m \<Rightarrow> (Returns m, t)
      | None \<Rightarrow>
        (case fetch queueName (snd t) of
           (Returns m, s) \<Rightarrow> (Returns m, (store_metrics (now s) queueName m (fst t), s))
         | (Throws x, s) \<Rightarrow> (Throws x, (fst t, s))
         | (Hangs, s) \<Rightarrow> (Hangs, (fst t, s))))"

type_synonym metrics_state = "metrics_service \<times> queue_state"

definition clock :: "queue_state \<Rightarrow> nat" where
  "clock s = w_now (snd s)"

definition metrics_get ::
    "env \<Rightarrow> resolved_options \<Rightarrow> resolver \<Rightarrow> string \<Rightarrow> metrics_state \<Rightarrow> queue_metrics outcome \<times> metrics_state" where
  "metrics_get E ro r queueName t = metrics_get_from (get_metrics E ro r) clock queueName t"

definition invalidate :: "string option \<Rightarrow> metrics_service \<Rightarrow> unit outcome \<times> metrics_service" where
  "invalidate queueName ms =
    checked (ensure_enabled ms) ms (\<lambda>_.
      case queueName of
        None \<Rightarrow> (Returns (), ms\<lparr>ms_cache := []\<rparr>)
      | Some n \<Rightarrow> (Returns (), ms\<lparr>ms_cache := AList.delete n (ms_cache ms)\<rparr>))"

lemma ensure_enabled_iff: "ensure_enabled ms = Returns () \<longleftrightarrow> ms_enabled ms"
  by (simp add: ensure_enabled_def)

lemma ensure_disabled: "\<not> ms_enabled ms \<Longrightarrow> ensure_enabled ms = Throws (switched_off METRICS_DISABLED)"
  by (simp add: ensure_enabled_def switched_off_def)

lemma store_metrics_fields [simp]:
  "ms_ttl (store_metrics now n m ms) = ms_ttl ms" "ms_enabled (store_metrics now n m ms) = ms_enabled ms"
  by (simp_all add: store_metrics_def)

section \<open>What a cache entry promises\<close>

text \<open>
  An entry is filed under the queue it describes and expires one time to live after the moment
  its snapshot was taken.
\<close>

definition entry_sound :: "jsnum \<Rightarrow> string \<times> cache_entry \<Rightarrow> bool" where
  "entry_sound ttl p \<longleftrightarrow> qm_queue (ce_metrics (snd p)) = fst p
     \<and> ce_expiresAt (snd p) = instant (qm_collectedAt (ce_metrics (snd p))) + ttl"

definition cache_sound :: "metrics_service \<Rightarrow> bool" where
  "cache_sound ms \<longleftrightarrow> list_all (entry_sound (ms_ttl ms)) (ms_cache ms)"

text \<open>A snapshot is recent at an instant: taken just then, or not yet one time to live old.\<close>

definition recent :: "jsnum \<Rightarrow> nat \<Rightarrow> queue_metrics \<Rightarrow> bool" where
  "recent ttl now m \<longleftrightarrow> qm_collectedAt m = now \<or> instant now < instant (qm_collectedAt m) + ttl"

lemma cache_sound_new: "cache_sound (new_metrics_service e ttl)"
  by (simp add: cache_sound_def new_metrics_service_def)

lemma cache_sound_store:
  "cache_sound ms \<Longrightarrow> qm_queue m = n \<Longrightarrow> qm_collectedAt m = now \<Longrightarrow> cache_sound (store_metrics now n m ms)"
  by (auto simp: cache_sound_def store_metrics_def list_all_iff entry_sound_def
      dest!: subsetD [OF set_update_subset])

lemma cache_sound_invalidate: "cache_sound ms \<Longrightarrow> cache_sound (snd (invalidate q ms))"
  using set_delete_subset [of _ "ms_cache ms"]
  by (cases "ms_enabled ms"; cases q)
    (auto simp: invalidate_def ensure_enabled_def cache_sound_def list_all_iff)

lemma cached_metrics_recent:
  "cache_sound ms \<Longrightarrow> cached_metrics now n ms = Some m \<Longrightarrow> qm_queue m = n \<and> recent (ms_ttl ms) now m"
  by (auto simp: cached_metrics_def cache_sound_def list_all_iff entry_sound_def recent_def
      split: option.splits if_splits dest!: map_of_SomeD)

section \<open>The interface to the source of metrics\<close>

locale metrics_source =
  fixes fetch :: "string \<Rightarrow> 's \<Rightarrow> queue_metrics outcome \<times> 's"
    and now :: "'s \<Rightarrow> nat"
  assumes stamped: "fetch n s = (Returns m, s') \<Longrightarrow> qm_queue m = n \<and> qm_collectedAt m = now s'"
begin

lemma get_returns:
  assumes "metrics_get_from fetch now n t = (Returns m, t')"
  shows "cached_metrics (now (snd t)) n (fst t) = Some m \<and> t' = t
    \<or> fetch n (snd t) = (Returns m, snd t') \<and> fst t' = store_metrics (now (snd t')) n m (fst t)"
  using assms
  by (cases "ms_enabled (fst t)"; cases "cached_metrics (now (snd t)) n (fst t)")
    (auto simp: metrics_get_from_def ensure_enabled_def split: prod.splits result.splits)

lemma get_fails:
  assumes "metrics_get_from fetch now n t = (res, t')" and "\<not> returned res"
  shows "fst t' = fst t"
  using assms
  by (cases "ms_enabled (fst t)"; cases "cached_metrics (now (snd t)) n (fst t)")
    (auto simp: metrics_get_from_def ensure_enabled_def split: prod.splits result.splits)

lemma get_sound:
  assumes "metrics_get_from fetch now n t = (res, t')" and "cache_sound (fst t)"
  shows "cache_sound (fst t')"
proof (cases "returned res")
  case True
  then obtain m where "res = Returns m" by (auto simp: returned_iff)
  from get_returns [OF assms(1) [unfolded this]] show ?thesis
    using stamped [of n "snd t" m "snd t'"] cache_sound_store [OF assms(2), of m n "now (snd t')"] assms(2)
    by auto
next
  case False
  with get_fails [OF assms(1)] assms(2) show ?thesis by simp
qed

lemma get_recent:
  assumes "metrics_get_from fetch now n t = (Returns m, t')" and "cache_sound (fst t)"
  shows "qm_queue m = n \<and> recent (ms_ttl (fst t)) (now (snd t')) m"
  using get_returns [OF assms(1)]
proof (elim disjE conjE)
  assume "cached_metrics (now (snd t)) n (fst t) = Some m" and "t' = t"
  with cached_metrics_recent [OF assms(2)] show ?thesis by simp
next
  assume "fetch n (snd t) = (Returns m, snd t')"
  from stamped [OF this] show ?thesis by (simp add: recent_def)
qed

lemma get_settings:
  assumes "metrics_get_from fetch now n t = (res, t')"
  shows "ms_ttl (fst t') = ms_ttl (fst t) \<and> ms_enabled (fst t') = ms_enabled (fst t)"
  using assms
  by (cases "ms_enabled (fst t)"; cases "cached_metrics (now (snd t)) n (fst t)")
    (auto simp: metrics_get_from_def ensure_enabled_def split: prod.splits result.splits)

lemma hit_fetches_nothing:
  "ms_enabled (fst t) \<Longrightarrow> cached_metrics (now (snd t)) n (fst t) = Some m \<Longrightarrow>
   metrics_get_from fetch now n t = (Returns m, t)"
  by (simp add: metrics_get_from_def ensure_enabled_def)

end

interpretation qm: metrics_source "get_metrics E ro r" clock for E ro r
  by unfold_locales
    (auto simp: get_metrics_def clock_def split: prod.splits result.splits)

section \<open>The opt-in contract\<close>

datatype metrics_op = OpMetricsGet string | OpInvalidate "string option" | OpMeanwhile queue_op | OpWait nat

text \<open>
  The operations of the service, and what else may happen between them: an operation of the
  queue service, or time passing.
\<close>

fun metrics_attempt ::
    "env \<Rightarrow> resolved_options \<Rightarrow> resolver \<Rightarrow> metrics_op \<Rightarrow> metrics_state \<Rightarrow> exn option \<times> metrics_state" where
  "metrics_attempt E ro r (OpMetricsGet n) t = (let (res, t') = metrics_get E ro r n t in (failure res, t'))"
| "metrics_attempt E ro r (OpInvalidate q) t =
     (let (res, ms) = invalidate q (fst t) in (failure res, (ms, snd t)))"
| "metrics_attempt E ro r (OpMeanwhile opn) t = (None, (fst t, queue_step E ro r opn (snd t)))"
| "metrics_attempt E ro r (OpWait d) t =
     (None, (fst t, (fst (snd t), (snd (snd t))\<lparr>w_now := w_now (snd (snd t)) + d\<rparr>)))"

definition own_op :: "string + string option \<Rightarrow> metrics_op" where
  "own_op x = (case x of Inl n \<Rightarrow> OpMetricsGet n | Inr q \<Rightarrow> OpInvalidate q)"

interpretation mo: opt_in "\<lambda>t. ms_enabled (fst t)" "\<lambda>x. metrics_attempt E ro r (own_op x)" METRICS_DISABLED
  for E ro r
proof unfold_locales
  show "metrics_attempt E ro r (own_op x) t = (Some (switched_off METRICS_DISABLED), t)"
    if "\<not> ms_enabled (fst t)" for t x
    using that by (cases x)
      (auto simp: own_op_def metrics_get_def metrics_get_from_def invalidate_def ensure_disabled)
  show "ms_enabled (fst t') = ms_enabled (fst t)"
    if "metrics_attempt E ro r (own_op x) t = (y, t')" for x t y t'
    using that qm.get_settings [of E ro r _ t]
    by (cases x)
      (auto simp: own_op_def metrics_get_def invalidate_def ensure_enabled_def Let_def
        split: prod.splits option.splits if_splits)
qed

lemma metrics_attempt_keeps:
  assumes "cache_sound (fst t)"
  shows "cache_sound (fst (snd (metrics_attempt E ro r opn t)))
    \<and> ms_ttl (fst (snd (metrics_attempt E ro r opn t))) = ms_ttl (fst t)"
proof (cases opn)
  case (OpMetricsGet n)
  obtain res t' where g: "metrics_get_from (get_metrics E ro r) clock n t = (res, t')" by (metis surj_pair)
  from qm.get_sound [OF g assms] qm.get_settings [OF g] g OpMetricsGet show ?thesis
    by (simp add: metrics_get_def)
next
  case (OpInvalidate q)
  with cache_sound_invalidate [OF assms, of q] show ?thesis
    by (cases "ms_enabled (fst t)"; cases q) (auto simp: invalidate_def ensure_enabled_def)
qed (use assms in auto)

section \<open>Properties: one operation at a time\<close>

text \<open>
  C16. No snapshot outlives its time to live: after any reads, invalidations, queue operations
  and pauses, a read that returns gives the snapshot of the queue asked for, taken at that very
  moment or less than one time to live before.
\<close>

theorem metrics_are_recent:
  assumes "t = fold (\<lambda>opn t. snd (metrics_attempt E ro r opn t)) ops (new_metrics_service e ttl, s)"
    and "metrics_get E ro r n t = (Returns m, t')"
  shows "qm_queue m = n
    \<and> (qm_collectedAt m = clock (snd t') \<or> instant (clock (snd t')) < instant (qm_collectedAt m) + ttl)"
proof -
  have "cache_sound (fst t) \<and> ms_ttl (fst t) = ttl" unfolding assms(1)
    by (rule fold_inv) (use metrics_attempt_keeps cache_sound_new in \<open>auto simp: new_metrics_service_def\<close>)
  with qm.get_recent [of E ro r n t m t'] assms(2) show ?thesis
    by (simp add: metrics_get_def recent_def)
qed

theorem metrics_are_recent_witness:
  "\<exists>m t'. metrics_get quiet_env demo_ro demo_resolver ''mail'' (new_metrics_service True (Fin 5), demo_queues)
     = (Returns m, t') \<and> qm_queue m = ''mail''"
proof -
  obtain m t' where run: "metrics_get quiet_env demo_ro demo_resolver ''mail''
      (new_metrics_service True (Fin 5), demo_queues) = (Returns m, t')"
    by (simp add: metrics_get_def metrics_get_from_def ensure_enabled_def new_metrics_service_def
        cached_metrics_def get_metrics_def queue_call_def queue_for_def demo_create await_def Let_def)
  have start: "(new_metrics_service True (Fin 5), demo_queues) =
      fold (\<lambda>opn t. snd (metrics_attempt quiet_env demo_ro demo_resolver opn t)) []
        (new_metrics_service True (Fin 5), demo_queues)" by simp
  from metrics_are_recent [OF start run] run show ?thesis by blast
qed

text \<open>
  Switched off, the service is inert: after any of its operations, every operation is refused
  with \<open>METRICS_DISABLED\<close> and status 503, and neither the cache nor Redis is touched.
\<close>

lemma disabled_metrics_are_inert:
  "metrics_get E ro r n (new_metrics_service False ttl, s) =
     (Throws (QueueExn (queue_error_bare METRICS_DISABLED SERVICE_UNAVAILABLE)), (new_metrics_service False ttl, s))
   \<and> invalidate q (new_metrics_service False ttl) =
     (Throws (QueueExn (queue_error_bare METRICS_DISABLED SERVICE_UNAVAILABLE)), new_metrics_service False ttl)
   \<and> fold (\<lambda>x t. snd (metrics_attempt E ro r (own_op x) t)) xs (new_metrics_service False ttl, s) =
     (new_metrics_service False ttl, s)"
  using mo.never_moves [of "(new_metrics_service False ttl, s)" E ro r xs]
  by (simp add: metrics_get_def metrics_get_from_def invalidate_def ensure_enabled_def new_metrics_service_def)

end
