(* ===== verification/MetricsRace.thy ===== *)
theory MetricsRace
  imports Metrics
begin

text \<open>
  The metrics service when its operations interleave
  (\<open>src/src/server/services/metrics.service.ts\<close>). \<open>get\<close> is split at its only \<open>await\<close>: up to it
  the call runs at once and either answers from the cache or leaves a request pending; the reply
  resumes it. \<open>getAll\<close> starts one \<open>get\<close> per cached queue and combines the answers with
  \<open>Promise.all\<close>.

  A pending request remembers when it was sent, an answer when it was given.
\<close>

section \<open>State\<close>

record request =
  rq_id :: nat
  rq_queue :: string
  rq_sent :: nat

record answer =
  an_id :: nat
  an_queue :: string
  an_at :: nat
  an_result :: "queue_metrics outcome"

record metrics_run =
  mr_service :: metrics_service
  mr_now :: nat
  mr_next :: nat
  mr_pending :: "request list"
  mr_answers :: "answer list"

definition start_run :: "bool \<Rightarrow> jsnum \<Rightarrow> metrics_run" where
  "start_run enabled ttlMs =
    \<lparr>mr_service = new_metrics_service enabled ttlMs, mr_now = 0, mr_next = 0, mr_pending = [],
     mr_answers = []\<rparr>"

definition respond :: "nat \<Rightarrow> string \<Rightarrow> queue_metrics outcome \<Rightarrow> metrics_run \<Rightarrow> metrics_run" where
  "respond i n res mr =
    mr\<lparr>mr_answers := mr_answers mr @ [\<lparr>an_id = i, an_queue = n, an_at = mr_now mr, an_result = res\<rparr>]\<rparr>"

section \<open>Steps\<close>

text \<open>\<open>get(queueName)\<close> up to its \<open>await\<close>.\<close>

definition ask :: "string \<Rightarrow> metrics_run \<Rightarrow> metrics_run" where
  "ask n mr =
    (let i = mr_next mr; mr1 = mr\<lparr>mr_next := Suc i\<rparr>
     in case ensure_enabled (mr_service mr) of
          Returns _ \<Rightarrow>
            (case cached_metrics (mr_now mr) n (mr_service mr) of
               Some m \<Rightarrow> respond i n (Returns m) mr1
             | None \<Rightarrow> mr1\<lparr>mr_pending := mr_pending mr @ [\<lparr>rq_id = i, rq_queue = n, rq_sent = mr_now mr\<rparr>]\<rparr>)
        | Throws x \<Rightarrow> respond i n (Throws x) mr1
        | Hangs \<Rightarrow> mr1)"

text \<open>The rest of \<open>get\<close>, when the queue service answers a pending request.\<close>

definition resume :: "request \<Rightarrow> jsval outcome \<Rightarrow> metrics_run \<Rightarrow> metrics_run" where
  "resume q reply mr =
    (let mr1 = mr\<lparr>mr_pending := removeAll q (mr_pending mr)\<rparr>
     in case reply of
          Returns counts \<Rightarrow>
            (let m = \<lparr>qm_queue = rq_queue q, qm_counts = counts, qm_collectedAt = mr_now mr\<rparr>
             in respond (rq_id q) (rq_queue q) (Returns m)
                  (mr1\<lparr>mr_service := store_metrics (mr_now mr) (rq_queue q) m (mr_service mr)\<rparr>))
        | Throws x \<Rightarrow> respond (rq_id q) (rq_queue q) (Throws x) mr1
        | Hangs \<Rightarrow> mr)"

definition forget :: "string option \<Rightarrow> metrics_run \<Rightarrow> metrics_run" where
  "forget q mr = mr\<lparr>mr_service := snd (invalidate q (mr_service mr))\<rparr>"

definition elapse :: "nat \<Rightarrow> metrics_run \<Rightarrow> metrics_run" where
  "elapse d mr = mr\<lparr>mr_now := mr_now mr + d\<rparr>"

inductive metrics_step :: "metrics_run \<Rightarrow> metrics_run \<Rightarrow> bool" where
  asked: "metrics_step mr (ask n mr)"
| resumed: "q \<in> set (mr_pending mr) \<Longrightarrow> metrics_step mr (resume q reply mr)"
| forgotten: "metrics_step mr (forget q mr)"
| elapsed: "metrics_step mr (elapse d mr)"

section \<open>getAll\<close>

definition ask_all :: "string list \<Rightarrow> metrics_run \<Rightarrow> metrics_run" where
  "ask_all names mr = fold ask names mr"

definition answer_of :: "nat \<Rightarrow> metrics_run \<Rightarrow> answer option" where
  "answer_of i mr = find (\<lambda>a. an_id a = i) (mr_answers mr)"

text \<open>
  \<open>Promise.all\<close>: rejected with the first rejection among its promises, fulfilled with all the
  values in the order of the promises, pending otherwise.
\<close>

definition first_rejection :: "nat list \<Rightarrow> metrics_run \<Rightarrow> exn option" where
  "first_rejection is mr =
    Option.bind (find (\<lambda>a. an_id a \<in> set is \<and> thrown (an_result a)) (mr_answers mr))
      (\<lambda>a. failure (an_result a))"

fun values_of :: "nat list \<Rightarrow> metrics_run \<Rightarrow> queue_metrics list option" where
  "values_of [] mr = Some []"
| "values_of (i # is) mr =
     (case answer_of i mr of
        None \<Rightarrow> None
      | Some a \<Rightarrow> (case an_result a of
          Returns m \<Rightarrow> map_option ((#) m) (values_of is mr)
        | _ \<Rightarrow> None))"

definition promise_all :: "nat list \<Rightarrow> metrics_run \<Rightarrow> queue_metrics list outcome option" where
  "promise_all is mr =
    (case first_rejection is mr of
       Some x \<Rightarrow> Some (Throws x)
     | None \<Rightarrow> map_option Returns (values_of is mr))"

text \<open>The promises of one \<open>getAll\<close> are numbered from the state it was called in.\<close>

definition get_all_ids :: "string list \<Rightarrow> metrics_run \<Rightarrow> nat list" where
  "get_all_ids names mr = map ((+) (mr_next mr)) [0..<length names]"

section \<open>Invariant\<close>

definition answer_ok :: "jsnum \<Rightarrow> answer \<Rightarrow> bool" where
  "answer_ok ttl a \<longleftrightarrow> (\<forall>m. an_result a = Returns m \<longrightarrow> qm_queue m = an_queue a \<and> recent ttl (an_at a) m)"

definition run_inv :: "jsnum \<Rightarrow> metrics_run \<Rightarrow> bool" where
  "run_inv ttl mr \<longleftrightarrow> cache_sound (mr_service mr) \<and> ms_ttl (mr_service mr) = ttl
     \<and> list_all (answer_ok ttl) (mr_answers mr)"

lemma respond_simps [simp]:
  "mr_service (respond i n r mr) = mr_service mr" "mr_now (respond i n r mr) = mr_now mr"
  "mr_next (respond i n r mr) = mr_next mr" "mr_pending (respond i n r mr) = mr_pending mr"
  "mr_answers (respond i n r mr) =
     mr_answers mr @ [\<lparr>an_id = i, an_queue = n, an_at = mr_now mr, an_result = r\<rparr>]"
  by (simp_all add: respond_def)

lemma ensure_enabled_cases:
  "ensure_enabled ms = Returns () \<or> ensure_enabled ms = Throws (switched_off METRICS_DISABLED)"
  by (simp add: ensure_enabled_def switched_off_def)

lemma ask_inv: "run_inv ttl mr \<Longrightarrow> run_inv ttl (ask n mr)"
  using ensure_enabled_cases [of "mr_service mr"] cached_metrics_recent [of "mr_service mr" "mr_now mr" n]
  by (cases "cached_metrics (mr_now mr) n (mr_service mr)")
    (auto simp: run_inv_def ask_def Let_def answer_ok_def)

lemma resume_inv: "run_inv ttl mr \<Longrightarrow> run_inv ttl (resume q reply mr)"
  by (cases reply)
    (auto simp: run_inv_def resume_def Let_def answer_ok_def recent_def intro: cache_sound_store)

lemma invalidate_ttl: "ms_ttl (snd (invalidate q ms)) = ms_ttl ms"
  by (cases "ms_enabled ms"; cases q) (auto simp: invalidate_def ensure_enabled_def)

lemma metrics_step_inv: "metrics_step mr mr' \<Longrightarrow> run_inv ttl mr \<Longrightarrow> run_inv ttl mr'"
proof (induction rule: metrics_step.induct)
  case (asked mr n)
  then show ?case by (rule ask_inv)
next
  case (resumed q mr reply)
  from resume_inv [OF resumed(2)] show ?case .
qed (simp_all add: forget_def elapse_def run_inv_def invalidate_ttl cache_sound_invalidate)

lemma metrics_steps_inv: "metrics_step\<^sup>*\<^sup>* mr mr' \<Longrightarrow> run_inv ttl mr \<Longrightarrow> run_inv ttl mr'"
  by (induction rule: rtranclp_induct) (auto intro: metrics_step_inv)

lemma start_run_inv: "run_inv ttl (start_run e ttl)"
  by (simp add: run_inv_def start_run_def cache_sound_new) (simp add: new_metrics_service_def)

section \<open>Identities\<close>

text \<open>Identities are used once, and an identity belongs to one queue.\<close>

definition ids_ok :: "metrics_run \<Rightarrow> bool" where
  "ids_ok mr \<longleftrightarrow>
     (\<forall>q \<in> set (mr_pending mr). rq_id q < mr_next mr) \<and> (\<forall>a \<in> set (mr_answers mr). an_id a < mr_next mr)"

definition asked_as :: "nat \<Rightarrow> string \<Rightarrow> metrics_run \<Rightarrow> bool" where
  "asked_as i n mr \<longleftrightarrow> i < mr_next mr \<and>
     (\<forall>q \<in> set (mr_pending mr). rq_id q = i \<longrightarrow> rq_queue q = n) \<and>
     (\<forall>a \<in> set (mr_answers mr). an_id a = i \<longrightarrow> an_queue a = n)"

lemma ask_ids: "ids_ok mr \<Longrightarrow> ids_ok (ask n mr)"
  using ensure_enabled_cases [of "mr_service mr"]
  by (cases "cached_metrics (mr_now mr) n (mr_service mr)")
    (auto simp: ids_ok_def ask_def Let_def less_Suc_eq)

lemma ask_next: "mr_next (ask n mr) = Suc (mr_next mr)"
  using ensure_enabled_cases [of "mr_service mr"]
  by (cases "cached_metrics (mr_now mr) n (mr_service mr)") (auto simp: ask_def Let_def)

lemma ask_asked: "ids_ok mr \<Longrightarrow> asked_as (mr_next mr) n (ask n mr)"
  using ensure_enabled_cases [of "mr_service mr"]
  by (cases "cached_metrics (mr_now mr) n (mr_service mr)") (fastforce simp: ids_ok_def asked_as_def ask_def Let_def)+

lemma asked_ask: "asked_as i n mr \<Longrightarrow> asked_as i n (ask k mr)"
  using ensure_enabled_cases [of "mr_service mr"]
  by (cases "cached_metrics (mr_now mr) k (mr_service mr)") (auto simp: asked_as_def ask_def Let_def)

lemma metrics_step_ids: "metrics_step mr mr' \<Longrightarrow> ids_ok mr \<Longrightarrow> ids_ok mr'"
proof (induction rule: metrics_step.induct)
  case (resumed q mr reply)
  then show ?case by (cases reply) (auto simp: ids_ok_def resume_def Let_def)
next
  case (asked mr n)
  then show ?case by (rule ask_ids)
qed (simp_all add: forget_def elapse_def ids_ok_def)

lemma asked_step: "metrics_step mr mr' \<Longrightarrow> asked_as i n mr \<Longrightarrow> asked_as i n mr'"
proof (induction rule: metrics_step.induct)
  case (resumed q mr reply)
  then show ?case by (cases reply) (auto simp: asked_as_def resume_def Let_def)
next
  case (asked mr n)
  then show ?case by (rule asked_ask)
qed (simp_all add: forget_def elapse_def asked_as_def)

lemma asked_steps: "metrics_step\<^sup>*\<^sup>* mr mr' \<Longrightarrow> asked_as i n mr \<Longrightarrow> asked_as i n mr'"
  by (induction rule: rtranclp_induct) (auto intro: asked_step)

lemma metrics_steps_ids: "metrics_step\<^sup>*\<^sup>* mr mr' \<Longrightarrow> ids_ok mr \<Longrightarrow> ids_ok mr'"
  by (induction rule: rtranclp_induct) (auto intro: metrics_step_ids)

lemma asked_ask_all: "asked_as i n mr \<Longrightarrow> asked_as i n (ask_all names mr)"
  by (induction names arbitrary: mr) (auto simp: ask_all_def intro: asked_ask)

lemma ask_all_asked:
  "ids_ok mr \<Longrightarrow> k < length names \<Longrightarrow> asked_as (mr_next mr + k) (names ! k) (ask_all names mr)"
proof (induction names arbitrary: mr k)
  case (Cons n names)
  show ?case
  proof (cases k)
    case 0
    have "ask_all (n # names) mr = ask_all names (ask n mr)" by (simp add: ask_all_def)
    with 0 asked_ask_all [OF ask_asked [OF Cons.prems(1)]] show ?thesis by simp
  next
    case (Suc j)
    with Cons.IH [OF ask_ids [OF Cons.prems(1)], of j n] Cons.prems(2) show ?thesis
      by (simp add: ask_all_def ask_next)
  qed
qed simp

lemma values_of_nth:
  "values_of is mr = Some ms \<Longrightarrow> length ms = length is \<and>
     (\<forall>k < length is. \<exists>a \<in> set (mr_answers mr). an_id a = is ! k \<and> an_result a = Returns (ms ! k))"
proof (induction "is" arbitrary: ms)
  case (Cons i "is")
  then obtain a m ms' where a: "answer_of i mr = Some a" "an_result a = Returns m"
    "values_of is mr = Some ms'" "ms = m # ms'"
    by (auto split: option.splits result.splits)
  from a(1) have "a \<in> set (mr_answers mr)" "an_id a = i"
    by (auto simp: answer_of_def find_Some_iff)
  with a Cons.IH [OF a(3)] show ?case by (auto simp: nth_Cons split: nat.splits)
qed simp

section \<open>Properties\<close>

text \<open>
  C17. The bound on the age of a snapshot survives any interleaving of reads, replies,
  rejections, invalidations and the passing of time: every answer describes the queue it was
  asked about and was collected at the moment of the answer or less than one time to live before.
\<close>

theorem interleaved_metrics_are_recent:
  assumes "metrics_step\<^sup>*\<^sup>* (start_run enabled ttl) mr"
    and "a \<in> set (mr_answers mr)" and "an_result a = Returns m"
  shows "qm_queue m = an_queue a
    \<and> (qm_collectedAt m = an_at a \<or> instant (an_at a) < instant (qm_collectedAt m) + ttl)"
  using metrics_steps_inv [OF assms(1) start_run_inv] assms(2,3)
  by (auto simp: run_inv_def list_all_iff answer_ok_def recent_def)

definition mail_request :: request where
  "mail_request = \<lparr>rq_id = 0, rq_queue = ''mail'', rq_sent = 0\<rparr>"

text \<open>A read is sent, the cache is invalidated, the reply comes, and a second read follows.\<close>

definition raced_run :: metrics_run where
  "raced_run = ask ''mail'' (resume mail_request (Returns (Num (Fin 7)))
     (forget None (elapse 1 (ask ''mail'' (start_run True (Fin 1000))))))"

lemma raced_answers:
  "mr_answers raced_run =
    [\<lparr>an_id = 0, an_queue = ''mail'', an_at = 1,
      an_result = Returns \<lparr>qm_queue = ''mail'', qm_counts = Num (Fin 7), qm_collectedAt = 1\<rparr>\<rparr>,
     \<lparr>an_id = 1, an_queue = ''mail'', an_at = 1,
      an_result = Returns \<lparr>qm_queue = ''mail'', qm_counts = Num (Fin 7), qm_collectedAt = 1\<rparr>\<rparr>]"
  by (simp add: raced_run_def ask_def resume_def forget_def elapse_def start_run_def mail_request_def
      new_metrics_service_def ensure_enabled_def cached_metrics_def invalidate_def store_metrics_def
      respond_def Let_def)

lemma raced_reachable: "metrics_step\<^sup>*\<^sup>* (start_run True (Fin 1000)) raced_run"
proof -
  let ?a = "ask ''mail'' (start_run True (Fin 1000))"
  let ?c = "forget None (elapse 1 ?a)"
  have "mail_request \<in> set (mr_pending ?c)"
    by (simp add: ask_def start_run_def mail_request_def new_metrics_service_def ensure_enabled_def
        cached_metrics_def forget_def elapse_def Let_def)
  then have "metrics_step ?c (resume mail_request (Returns (Num (Fin 7))) ?c)" by (rule resumed)
  then show ?thesis unfolding raced_run_def
    by (meson asked elapsed forgotten rtranclp.rtrancl_into_rtrancl rtranclp.rtrancl_refl)
qed

theorem interleaved_metrics_are_recent_witness:
  "\<exists>a \<in> set (mr_answers raced_run). \<exists>m. an_result a = Returns m \<and> qm_queue m = ''mail''"
proof -
  let ?m = "\<lparr>qm_queue = ''mail'', qm_counts = Num (Fin 7), qm_collectedAt = 1\<rparr>"
  let ?a = "\<lparr>an_id = 0, an_queue = ''mail'', an_at = 1, an_result = Returns ?m\<rparr>"
  have "?a \<in> set (mr_answers raced_run)" by (simp add: raced_answers)
  then show ?thesis
    by (rule bexI [rotated]) (use interleaved_metrics_are_recent [OF raced_reachable \<open>?a \<in> _\<close>, of ?m] in simp)
qed

text \<open>
  \<open>getAll\<close> answers in the order the queues were created, however the replies arrive: when its
  promise is fulfilled, the i-th snapshot describes the i-th cached queue.
\<close>

lemma get_all_keeps_the_order:
  assumes "metrics_step\<^sup>*\<^sup>* (start_run enabled ttl) mr"
    and "metrics_step\<^sup>*\<^sup>* (ask_all names mr) mr'"
    and "promise_all (get_all_ids names mr) mr' = Some (Returns ms)"
  shows "map qm_queue ms = names"
proof (rule nth_equalityI)
  have vals: "values_of (get_all_ids names mr) mr' = Some ms"
    using assms(3) by (auto simp: promise_all_def split: option.splits)
  note nth = values_of_nth [OF vals]
  show len: "length (map qm_queue ms) = length names" using nth by (simp add: get_all_ids_def)
  have "ids_ok (start_run enabled ttl)" by (simp add: ids_ok_def start_run_def)
  from metrics_steps_ids [OF assms(1) this] have ids: "ids_ok mr" .
  have "run_inv ttl (ask_all names mr)" unfolding ask_all_def
    by (rule fold_inv) (auto intro: ask_inv metrics_steps_inv [OF assms(1) start_run_inv])
  from metrics_steps_inv [OF assms(2) this] have inv: "run_inv ttl mr'" .
  fix k assume "k < length (map qm_queue ms)"
  with len have k: "k < length names" by simp
  with nth obtain a where a: "a \<in> set (mr_answers mr')" "an_id a = mr_next mr + k"
    "an_result a = Returns (ms ! k)" by (auto simp: get_all_ids_def)
  from asked_steps [OF assms(2) ask_all_asked [OF ids k]] a have "an_queue a = names ! k"
    by (auto simp: asked_as_def)
  with inv a len k show "map qm_queue ms ! k = names ! k"
    by (auto simp: run_inv_def list_all_iff answer_ok_def)
qed

definition pair_run :: metrics_run where
  "pair_run = resume \<lparr>rq_id = 0, rq_queue = ''a'', rq_sent = 0\<rparr> (Returns (Num (Fin 3)))
     (resume \<lparr>rq_id = 1, rq_queue = ''b'', rq_sent = 0\<rparr> (Returns (Num (Fin 4)))
       (ask_all [''a'', ''b''] (start_run True (Fin 5))))"

lemmas run_defs = ask_all_def ask_def resume_def start_run_def new_metrics_service_def ensure_enabled_def
  cached_metrics_def store_metrics_def respond_def Let_def

lemma get_all_keeps_the_order_witness:
  "\<exists>ms. promise_all (get_all_ids [''a'', ''b''] (start_run True (Fin 5))) pair_run = Some (Returns ms)
     \<and> map qm_queue ms = [''a'', ''b'']"
proof -
  let ?a = "ask_all [''a'', ''b''] (start_run True (Fin 5))"
  let ?b = "resume \<lparr>rq_id = 1, rq_queue = ''b'', rq_sent = 0\<rparr> (Returns (Num (Fin 4))) ?a"
  have "metrics_step ?a ?b" by (rule resumed) (simp add: run_defs)
  moreover have "metrics_step ?b pair_run" unfolding pair_run_def by (rule resumed) (simp add: run_defs)
  ultimately have steps: "metrics_step\<^sup>*\<^sup>* ?a pair_run" by (meson rtranclp.rtrancl_into_rtrancl rtranclp.rtrancl_refl)
  have "get_all_ids [''a'', ''b''] (start_run True (Fin 5)) = [0, 1]"
    by (simp add: get_all_ids_def start_run_def)
  then obtain ms where ms: "promise_all (get_all_ids [''a'', ''b''] (start_run True (Fin 5))) pair_run = Some (Returns ms)"
    by (simp add: promise_all_def first_rejection_def answer_of_def pair_run_def run_defs)
  have "map qm_queue ms = [''a'', ''b'']" by (rule get_all_keeps_the_order [OF rtranclp.rtrancl_refl steps ms])
  with ms show ?thesis by (intro exI [of _ ms] conjI)
qed

text \<open>
  An invalidation does not reach the requests already sent: there is a run in which a read is
  sent, the whole cache is invalidated afterwards, and a read made after that is answered, without
  asking Redis again, with the counts of the earlier request.
\<close>

lemma invalidation_misses_pending_reads:
  "\<exists>mr a b. metrics_step\<^sup>*\<^sup>* (ask ''mail'' (start_run True (Fin 1000))) mr
     \<and> mail_request \<in> set (mr_pending (ask ''mail'' (start_run True (Fin 1000))))
     \<and> mr = ask ''mail'' (resume mail_request (Returns (Num (Fin 7)))
              (forget None (elapse 1 (ask ''mail'' (start_run True (Fin 1000))))))
     \<and> mr_pending mr = [] \<and> mr_answers mr = [a, b]
     \<and> an_id b = 1 \<and> an_result b = an_result a"
proof -
  let ?a = "ask ''mail'' (start_run True (Fin 1000))"
  let ?c = "forget None (elapse 1 ?a)"
  have sent: "mail_request \<in> set (mr_pending ?a)"
    by (simp add: ask_def start_run_def mail_request_def new_metrics_service_def ensure_enabled_def
        cached_metrics_def Let_def)
  then have "metrics_step ?c (resume mail_request (Returns (Num (Fin 7))) ?c)"
    by (intro resumed) (simp add: forget_def elapse_def)
  then have "metrics_step\<^sup>*\<^sup>* ?a raced_run" unfolding raced_run_def
    by (meson asked elapsed forgotten rtranclp.rtrancl_into_rtrancl rtranclp.rtrancl_refl)
  moreover have "mr_pending raced_run = []"
    by (simp add: raced_run_def ask_def resume_def forget_def elapse_def start_run_def mail_request_def
      new_metrics_service_def ensure_enabled_def cached_metrics_def invalidate_def store_metrics_def
      respond_def Let_def)
  ultimately show ?thesis using sent raced_answers raced_run_def by simp
qed

end
