(* ===== verification/Paths.thy ===== *)
theory Paths
  imports JsValues
begin

text \<open>
  What the sandbox check uses of \<open>node:path\<close> on POSIX: \<open>isAbsolute\<close> and \<open>extname\<close>, and a
  description of the paths whose extension is allowed that does not mention the scan.
\<close>

definition strip_slashes :: "string \<Rightarrow> string" where
  "strip_slashes p = rev (dropWhile (\<lambda>c. c = CHR ''/'') (rev p))"

definition basename :: "string \<Rightarrow> string" where
  "basename p = rev (takeWhile (\<lambda>c. c \<noteq> CHR ''/'') (rev (strip_slashes p)))"

definition extname :: "string \<Rightarrow> string" where
  "extname p =
    (let b = basename p;
         e = rev (takeWhile (\<lambda>c. c \<noteq> CHR ''.'') (rev b));
         stem = take (length b - length e - 1) b
     in if CHR ''.'' \<notin> set b \<or> stem = [] \<or> b = ''..'' then [] else CHR ''.'' # e)"

definition is_absolute :: "string \<Rightarrow> bool" where
  "is_absolute p = starts_with ''/'' p"

definition allowed_extensions :: "string list" where
  "allowed_extensions = [''.js'', ''.cjs'', ''.mjs'']"

section \<open>The extension of a path\<close>

lemma takeWhile_no_sep: "c \<notin> set x \<Longrightarrow> takeWhile (\<lambda>d. d \<noteq> c) (x @ c # y) = x"
  by (induction x) auto

lemma split_at_last: "c \<in> set b \<Longrightarrow> \<exists>stem e. b = stem @ c # e \<and> c \<notin> set e"
  using split_list_last by fast

lemma extname_of_base:
  assumes b: "basename p = stem @ CHR ''.'' # e" and e: "CHR ''.'' \<notin> set e"
  shows "extname p = (if stem = [] \<or> basename p = ''..'' then [] else CHR ''.'' # e)"
proof -
  have tw: "rev (takeWhile (\<lambda>c. c \<noteq> CHR ''.'') (rev (basename p))) = e"
    unfolding b using takeWhile_no_sep [of "CHR ''.''" "rev e" "rev stem"] e by simp
  have st: "take (length (basename p) - length e - 1) (basename p) = stem"
    unfolding b by simp
  have dot: "CHR ''.'' \<in> set (basename p)" unfolding b by simp
  show ?thesis unfolding extname_def Let_def tw st using dot by simp
qed

lemma strip_slashes_shape: "\<exists>k. p = strip_slashes p @ replicate k (CHR ''/'')"
proof -
  let ?t = "takeWhile (\<lambda>c. c = CHR ''/'') (rev p)"
  have "?t = replicate (length ?t) (CHR ''/'')"
    by (rule replicate_length_same [symmetric]) (auto dest: set_takeWhileD)
  then have "rev p = replicate (length ?t) (CHR ''/'') @ dropWhile (\<lambda>c. c = CHR ''/'') (rev p)"
    by (metis takeWhile_dropWhile_id)
  then have "p = strip_slashes p @ replicate (length ?t) (CHR ''/'')"
    unfolding strip_slashes_def by (metis rev_append rev_replicate rev_rev_ident)
  then show ?thesis by blast
qed

lemma basename_shape:
  "\<exists>d k. p = d @ basename p @ replicate k (CHR ''/'') \<and> CHR ''/'' \<notin> set (basename p)
     \<and> (d = [] \<or> last d = CHR ''/'')"
proof -
  let ?s = "strip_slashes p"
  let ?d = "rev (dropWhile (\<lambda>c. c \<noteq> CHR ''/'') (rev ?s))"
  have "?s = ?d @ basename p"
    unfolding basename_def by (metis rev_append rev_rev_ident takeWhile_dropWhile_id)
  moreover have "CHR ''/'' \<notin> set (basename p)"
    unfolding basename_def by (auto dest: set_takeWhileD)
  moreover have "?d = [] \<or> last ?d = CHR ''/''"
    using hd_dropWhile [of "\<lambda>c. c \<noteq> CHR ''/''" "rev ?s"] by (auto simp: last_rev)
  moreover obtain k where "p = ?s @ replicate k (CHR ''/'')" using strip_slashes_shape by blast
  ultimately show ?thesis by (metis append.assoc)
qed

lemma strip_slashes_eq:
  assumes "CHR ''/'' \<notin> set b" and "b \<noteq> []"
  shows "strip_slashes (d @ b @ replicate k (CHR ''/'')) = d @ b"
proof -
  let ?P = "\<lambda>c. c = CHR ''/''"
  have "dropWhile ?P (replicate k (CHR ''/'') @ rev b @ rev d) = dropWhile ?P (rev b @ rev d)"
    by (rule dropWhile_append2) auto
  moreover have "dropWhile ?P (rev b @ rev d) = rev b @ rev d"
  proof (cases "rev b")
    case Nil
    with assms(2) show ?thesis by simp
  next
    case (Cons x xs)
    then have "x \<in> set b" by (metis list.set_intros(1) set_rev)
    with assms(1) Cons show ?thesis by auto
  qed
  ultimately show ?thesis by (simp add: strip_slashes_def)
qed

lemma basename_eq:
  assumes "CHR ''/'' \<notin> set b" and "b \<noteq> []" and "d = [] \<or> last d = CHR ''/''"
  shows "basename (d @ b @ replicate k (CHR ''/'')) = b"
proof -
  have "takeWhile (\<lambda>c. c \<noteq> CHR ''/'') (rev b @ rev d) = rev b"
  proof (cases "d = []")
    case True
    with assms(1) show ?thesis by (auto simp: takeWhile_eq_all_conv)
  next
    case False
    with assms(3) obtain d' where "d = d' @ [CHR ''/'']" by (metis append_butlast_last_id)
    then show ?thesis using takeWhile_no_sep [of "CHR ''/''" "rev b" "rev d'"] assms(1) by simp
  qed
  then show ?thesis by (simp add: basename_def strip_slashes_eq [OF assms(1,2)])
qed

definition names_module :: "string \<Rightarrow> bool" where
  "names_module p \<longleftrightarrow> (\<exists>d stem ext k. p = d @ (stem @ ext) @ replicate k (CHR ''/'')
     \<and> ext \<in> set allowed_extensions \<and> stem \<noteq> [] \<and> CHR ''/'' \<notin> set stem
     \<and> (d = [] \<or> last d = CHR ''/''))"

lemma allowed_ext_cases: "ext \<in> set allowed_extensions \<Longrightarrow>
    \<exists>e. ext = CHR ''.'' # e \<and> CHR ''.'' \<notin> set e \<and> CHR ''/'' \<notin> set ext \<and> e \<noteq> []"
  by (auto simp: allowed_extensions_def)

lemma extname_names_module:
  assumes ext: "extname p \<in> set allowed_extensions"
  shows "names_module p"
proof -
  have "[] \<notin> set allowed_extensions" by (simp add: allowed_extensions_def)
  moreover have "CHR ''.'' \<notin> set (basename p) \<Longrightarrow> extname p = []"
    by (simp add: extname_def Let_def)
  ultimately have dot: "CHR ''.'' \<in> set (basename p)" using ext by metis
  from split_at_last [OF dot] obtain stem e
    where b: "basename p = stem @ CHR ''.'' # e" "CHR ''.'' \<notin> set e" by (elim exE conjE)
  have "\<not> (stem = [] \<or> basename p = ''..'')"
  proof
    assume "stem = [] \<or> basename p = ''..''"
    then have "extname p = []" by (simp only: extname_of_base [OF b] if_True)
    with ext show False by (simp add: allowed_extensions_def)
  qed
  then have stem: "stem \<noteq> []" "extname p = CHR ''.'' # e"
    by (simp_all only: extname_of_base [OF b] if_False de_Morgan_disj simp_thms)
  obtain d k where p: "p = d @ basename p @ replicate k (CHR ''/'')"
    and sl: "CHR ''/'' \<notin> set (basename p)" and d: "d = [] \<or> last d = CHR ''/''"
    using basename_shape by blast
  from p have "p = d @ (stem @ extname p) @ replicate k (CHR ''/'')" unfolding stem(2) b(1) .
  moreover from sl b(1) have "CHR ''/'' \<notin> set stem" by simp
  ultimately show ?thesis unfolding names_module_def using ext stem(1) d by blast
qed

lemma names_module_extname:
  assumes "names_module p"
  shows "extname p \<in> set allowed_extensions"
proof -
  obtain d stem ext k where p: "p = d @ (stem @ ext) @ replicate k (CHR ''/'')"
    and ext: "ext \<in> set allowed_extensions" and stem: "stem \<noteq> []" "CHR ''/'' \<notin> set stem"
    and d: "d = [] \<or> last d = CHR ''/''"
    using assms unfolding names_module_def by blast
  obtain e where e: "ext = CHR ''.'' # e" "CHR ''.'' \<notin> set e" "CHR ''/'' \<notin> set ext" "e \<noteq> []"
    using allowed_ext_cases [OF ext] by blast
  have "basename p = stem @ ext"
    unfolding p by (rule basename_eq) (use stem d e in auto)
  then have b: "basename p = stem @ CHR ''.'' # e" by (simp add: e(1))
  have "last (basename p) \<in> set e" unfolding b using e(4) by (simp add: last_in_set)
  with e(2) have "basename p \<noteq> ''..''" by auto
  with extname_of_base [OF b e(2)] stem(1) ext e(1) show ?thesis by simp
qed

lemma extname_allowed_iff: "extname p \<in> set allowed_extensions \<longleftrightarrow> names_module p"
  using extname_names_module names_module_extname by blast

end
