(* ===== verification/Workers.thy ===== *)
theory Workers
  imports Connection Contracts Paths
begin

text \<open>
  The worker registry (\<open>src/src/server/services/worker-registry.service.ts\<close>): one BullMQ
  worker per queue name, each with the duplicated connection the library opened for it.

  A \<open>URL\<close> object is its protocol
  and its path name.
\<close>

section \<open>State\<close>

record worker_entry =
  we_worker :: nat
  we_connection :: nat

record worker_registry =
  wr_entries :: "(string, worker_entry) jsmap"

type_synonym worker_state = "worker_registry \<times> world"

definition new_worker_registry :: worker_registry where
  "new_worker_registry = \<lparr>wr_entries = []\<rparr>"

section \<open>Checks\<close>

definition guard_duplicate :: "worker_registry \<Rightarrow> string \<Rightarrow> unit outcome" where
  "guard_duplicate wr queueName =
    (if map_of (wr_entries wr) queueName \<noteq> None
     then raise_code DUPLICATE_PROCESSOR INTERNAL_SERVER_ERROR [(''queueName'', Str queueName)]
     else Returns ())"

definition registration_failed :: "obj \<Rightarrow> 'a outcome" where
  "registration_failed details = raise_code WORKER_REGISTRATION_FAILED INTERNAL_SERVER_ERROR details"

definition out_of_range :: "string \<Rightarrow> jsnum \<Rightarrow> unit outcome" where
  "out_of_range reason actual = registration_failed [(''reason'', Str reason), (''actual'', Num actual)]"

definition check_concurrency :: "jsnum \<Rightarrow> unit outcome" where
  "check_concurrency c =
    (if c < Fin 1 then out_of_range ''concurrency must be >= 1'' c
     else if MAX_WORKER_CONCURRENCY < c then out_of_range ''concurrency must be <= 1000'' c
     else Returns ())"

definition check_limiter :: "limiter \<Rightarrow> unit outcome" where
  "check_limiter l =
    (if lim_max l < Fin 1 then out_of_range ''limiter.max must be >= 1'' (lim_max l)
     else if lim_duration l < Fin 1
       then out_of_range ''limiter.duration must be >= 1'' (lim_duration l)
     else Returns ())"

definition check_present :: "('a \<Rightarrow> unit outcome) \<Rightarrow> 'a option \<Rightarrow> unit outcome" where
  "check_present f x = (case x of None \<Rightarrow> Returns () | Some y \<Rightarrow> f y)"

definition validate_worker_options :: "worker_options option \<Rightarrow> unit outcome" where
  "validate_worker_options opts =
    (case check_present check_concurrency (Option.bind opts wo_concurrency) of
       Returns _ \<Rightarrow> check_present check_limiter (Option.bind opts wo_limiter)
     | bad \<Rightarrow> bad)"

datatype processor_file = FilePath string | FileUrl string string

definition assert_processor_extension :: "string \<Rightarrow> unit outcome" where
  "assert_processor_extension filePath =
    (if extname filePath \<notin> set allowed_extensions
     then registration_failed
            [(''reason'', Str ''processorFile must have a .js, .cjs, or .mjs extension'')]
     else Returns ())"

fun validate_processor_file :: "processor_file \<Rightarrow> unit outcome" where
  "validate_processor_file (FileUrl protocol pathname) =
    (if protocol \<noteq> ''file:''
     then registration_failed [(''reason'', Str ''processorFile URL must use the file: protocol'')]
     else assert_processor_extension pathname)"
| "validate_processor_file (FilePath p) =
    (if \<not> is_absolute p
     then registration_failed [(''reason'', Str ''processorFile must be an absolute path'')]
     else assert_processor_extension p)"

section \<open>Options of the workers\<close>

definition opt_entry :: "string \<Rightarrow> ('a \<Rightarrow> jsval) \<Rightarrow> 'a option \<Rightarrow> obj" where
  "opt_entry k f x = (case x of None \<Rightarrow> [] | Some v \<Rightarrow> [(k, f v)])"

definition limiter_val :: "limiter \<Rightarrow> jsval" where
  "limiter_val l = Obj [(''max'', Num (lim_max l)), (''duration'', Num (lim_duration l))]"

definition build_bull_options :: "resolved_options \<Rightarrow> worker_options option \<Rightarrow> nat \<Rightarrow> obj" where
  "build_bull_options ro opts conn =
    [(''connection'', Ref conn),
     (''concurrency'', Num (opt_default (Option.bind opts wo_concurrency) DEFAULT_WORKER_CONCURRENCY)),
     (''autorun'', Boolean (opt_default (Option.bind opts wo_autorun) True)),
     (''prefix'', Str (ro_prefix ro))]
    @ opt_entry ''limiter'' limiter_val (Option.bind opts wo_limiter)
    @ opt_entry ''lockDuration'' Num (Option.bind opts wo_lockDuration)
    @ opt_entry ''stalledInterval'' Num (Option.bind opts wo_stalledInterval)
    @ (if ro_telemetry ro = Undef then [] else [(''telemetry'', ro_telemetry ro)])"

section \<open>Registration\<close>

text \<open>
  The part both registrations share: duplicate the connection, construct the worker, and either
  track the pair or give the connection back.
\<close>

definition start_worker ::
    "env \<Rightarrow> string \<Rightarrow> jsval \<Rightarrow> (nat \<Rightarrow> obj) \<Rightarrow> nat \<Rightarrow> worker_state \<Rightarrow> nat outcome \<times> worker_state" where
  "start_worker E queueName processor bullOpts client s =
    (let (wr, w) = s
     in case duplicate_connection E client w of
          (Returns conn, w1) \<Rightarrow>
            (case construct E WorkerKind queueName processor (bullOpts conn) w1 of
               (Returns h, w2) \<Rightarrow>
                 (Returns h,
                  (wr\<lparr>wr_entries := AList.update queueName
                       \<lparr>we_worker = h, we_connection = conn\<rparr> (wr_entries wr)\<rparr>,
                   attach_default_error_listener WorkerKind h queueName w2))
             | (Throws x, w2) \<Rightarrow>
                 (registration_failed [(''queueName'', Str queueName), (''cause'', Str (describe_exn E x))],
                  (wr, disconnect conn w2))
             | (Hangs, w2) \<Rightarrow> (Hangs, (wr, w2)))
        | (Throws x, w1) \<Rightarrow> (Throws x, (wr, w1))
        | (Hangs, w1) \<Rightarrow> (Hangs, (wr, w1)))"

definition register ::
    "env \<Rightarrow> resolved_options \<Rightarrow> resolver \<Rightarrow> string \<Rightarrow> jsval \<Rightarrow> worker_options option \<Rightarrow> worker_state
     \<Rightarrow> nat outcome \<times> worker_state" where
  "register E ro r queueName handler opts s =
    checked (guard_duplicate (fst s) queueName) s (\<lambda>_.
    checked (validate_worker_options opts) s (\<lambda>_.
    checked (get_client r) s (\<lambda>client.
      start_worker E queueName handler (build_bull_options ro opts) client s)))"

fun processor_value :: "processor_file \<Rightarrow> jsval" where
  "processor_value (FilePath p) = Str p"
| "processor_value (FileUrl protocol pathname) =
     Obj [(''protocol'', Str protocol), (''pathname'', Str pathname)]"

definition sandboxed_options ::
    "resolved_options \<Rightarrow> worker_options option \<Rightarrow> bool option \<Rightarrow> nat \<Rightarrow> obj" where
  "sandboxed_options ro opts useWorkerThreads conn =
    build_bull_options ro opts conn @ opt_entry ''useWorkerThreads'' Boolean useWorkerThreads"

definition register_sandboxed ::
    "env \<Rightarrow> resolved_options \<Rightarrow> resolver \<Rightarrow> string \<Rightarrow> processor_file \<Rightarrow> worker_options option \<Rightarrow> bool option
     \<Rightarrow> worker_state \<Rightarrow> nat outcome \<times> worker_state" where
  "register_sandboxed E ro r queueName processorFile opts useWorkerThreads s =
    checked (validate_processor_file processorFile) s (\<lambda>_.
    checked (guard_duplicate (fst s) queueName) s (\<lambda>_.
    checked (validate_worker_options opts) s (\<lambda>_.
    checked (get_client r) s (\<lambda>client.
      start_worker E queueName (processor_value processorFile)
        (sandboxed_options ro opts useWorkerThreads) client s))))"

section \<open>Removal and views\<close>

text \<open>
  \<open>unregister\<close> when nothing runs while it awaits; the interleaved version is in
  \<open>WorkerRace\<close>.
\<close>

definition forget_worker :: "string \<Rightarrow> worker_registry \<Rightarrow> worker_registry" where
  "forget_worker queueName wr = wr\<lparr>wr_entries := AList.delete queueName (wr_entries wr)\<rparr>"

definition unregister :: "env \<Rightarrow> string \<Rightarrow> worker_state \<Rightarrow> unit outcome \<times> worker_state" where
  "unregister E queueName s =
    (let (wr, w) = s
     in case map_of (wr_entries wr) queueName of
          None \<Rightarrow> (Returns (), s)
        | Some entry \<Rightarrow>
          (case await E (Invoke (we_worker entry) ''close'' []) w of
             (Returns _, w1) \<Rightarrow>
               (case quit_or_disconnect E (we_connection entry) w1 of
                  (Returns _, w2) \<Rightarrow> (Returns (), (forget_worker queueName wr, w2))
                | (Throws x, w2) \<Rightarrow> (Throws x, (wr, w2))
                | (Hangs, w2) \<Rightarrow> (Hangs, (wr, w2)))
           | (Throws x, w1) \<Rightarrow> (Throws x, (wr, w1))
           | (Hangs, w1) \<Rightarrow> (Hangs, (wr, w1))))"

definition worker_list :: "worker_registry \<Rightarrow> string list" where
  "worker_list wr = jsmap_keys (wr_entries wr)"

definition worker_get_all :: "worker_registry \<Rightarrow> (string, nat) jsmap" where
  "worker_get_all wr = map (\<lambda>(name, entry). (name, we_worker entry)) (wr_entries wr)"

definition worker_get_connections :: "worker_registry \<Rightarrow> (string, nat) jsmap" where
  "worker_get_connections wr = map (\<lambda>(name, entry). (name, we_connection entry)) (wr_entries wr)"

section \<open>Frame facts\<close>

lemma registration_failed_simps [simp]:
  "registration_failed d \<noteq> Returns x" "registration_failed d \<noteq> Hangs"
  by (simp_all add: registration_failed_def)

lemma out_of_range_simps [simp]: "out_of_range d a \<noteq> Returns x" "out_of_range d a \<noteq> Hangs"
  by (simp_all add: out_of_range_def)

lemma guard_duplicate_returns: "guard_duplicate wr n = Returns u \<longleftrightarrow> map_of (wr_entries wr) n = None"
  by (simp add: guard_duplicate_def)

text \<open>The connections the registry answers for.\<close>

definition tracked_workers :: "worker_registry \<Rightarrow> nat set" where
  "tracked_workers wr = we_connection ` snd ` set (wr_entries wr)"

text \<open>
  Starting a worker either adds exactly one tracked connection or leaves no connection of its
  own open.
\<close>

definition started :: "string \<Rightarrow> nat outcome \<Rightarrow> worker_state \<Rightarrow> worker_state \<Rightarrow> bool" where
  "started n res s s' \<longleftrightarrow>
     (\<exists>h c. res = Returns h
        \<and> wr_entries (fst s') = wr_entries (fst s) @ [(n, \<lparr>we_worker = h, we_connection = c\<rparr>)]
        \<and> open_duplicates (snd s') = insert c (open_duplicates (snd s))
        \<and> c \<notin> open_duplicates (snd s) \<and> w_next (snd s) \<le> c
        \<and> OnError WorkerKind h n \<in> set (w_calls (snd s')))
   \<or> (\<exists>x. res = Throws x \<and> fst s' = fst s \<and> open_duplicates (snd s') = open_duplicates (snd s))"

lemma start_worker_started:
  assumes "start_worker E n p b client (wr, w) = (res, s')" and "world_ok w"
    and "map_of (wr_entries wr) n = None"
  shows "started n res (wr, w) s'"
proof -
  obtain d w1 where dup: "duplicate_connection E client w = (d, w1)" by force
  note d = duplicate_calls [OF dup]
  have fresh: "w_next w \<notin> duplicates (w_calls w)" "w_next w \<notin> released (w_calls w)"
    using duplicates_below [OF assms(2), of "w_next w"] fresh_not_released [OF assms(2)] by auto
  show ?thesis
  proof (cases d)
    case (Returns c)
    obtain k w2 where con: "construct E WorkerKind n p (b c) w1 = (k, w2)" by force
    show ?thesis
      using assms(1,3) dup Returns con d construct_calls [OF con] fresh
      by (cases k) (auto simp: start_worker_def started_def open_duplicates_def update_absent
          registration_failed_def raise_code_def)
  qed (use assms(1) dup d in \<open>auto simp: start_worker_def started_def open_duplicates_def\<close>)
qed

lemma start_worker_calls:
  assumes "start_worker E n p b client (wr, w) = (res, (wr', w'))"
  shows "\<exists>cs. w_calls w' = w_calls w @ cs \<and> w_next w \<le> w_next w' \<and> w_log w' = w_log w \<and> w_now w' = w_now w
     \<and> (\<forall>c \<in> set cs. \<forall>i \<in> set (ids_of c). i = client \<or> w_next w \<le> i \<and> i < w_next w')
     \<and> released cs \<subseteq> {w_next w}"
proof -
  obtain d w1 where dup: "duplicate_connection E client w = (d, w1)" by force
  note d = duplicate_calls [OF dup]
  show ?thesis
  proof (cases d)
    case (Returns c)
    obtain k w2 where con: "construct E WorkerKind n p (b c) w1 = (k, w2)" by force
    show ?thesis
      using assms dup Returns con d construct_calls [OF con]
      by (cases k) (auto simp: start_worker_def)
  qed (use assms dup d in \<open>auto simp: start_worker_def\<close>)
qed

lemma start_worker_ext:
  "start_worker E n p b client s = (res, s') \<Longrightarrow> world_grows (snd s) (snd s') \<and> w_log (snd s') = w_log (snd s)"
  using start_worker_calls by (cases s; cases s') (force simp: world_grows_def)

lemma get_client_not_hangs [simp]: "get_client r \<noteq> Hangs"
  by (simp add: get_client_def not_initialized_def split: option.splits)

lemma validate_worker_not_hangs [simp]: "validate_worker_options o1 \<noteq> Hangs"
  by (auto simp: validate_worker_options_def check_present_def check_concurrency_def check_limiter_def
      split: option.splits result.splits)

lemma validate_processor_not_hangs [simp]: "validate_processor_file f \<noteq> Hangs"
  by (cases f) (auto simp: assert_processor_extension_def)

lemma guard_duplicate_not_hangs [simp]: "guard_duplicate wr n \<noteq> Hangs"
  by (simp add: guard_duplicate_def)

lemma not_started: "started n (Throws x) s s"
  by (simp add: started_def)

lemma register_started:
  "register E ro r n hdl opts s = (res, s') \<Longrightarrow> world_ok (snd s) \<Longrightarrow> started n res s s'"
  by (cases s; cases "r_client r") (auto simp: register_def checked_def guard_duplicate_returns not_started
      get_client_def not_initialized_def raise_code_def
      split: result.splits intro: start_worker_started)

lemma register_sandboxed_started:
  "register_sandboxed E ro r n f opts t s = (res, s') \<Longrightarrow> world_ok (snd s) \<Longrightarrow> started n res s s'"
  by (cases s; cases "r_client r") (auto simp: register_sandboxed_def checked_def guard_duplicate_returns not_started
      get_client_def not_initialized_def raise_code_def
      split: result.splits intro: start_worker_started)

lemma register_ext:
  "register E ro r n hdl opts s = (res, s') \<Longrightarrow> world_grows (snd s) (snd s') \<and> w_log (snd s') = w_log (snd s)"
  by (cases "r_client r") (auto simp: register_def checked_def get_client_def not_initialized_def raise_code_def
      split: result.splits dest: start_worker_ext)

lemma register_sandboxed_ext:
  "register_sandboxed E ro r n f opts t s = (res, s') \<Longrightarrow>
   world_grows (snd s) (snd s') \<and> w_log (snd s') = w_log (snd s)"
  by (cases "r_client r") (auto simp: register_sandboxed_def checked_def get_client_def not_initialized_def
      raise_code_def split: result.splits dest: start_worker_ext)

section \<open>Properties: validation\<close>

lemma opt_all_present: "check_present f x = Returns () \<longleftrightarrow> \<not> opt_test (\<lambda>y. f y \<noteq> Returns ()) x"
  by (simp add: check_present_def opt_test_def split: option.splits)

lemma check_concurrency_iff:
  "check_concurrency c = Returns () \<longleftrightarrow> c = NaN \<or> Fin 1 \<le> c \<and> c \<le> Fin 1000"
  by (cases c) (auto simp: check_concurrency_def MAX_WORKER_CONCURRENCY_def)

lemma at_least_one_iff: "\<not> x < Fin 1 \<longleftrightarrow> x = NaN \<or> Fin 1 \<le> x"
  by (cases x) auto

lemma check_limiter_iff:
  "check_limiter l = Returns () \<longleftrightarrow>
     (lim_max l = NaN \<or> Fin 1 \<le> lim_max l) \<and> (lim_duration l = NaN \<or> Fin 1 \<le> lim_duration l)"
  by (simp add: check_limiter_def at_least_one_iff [symmetric])

lemma validate_worker_options_unfold:
  "validate_worker_options opts = Returns () \<longleftrightarrow>
     check_present check_concurrency (Option.bind opts wo_concurrency) = Returns ()
   \<and> check_present check_limiter (Option.bind opts wo_limiter) = Returns ()"
  by (auto simp: validate_worker_options_def split: result.splits)

text \<open>
  The tuning of a worker is accepted exactly when a concurrency, if given, lies between one
  and a thousand and a rate limit, if given, allows at least one job in at least one millisecond;
  the one value that slips past every comparison is \<open>NaN\<close>.
\<close>

lemma worker_tuning_accepted_iff:
  "validate_worker_options opts = Returns () \<longleftrightarrow>
     \<not> opt_test (\<lambda>c. c \<noteq> NaN \<and> \<not> (Fin 1 \<le> c \<and> c \<le> Fin 1000)) (Option.bind opts wo_concurrency)
   \<and> \<not> opt_test (\<lambda>l. lim_max l \<noteq> NaN \<and> \<not> Fin 1 \<le> lim_max l
                    \<or> lim_duration l \<noteq> NaN \<and> \<not> Fin 1 \<le> lim_duration l) (Option.bind opts wo_limiter)"
  unfolding validate_worker_options_unfold opt_all_present check_concurrency_iff check_limiter_iff
  by (simp add: opt_test_def split: option.splits)

text \<open>
  C23. A sandboxed processor is accepted exactly when it is an absolute path, or a URL of the
  \<open>file:\<close> protocol, whose last segment is a non-empty name followed by \<open>.js\<close>, \<open>.cjs\<close> or \<open>.mjs\<close>
  (trailing slashes aside).
\<close>

theorem processor_file_accepted_iff:
  "validate_processor_file f = Returns () \<longleftrightarrow>
     (case f of FilePath p \<Rightarrow> (\<exists>rest. p = CHR ''/'' # rest) \<and> names_module p
              | FileUrl protocol pathname \<Rightarrow> protocol = ''file:'' \<and> names_module pathname)"
proof -
  have ext: "assert_processor_extension p = Returns () \<longleftrightarrow> names_module p" for p
    by (simp add: assert_processor_extension_def extname_allowed_iff)
  show ?thesis by (cases f) (auto simp: ext is_absolute_def starts_with_iff)
qed

section \<open>Properties: registration\<close>

text \<open>
  C11. Registering in process: on success the queue gets exactly one entry, at the end of the
  registry, and exactly one new connection, the one in that entry, is open; on failure the registry is as
  before and no connection the attempt opened is left open. A second registration for a queue is
  refused before anything is opened.
\<close>

theorem register_tracks_or_releases:
  assumes "register E ro r n hdl opts s = (res, s')" and "world_ok (snd s)"
  shows "(\<exists>h c. res = Returns h
        \<and> wr_entries (fst s') = wr_entries (fst s) @ [(n, \<lparr>we_worker = h, we_connection = c\<rparr>)]
        \<and> open_duplicates (snd s') = insert c (open_duplicates (snd s)) \<and> c \<notin> open_duplicates (snd s))
    \<or> (\<exists>x. res = Throws x \<and> fst s' = fst s \<and> open_duplicates (snd s') = open_duplicates (snd s)
        \<and> (map_of (wr_entries (fst s)) n \<noteq> None \<longrightarrow>
             s' = s \<and> exn_code x = Some (code_string DUPLICATE_PROCESSOR)))"
proof (cases "map_of (wr_entries (fst s)) n")
  case None
  with register_started [OF assms] show ?thesis unfolding started_def by auto
next
  case (Some e)
  with assms(1) show ?thesis
    by (auto simp: register_def guard_duplicate_def raise_code_def)
qed

text \<open>The same for a sandboxed worker, whose file is checked first.\<close>

lemma register_sandboxed_tracks_or_releases:
  assumes "register_sandboxed E ro r n f opts t s = (res, s')" and "world_ok (snd s)"
  shows "(\<exists>h c. res = Returns h \<and> validate_processor_file f = Returns ()
        \<and> wr_entries (fst s') = wr_entries (fst s) @ [(n, \<lparr>we_worker = h, we_connection = c\<rparr>)]
        \<and> open_duplicates (snd s') = insert c (open_duplicates (snd s)) \<and> c \<notin> open_duplicates (snd s))
    \<or> (\<exists>x. res = Throws x \<and> fst s' = fst s \<and> open_duplicates (snd s') = open_duplicates (snd s)
        \<and> (validate_processor_file f \<noteq> Returns () \<or> map_of (wr_entries (fst s)) n \<noteq> None \<longrightarrow> s' = s))"
proof (cases "validate_processor_file f = Returns () \<and> map_of (wr_entries (fst s)) n = None")
  case True
  with register_sandboxed_started [OF assms] show ?thesis unfolding started_def by auto
next
  case False
  then show ?thesis using assms(1)
    by (cases "validate_processor_file f")
      (auto simp: register_sandboxed_def guard_duplicate_def raise_code_def)
qed

definition demo_workers :: worker_state where
  "demo_workers = (new_worker_registry, start_world)"

definition closed_env :: env where
  "closed_env = quiet_env\<lparr>env_throws :=
     (\<lambda>_ c. case c of Construct _ _ _ _ _ \<Rightarrow> Some (js_error ''refused'') | _ \<Rightarrow> None)\<rparr>"

lemma demo_refused:
  "\<exists>x w. register closed_env demo_ro demo_resolver ''mail'' (Fn 7) None demo_workers
      = (Throws x, (new_worker_registry, w))
    \<and> w_calls w = [RedisDuplicate 0 1 blocking_override,
        Construct WorkerKind 2 ''mail'' (Fn 7) (build_bull_options demo_ro None 1), RedisDisconnect 1]"
  by (simp add: register_def demo_workers_def new_worker_registry_def guard_duplicate_def
      validate_worker_options_def check_present_def get_client_def demo_resolver_def start_worker_def
      duplicate_connection_def construct_def closed_env_def quiet_env_def start_world_def Let_def
      registration_failed_def raise_code_def log_call_def disconnect_def)

theorem register_tracks_or_releases_witness:
  "\<exists>s'. register closed_env demo_ro demo_resolver ''mail'' (Fn 7) None demo_workers =
       (fst (register closed_env demo_ro demo_resolver ''mail'' (Fn 7) None demo_workers), s')
     \<and> open_duplicates (snd s') = open_duplicates start_world"
proof -
  obtain x w where run: "register closed_env demo_ro demo_resolver ''mail'' (Fn 7) None demo_workers
      = (Throws x, (new_worker_registry, w))"
    using demo_refused by blast
  have "world_ok (snd demo_workers)" by (simp add: demo_workers_def)
  from register_tracks_or_releases [OF run this] run show ?thesis by (auto simp: demo_workers_def)
qed

lemma register_sandboxed_tracks_or_releases_witness:
  "\<exists>s'. register_sandboxed quiet_env demo_ro demo_resolver ''mail'' (FilePath ''job.js'') None None demo_workers =
       (fst (register_sandboxed quiet_env demo_ro demo_resolver ''mail'' (FilePath ''job.js'') None None demo_workers), s')
     \<and> s' = demo_workers"
proof -
  have bad: "validate_processor_file (FilePath ''job.js'') \<noteq> Returns ()"
    by (simp add: is_absolute_def starts_with_iff)
  obtain res s' where run:
    "register_sandboxed quiet_env demo_ro demo_resolver ''mail'' (FilePath ''job.js'') None None demo_workers = (res, s')"
    by (metis surj_pair)
  have "world_ok (snd demo_workers)" by (simp add: demo_workers_def)
  from register_sandboxed_tracks_or_releases [OF run this] bad run show ?thesis by auto
qed

section \<open>The ledger of the registry\<close>

datatype worker_op =
    OpRegister string jsval "worker_options option"
  | OpRegisterSandboxed string processor_file "worker_options option" "bool option"
  | OpUnregister string

fun worker_step :: "env \<Rightarrow> resolved_options \<Rightarrow> resolver \<Rightarrow> worker_op \<Rightarrow> worker_state \<Rightarrow> worker_state" where
  "worker_step E ro r (OpRegister n hdl opts) s = snd (register E ro r n hdl opts s)"
| "worker_step E ro r (OpRegisterSandboxed n f opts t) s = snd (register_sandboxed E ro r n f opts t s)"
| "worker_step E ro r (OpUnregister n) s = snd (unregister E n s)"

text \<open>
  Queue names are unique, every worker carries the fallback error listener, every identity in the
  registry and in the trace is below the next fresh one.
\<close>

definition entry_ok :: "world \<Rightarrow> string \<times> worker_entry \<Rightarrow> bool" where
  "entry_ok w = (\<lambda>(n, e). we_worker e < w_next w \<and> we_connection e < w_next w
     \<and> OnError WorkerKind (we_worker e) n \<in> set (w_calls w))"

definition worker_inv :: "resolver \<Rightarrow> worker_state \<Rightarrow> bool" where
  "worker_inv r s \<longleftrightarrow> jsmap_wf (wr_entries (fst s)) \<and> world_ok (snd s) \<and> client_ok r (snd s)
     \<and> list_all (entry_ok (snd s)) (wr_entries (fst s))"

lemma entry_ok_mono:
  "entry_ok w p \<Longrightarrow> w_next w \<le> w_next w' \<Longrightarrow> set (w_calls w) \<subseteq> set (w_calls w') \<Longrightarrow> entry_ok w' p"
  by (auto simp: entry_ok_def)

lemma entries_ok_mono:
  "list_all (entry_ok w) es \<Longrightarrow> w_next w \<le> w_next w' \<Longrightarrow> set (w_calls w) \<subseteq> set (w_calls w') \<Longrightarrow>
   list_all (entry_ok w') es"
  by (auto simp: list_all_iff intro: entry_ok_mono)

lemma client_ok_mono: "client_ok r w \<Longrightarrow> w_next w \<le> w_next w' \<Longrightarrow> client_ok r w'"
  by (auto simp: client_ok_def split: option.splits)

lemma worker_inv_mono:
  "worker_inv r (wr, w) \<Longrightarrow> world_grows w w' \<Longrightarrow> world_ok w' \<Longrightarrow> worker_inv r (wr, w')"
  by (auto simp: worker_inv_def world_grows_def intro: client_ok_mono entries_ok_mono)

lemma start_worker_inv:
  assumes "start_worker E n p b client (wr, w) = (res, s')" and "worker_inv r (wr, w)"
    and "r_client r = Some client" and "map_of (wr_entries wr) n = None"
  shows "worker_inv r s'"
proof -
  obtain wr' w' where s': "s' = (wr', w')" by force
  have ok: "world_ok w" "client < w_next w" "list_all (entry_ok w) (wr_entries wr)" "jsmap_wf (wr_entries wr)"
    using assms(2,3) by (auto simp: worker_inv_def client_ok_def)
  obtain cs where cs: "w_calls w' = w_calls w @ cs" "w_next w \<le> w_next w'"
    "\<And>c i. c \<in> set cs \<Longrightarrow> i \<in> set (ids_of c) \<Longrightarrow> i = client \<or> w_next w \<le> i \<and> i < w_next w'"
    using start_worker_calls [OF assms(1) [unfolded s']] by blast
  have w': "world_ok w'"
    by (rule world_ok_extend [OF ok(1) cs(1,2)]) (use cs(2,3) ok(2) in force)
  have old: "list_all (entry_ok w') (wr_entries wr)"
    using entries_ok_mono [OF ok(3)] cs(1,2) by simp
  have cl: "client_ok r w'" using assms(2) cs(2) by (auto simp: worker_inv_def intro: client_ok_mono)
  from start_worker_started [OF assms(1) ok(1) assms(4)] consider
      (up) h c where "wr_entries wr' = wr_entries wr @ [(n, \<lparr>we_worker = h, we_connection = c\<rparr>)]"
        "open_duplicates w' = insert c (open_duplicates w)" "OnError WorkerKind h n \<in> set (w_calls w')"
    | (down) "wr' = wr"
    unfolding started_def s' by auto
  then show ?thesis
  proof cases
    case up
    have "h < w_next w'" using w' up(3) unfolding world_ok_def by fastforce
    moreover have "c < w_next w'"
      using up(2) duplicates_below [OF w', of c] by (auto simp: open_duplicates_def)
    ultimately show ?thesis
      using up old w' cl ok(4) assms(4) by (simp add: worker_inv_def s' entry_ok_def)
  next
    case down
    with old w' cl ok(4) show ?thesis by (simp add: worker_inv_def s')
  qed
qed

lemma register_inv: "worker_inv r s \<Longrightarrow> worker_inv r (snd (register E ro r n hdl opts s))"
  by (cases s; cases "r_client r")
    (auto simp: register_def checked_def guard_duplicate_returns get_client_def not_initialized_def
      raise_code_def split: result.splits intro: start_worker_inv [OF prod.collapse [symmetric]])

lemma register_sandboxed_inv:
  "worker_inv r s \<Longrightarrow> worker_inv r (snd (register_sandboxed E ro r n f opts t s))"
  by (cases s; cases "r_client r")
    (auto simp: register_sandboxed_def checked_def guard_duplicate_returns get_client_def
      not_initialized_def raise_code_def split: result.splits
      intro: start_worker_inv [OF prod.collapse [symmetric]])

text \<open>What an unregistration does to the state.\<close>

lemma unregister_effect:
  assumes "unregister E n (wr, w) = (res, (wr', w'))" and "map_of (wr_entries wr) n = Some e"
  shows "w_next w' = w_next w \<and> w_log w' = w_log w \<and> w_now w \<le> w_now w' \<and>
    (wr' = wr \<and> w_calls w' = w_calls w @ [Invoke (we_worker e) ''close'' []]
   \<or> wr' = wr \<and> res = Hangs \<and> w_calls w' = w_calls w @ [Invoke (we_worker e) ''close'' [], RedisQuit (we_connection e)]
   \<or> wr' = forget_worker n wr \<and> res = Returns () \<and>
       (w_calls w' = w_calls w @ [Invoke (we_worker e) ''close'' [], RedisQuit (we_connection e)]
      \<or> w_calls w' = w_calls w @ [Invoke (we_worker e) ''close'' [], RedisQuit (we_connection e),
           RedisDisconnect (we_connection e)]))"
proof -
  obtain x w1 where a: "await E (Invoke (we_worker e) ''close'' []) w = (x, w1)" by force
  obtain y w2 where q: "quit_or_disconnect E (we_connection e) w1 = (y, w2)" by force
  have y: "y = Returns () \<or> y = Hangs \<and> w_calls w2 = w_calls w1 @ [RedisQuit (we_connection e)]"
    using q by (auto simp: quit_or_disconnect_def await_def Let_def split: settlement.splits)
  show ?thesis
    using assms a q y await_calls [OF a] quit_or_disconnect_calls [OF q]
    by (cases x) (auto simp: unregister_def)
qed

lemma unregister_inv:
  assumes "worker_inv r s"
  shows "worker_inv r (snd (unregister E n s))"
proof -
  obtain wr w where s: "s = (wr, w)" by force
  obtain res wr' w' where u: "unregister E n (wr, w) = (res, (wr', w'))" by (metis prod_cases3)
  show ?thesis
  proof (cases "map_of (wr_entries wr) n")
    case None
    with u s assms show ?thesis by (auto simp: unregister_def)
  next
    case (Some e)
    have inv: "jsmap_wf (wr_entries wr)" "world_ok w" "client_ok r w" "list_all (entry_ok w) (wr_entries wr)"
      using assms s by (auto simp: worker_inv_def)
    note eff = unregister_effect [OF u Some]
    have e: "entry_ok w (n, e)" using inv(4) map_of_SomeD [OF Some] by (auto simp: list_all_iff)
    have "\<exists>cs. w_calls w' = w_calls w @ cs \<and> (\<forall>c \<in> set cs. \<forall>i \<in> set (ids_of c). i < w_next w')"
      using eff e by (auto simp: entry_ok_def)
    then obtain cs where cs: "w_calls w' = w_calls w @ cs"
      "\<And>c i. c \<in> set cs \<Longrightarrow> i \<in> set (ids_of c) \<Longrightarrow> i < w_next w'"
      by blast
    have "world_ok w'" by (rule world_ok_extend [OF inv(2) cs(1)]) (use eff cs(2) in auto)
    moreover have "list_all (entry_ok w') (wr_entries wr)"
      by (rule entries_ok_mono [OF inv(4)]) (use eff cs(1) in auto)
    moreover have "client_ok r w'" using client_ok_mono [OF inv(3)] eff by simp
    moreover have "wr' = wr \<or> wr' = forget_worker n wr" using eff by auto
    ultimately show ?thesis
      using inv(1) jm.wf_del [of "wr_entries wr" n] set_delete_subset [of n "wr_entries wr"]
      by (auto simp: worker_inv_def u s forget_worker_def list_all_iff)
  qed
qed

lemma worker_step_inv: "worker_inv r s \<Longrightarrow> worker_inv r (worker_step E ro r opn s)"
  by (cases opn) (auto intro: register_inv register_sandboxed_inv unregister_inv)

lemma tracked_append [simp]:
  "tracked_workers (wr\<lparr>wr_entries := es @ [(n, e)]\<rparr>) = insert (we_connection e) (we_connection ` snd ` set es)"
  by (auto simp: tracked_workers_def)

lemma started_ledger:
  "started n res s s' \<Longrightarrow> open_duplicates (snd s) \<subseteq> B \<union> tracked_workers (fst s) \<Longrightarrow>
   open_duplicates (snd s') \<subseteq> B \<union> tracked_workers (fst s')"
  by (auto simp: started_def tracked_workers_def)

lemma unregister_ledger:
  assumes "worker_inv r s" and "open_duplicates (snd s) \<subseteq> B \<union> tracked_workers (fst s)"
  shows "open_duplicates (snd (snd (unregister E n s))) \<subseteq> B \<union> tracked_workers (fst (snd (unregister E n s)))"
proof -
  obtain wr w where s: "s = (wr, w)" by force
  obtain res wr' w' where u: "unregister E n (wr, w) = (res, (wr', w'))" by (metis prod_cases3)
  show ?thesis
  proof (cases "map_of (wr_entries wr) n")
    case None
    with u s assms(2) show ?thesis by (auto simp: unregister_def)
  next
    case (Some e)
    have "distinct (map fst (wr_entries wr))" using assms(1) s by (simp add: worker_inv_def jsmap_wf_def)
    then have only: "(n, e') \<in> set (wr_entries wr) \<Longrightarrow> e' = e" for e'
      using Some by (metis map_of_is_SomeI option.inject)
    have kept: "tracked_workers wr \<subseteq> insert (we_connection e) (tracked_workers (forget_worker n wr))"
      using only by (force simp: tracked_workers_def forget_worker_def AList.delete_eq)
    from unregister_effect [OF u Some] have
      "wr' = wr \<and> open_duplicates w' \<subseteq> open_duplicates w
       \<or> wr' = forget_worker n wr \<and> open_duplicates w' \<subseteq> open_duplicates w - {we_connection e}"
      by (auto simp: open_duplicates_def)
    with assms(2) kept show ?thesis by (auto simp: s u)
  qed
qed

interpretation wl: connection_ledger "worker_step E ro r" snd "\<lambda>s. tracked_workers (fst s)" "worker_inv r"
  for E ro r
proof unfold_locales
  show "worker_inv r s \<Longrightarrow> worker_inv r (worker_step E ro r opn s)" for s opn
    by (rule worker_step_inv)
  show "worker_inv r s \<Longrightarrow> open_duplicates (snd s) \<subseteq> B \<union> tracked_workers (fst s) \<Longrightarrow>
    open_duplicates (snd (worker_step E ro r opn s)) \<subseteq> B \<union> tracked_workers (fst (worker_step E ro r opn s))"
    for s B opn
  proof (cases opn)
    case (OpRegister n hdl opts)
    assume "worker_inv r s" and le: "open_duplicates (snd s) \<subseteq> B \<union> tracked_workers (fst s)"
    then have "world_ok (snd s)" by (simp add: worker_inv_def)
    from started_ledger [OF register_started [OF prod.collapse [symmetric] this] le] OpRegister
    show ?thesis by simp
  next
    case (OpRegisterSandboxed n f opts t)
    assume "worker_inv r s" and le: "open_duplicates (snd s) \<subseteq> B \<union> tracked_workers (fst s)"
    then have "world_ok (snd s)" by (simp add: worker_inv_def)
    from started_ledger [OF register_sandboxed_started [OF prod.collapse [symmetric] this] le]
      OpRegisterSandboxed
    show ?thesis by simp
  next
    case (OpUnregister n)
    assume "worker_inv r s" and "open_duplicates (snd s) \<subseteq> B \<union> tracked_workers (fst s)"
    from unregister_ledger [OF this] OpUnregister show ?thesis by simp
  qed
qed

lemma registers_own:
  assumes "register E ro r n hdl opts s = (res, s') \<or> register_sandboxed E ro r n f opts t s = (res, s')"
    and "world_ok (snd s)"
  shows "w_next (snd s) \<le> w_next (snd s')
    \<and> released (w_calls (snd s')) \<subseteq> released (w_calls (snd s)) \<union> {i. w_next (snd s) \<le> i}
    \<and> tracked_workers (fst s') \<subseteq> tracked_workers (fst s) \<union> {i. w_next (snd s) \<le> i}"
proof -
  obtain wr w wr' w' where s: "s = (wr, w)" "s' = (wr', w')" by (metis surj_pair)
  have "started n res s s'"
    using assms register_started register_sandboxed_started by blast
  then have tracked: "tracked_workers wr' \<subseteq> tracked_workers wr \<union> {i. w_next w \<le> i}"
    unfolding s started_def tracked_workers_def by (elim disjE exE conjE) auto
  have "s' = s \<or> (\<exists>p b client. start_worker E n p b client s = (res, s'))"
    using assms(1) unfolding register_def register_sandboxed_def checked_def by (auto split: result.splits)
  then show ?thesis
  proof (elim disjE exE)
    fix p b client
    assume "start_worker E n p b client s = (res, s')"
    from start_worker_calls [OF this [unfolded s]] tracked show ?thesis by (auto simp: s)
  qed (use s in auto)
qed

lemma unregister_own:
  assumes "worker_inv r s"
  shows "w_next (snd s) \<le> w_next (snd (snd (unregister E n s)))
    \<and> released (w_calls (snd (snd (unregister E n s)))) \<subseteq> released (w_calls (snd s)) \<union> tracked_workers (fst s)
    \<and> tracked_workers (fst (snd (unregister E n s))) \<subseteq> tracked_workers (fst s)"
proof -
  obtain wr w where s: "s = (wr, w)" by force
  obtain res wr' w' where u: "unregister E n (wr, w) = (res, (wr', w'))" by (metis prod_cases3)
  show ?thesis
  proof (cases "map_of (wr_entries wr) n")
    case None
    with u s show ?thesis by (auto simp: unregister_def)
  next
    case (Some e)
    have "we_connection e \<in> tracked_workers wr" using map_of_SomeD [OF Some] by (force simp: tracked_workers_def)
    moreover have "tracked_workers (forget_worker n wr) \<subseteq> tracked_workers wr"
      using set_delete_subset [of n "wr_entries wr"] by (auto simp: tracked_workers_def forget_worker_def)
    ultimately show ?thesis using unregister_effect [OF u Some] by (auto simp: s u)
  qed
qed

lemma worker_step_owns:
  assumes "worker_inv r s"
  shows "w_next (snd s) \<le> w_next (snd (worker_step E ro r opn s))
    \<and> released (w_calls (snd (worker_step E ro r opn s))) \<subseteq>
        released (w_calls (snd s)) \<union> tracked_workers (fst s) \<union> {i. w_next (snd s) \<le> i}
    \<and> tracked_workers (fst (worker_step E ro r opn s)) \<subseteq> tracked_workers (fst s) \<union> {i. w_next (snd s) \<le> i}"
proof -
  have ok: "world_ok (snd s)" using assms by (simp add: worker_inv_def)
  show ?thesis
  proof (cases opn)
    case (OpRegister n hdl opts)
    obtain res s' where "register E ro r n hdl opts s = (res, s')" by (metis surj_pair)
    with registers_own [OF disjI1 [OF this] ok] OpRegister show ?thesis by auto
  next
    case (OpRegisterSandboxed n f opts t)
    obtain res s' where "register_sandboxed E ro r n f opts t s = (res, s')" by (metis surj_pair)
    with registers_own [OF disjI2 [OF this] ok] OpRegisterSandboxed show ?thesis by auto
  next
    case (OpUnregister n)
    with unregister_own [OF assms, of E n] show ?thesis by auto
  qed
qed

interpretation wo: connection_owner "worker_step E ro r" snd "\<lambda>s. tracked_workers (fst s)" "worker_inv r"
  for E ro r
  by unfold_locales (use worker_step_owns in blast)+

end
