(* ===== verification/Events.thy ===== *)
theory Events
  imports Connection Contracts
begin

text \<open>
  The registry of queue-event streams
  (\<open>src/src/server/services/queue-events-registry.service.ts\<close>): one \<open>QueueEvents\<close> per queue
  name, opened on demand, and the duplicated connection of each. Unlike the worker registry it
  keeps two maps, filled together.
\<close>

section \<open>State and operations\<close>

record events_registry =
  ev_events :: "(string, nat) jsmap"
  ev_connections :: "(string, nat) jsmap"

type_synonym events_state = "events_registry \<times> world"

definition new_events_registry :: events_registry where
  "new_events_registry = \<lparr>ev_events = [], ev_connections = []\<rparr>"

definition queue_events_options :: "resolved_options \<Rightarrow> nat \<Rightarrow> obj" where
  "queue_events_options ro conn = [(''connection'', Ref conn), (''prefix'', Str (ro_prefix ro))]"

definition get_or_create_events ::
    "env \<Rightarrow> resolved_options \<Rightarrow> resolver \<Rightarrow> string \<Rightarrow> events_state \<Rightarrow> nat outcome \<times> events_state" where
  "get_or_create_events E ro r queueName s =
    (let (ev, w) = s
     in case map_of (ev_events ev) queueName of
          Some h \<Rightarrow> (Returns h, s)
        | None \<Rightarrow>
          checked (get_client r) s (\<lambda>client.
            case duplicate_connection E client w of
              (Returns conn, w1) \<Rightarrow>
                (case construct E QueueEventsKind queueName Undef (queue_events_options ro conn) w1 of
                   (Returns h, w2) \<Rightarrow>
                     (Returns h,
                      (\<lparr>ev_events = AList.update queueName h (ev_events ev),
                        ev_connections = AList.update queueName conn (ev_connections ev)\<rparr>,
                       attach_default_error_listener QueueEventsKind h queueName w2))
                 | (Throws x, w2) \<Rightarrow> (Throws x, (ev, disconnect conn w2))
                 | (Hangs, w2) \<Rightarrow> (Hangs, (ev, w2)))
            | (Throws x, w1) \<Rightarrow> (Throws x, (ev, w1))
            | (Hangs, w1) \<Rightarrow> (Hangs, (ev, w1))))"

definition events_list :: "events_registry \<Rightarrow> string list" where
  "events_list ev = jsmap_keys (ev_events ev)"

definition events_get_all :: "events_registry \<Rightarrow> (string, nat) jsmap" where
  "events_get_all ev = ev_events ev"

definition events_get_connections :: "events_registry \<Rightarrow> (string, nat) jsmap" where
  "events_get_connections ev = ev_connections ev"

section \<open>One stream per queue\<close>

interpretation ec: instance_cache "\<lambda>n s. get_or_create_events E ro r n s"
    "\<lambda>s n. map_of (ev_events (fst s)) n" for E ro r
proof (unfold_locales, goal_cases)
  case (1 s n h)
  then show ?case by (cases s) (simp add: get_or_create_events_def)
next
  case (2 s n h s')
  then show ?case
    by (cases "get_client r")
      (auto simp: get_or_create_events_def Let_def update_conv' fun_eq_iff
        split: prod.splits option.splits result.splits)
next
  case (3 s n res s')
  then show ?case
    by (cases "get_client r")
      (auto simp: get_or_create_events_def Let_def split: prod.splits option.splits result.splits)
qed

section \<open>The ledger of the registry\<close>

definition tracked_events :: "events_registry \<Rightarrow> nat set" where
  "tracked_events ev = snd ` set (ev_connections ev)"

text \<open>
  The two maps have the same keys in the same order, every stream carries the fallback listener,
  and every connection of the trace is below the next fresh identity.
\<close>

definition events_inv :: "resolver \<Rightarrow> events_state \<Rightarrow> bool" where
  "events_inv r s \<longleftrightarrow> world_ok (snd s) \<and> client_ok r (snd s)
     \<and> jsmap_wf (ev_events (fst s))
     \<and> jsmap_keys (ev_events (fst s)) = jsmap_keys (ev_connections (fst s))
     \<and> (\<forall>(n, h) \<in> set (ev_events (fst s)). OnError QueueEventsKind h n \<in> set (w_calls (snd s)))"

lemma events_inv_new: "world_ok w \<Longrightarrow> client_ok r w \<Longrightarrow> events_inv r (new_events_registry, w)"
  by (simp add: events_inv_def new_events_registry_def jsmap_wf_def jsmap_keys_def)

text \<open>What an opening that reaches \<open>duplicate\<close> does to the state.\<close>

lemma events_effect:
  assumes "get_or_create_events E ro r n (ev, w) = (res, (ev', w'))"
    and "map_of (ev_events ev) n = None" and "r_client r = Some client"
  shows "w_next w \<le> w_next w' \<and> w_log w' = w_log w \<and> w_now w' = w_now w \<and>
   ((\<exists>x. res = Throws x \<and> ev' = ev \<and> w_next w' = w_next w \<and> w_calls w' = w_calls w @ [DuplicateFailed client])
  \<or> (\<exists>c h x. res = Throws x \<and> ev' = ev \<and> c = w_next w \<and> h = Suc c \<and> w_next w' = Suc h \<and> w_calls w' = w_calls w @
       [RedisDuplicate client c blocking_override,
        Construct QueueEventsKind h n Undef (queue_events_options ro c), RedisDisconnect c])
  \<or> (\<exists>c h. res = Returns h \<and> c = w_next w \<and> h = Suc c \<and> w_next w' = Suc h
       \<and> ev' = \<lparr>ev_events = ev_events ev @ [(n, h)],
               ev_connections = AList.update n c (ev_connections ev)\<rparr>
       \<and> w_calls w' = w_calls w @
       [RedisDuplicate client c blocking_override,
        Construct QueueEventsKind h n Undef (queue_events_options ro c), OnError QueueEventsKind h n]))"
proof -
  obtain d w1 where dup: "duplicate_connection E client w = (d, w1)" by force
  note d = duplicate_calls [OF dup]
  have cl: "get_client r = Returns client" using assms(3) by (simp add: get_client_def)
  show ?thesis
  proof (cases d)
    case (Returns c)
    obtain k w2 where con: "construct E QueueEventsKind n Undef (queue_events_options ro c) w1 = (k, w2)"
      by force
    show ?thesis
      using assms dup Returns con d cl construct_calls [OF con]
      by (cases k) (auto simp: get_or_create_events_def update_absent)
  qed (use assms dup d cl in \<open>auto simp: get_or_create_events_def\<close>)
qed

lemma events_unchanged:
  "\<not> (map_of (ev_events (fst s)) n = None \<and> r_client r \<noteq> None) \<Longrightarrow>
   snd (get_or_create_events E ro r n s) = s"
  by (cases s; cases "map_of (ev_events (fst s)) n")
    (auto simp: get_or_create_events_def get_client_def not_initialized_def raise_code_def)

lemma events_ext:
  assumes "get_or_create_events E ro r n s = (res, s')"
  shows "world_grows (snd s) (snd s') \<and> w_log (snd s') = w_log (snd s)"
proof (cases "map_of (ev_events (fst s)) n = None \<and> r_client r \<noteq> None")
  case True
  then obtain client where "r_client r = Some client" by auto
  with True events_effect [of E ro r n "fst s" "snd s" res "fst s'" "snd s'" client] assms
  show ?thesis by (auto simp: world_grows_def)
next
  case False
  from events_unchanged [OF this, of E ro] assms show ?thesis by simp
qed

lemma events_inv_mono:
  "events_inv r (ev, w) \<Longrightarrow> world_grows w w' \<Longrightarrow> world_ok w' \<Longrightarrow> events_inv r (ev, w')"
  by (auto simp: events_inv_def world_grows_def client_ok_def split: option.splits)

text \<open>A stream that was not there and could be opened is the last of the registry.\<close>

lemma events_opened:
  assumes "get_or_create_events E ro r n s = (Returns h, s')" and "map_of (ev_events (fst s)) n = None"
  shows "ev_events (fst s') = ev_events (fst s) @ [(n, h)]"
proof -
  obtain client where "r_client r = Some client"
    using assms by (cases "r_client r") (auto simp: get_or_create_events_def get_client_def not_initialized_def
      raise_code_def split: prod.splits)
  with assms events_effect [of E ro r n "fst s" "snd s" "Returns h" "fst s'" "snd s'" client]
  show ?thesis by auto
qed

lemma events_step_inv:
  assumes "events_inv r s"
  shows "events_inv r (snd (get_or_create_events E ro r n s))"
proof (cases "map_of (ev_events (fst s)) n = None \<and> r_client r \<noteq> None")
  case True
  then obtain client where cl: "r_client r = Some client" by auto
  obtain ev w where s: "s = (ev, w)" by force
  obtain res ev' w' where g: "get_or_create_events E ro r n (ev, w) = (res, (ev', w'))" by (metis prod_cases3)
  from True s have None: "map_of (ev_events ev) n = None" by simp
  note eff = events_effect [OF g None cl]
  have inv: "world_ok w" "client < w_next w" using assms s cl by (auto simp: events_inv_def client_ok_def)
  have keys: "map fst (ev_connections ev) = map fst (ev_events ev)"
    using assms s by (simp add: events_inv_def jsmap_keys_def)
  with None have absent: "map_of (ev_connections ev) n = None" by (simp add: map_of_eq_None_iff flip: set_map)
  have "w_next w \<le> w_next w'" using eff by auto
  then have "client_ok r w'" using assms s by (auto simp: events_inv_def client_ok_def split: option.splits)
  moreover have "world_ok w'"
    using eff inv by (auto simp: world_ok_def dest!: bspec)
  ultimately show ?thesis
    using eff assms keys None absent
    by (auto simp: s g events_inv_def update_absent jsmap_keys_def)
next
  case False
  then have "snd (get_or_create_events E ro r n s) = s" by (rule events_unchanged)
  with assms show ?thesis by simp
qed

lemma events_step_ledger:
  assumes "events_inv r s" and "open_duplicates (snd s) \<subseteq> B \<union> tracked_events (fst s)"
  shows "open_duplicates (snd (snd (get_or_create_events E ro r n s)))
    \<subseteq> B \<union> tracked_events (fst (snd (get_or_create_events E ro r n s)))"
proof (cases "map_of (ev_events (fst s)) n = None \<and> r_client r \<noteq> None")
  case True
  then obtain client where cl: "r_client r = Some client" by auto
  obtain ev w where s: "s = (ev, w)" by force
  obtain res ev' w' where g: "get_or_create_events E ro r n (ev, w) = (res, (ev', w'))" by (metis prod_cases3)
  from True s have None: "map_of (ev_events ev) n = None" by simp
  have keys: "map fst (ev_connections ev) = map fst (ev_events ev)"
    using assms s by (simp add: events_inv_def jsmap_keys_def)
  with None have "map_of (ev_connections ev) n = None" by (simp add: map_of_eq_None_iff flip: set_map)
  with events_effect [OF g None cl] assms(2) show ?thesis
    by (auto simp: s g open_duplicates_def tracked_events_def update_absent)
next
  case False
  then have "snd (get_or_create_events E ro r n s) = s" by (rule events_unchanged)
  with assms show ?thesis by simp
qed

interpretation el: connection_ledger "\<lambda>n s. snd (get_or_create_events E ro r n s)" snd
    "\<lambda>s. tracked_events (fst s)" "events_inv r" for E ro r
  by unfold_locales (erule events_step_inv, erule (1) events_step_ledger)

lemma events_step_owns:
  assumes "events_inv r s"
  shows "w_next (snd s) \<le> w_next (snd (snd (get_or_create_events E ro r n s)))
    \<and> released (w_calls (snd (snd (get_or_create_events E ro r n s)))) \<subseteq>
        released (w_calls (snd s)) \<union> tracked_events (fst s) \<union> {i. w_next (snd s) \<le> i}
    \<and> tracked_events (fst (snd (get_or_create_events E ro r n s))) \<subseteq>
        tracked_events (fst s) \<union> {i. w_next (snd s) \<le> i}"
proof (cases "map_of (ev_events (fst s)) n = None \<and> r_client r \<noteq> None")
  case True
  then obtain client where cl: "r_client r = Some client" by auto
  obtain ev w where s: "s = (ev, w)" by force
  obtain res ev' w' where g: "get_or_create_events E ro r n (ev, w) = (res, (ev', w'))" by (metis prod_cases3)
  from True s have None: "map_of (ev_events ev) n = None" by simp
  from events_effect [OF g None cl] show ?thesis
    by (auto simp: s g tracked_events_def dest!: subsetD [OF set_update_subset])
next
  case False
  then have "snd (get_or_create_events E ro r n s) = s" by (rule events_unchanged)
  then show ?thesis by auto
qed

interpretation eo: connection_owner "\<lambda>n s. snd (get_or_create_events E ro r n s)" snd
    "\<lambda>s. tracked_events (fst s)" "events_inv r" for E ro r
  by unfold_locales (use events_step_owns in blast)+

section \<open>Properties\<close>

text \<open>
  There is one stream per queue: once \<open>getOrCreate\<close> has returned an instance for a name, it
  returns that instance after any further openings, with no second connection and no state change.
\<close>

lemma one_stream_per_queue:
  assumes "get_or_create_events E ro r n s = (Returns h, s')"
    and "t = fold (\<lambda>m t. snd (get_or_create_events E ro r m t)) ms s'"
  shows "get_or_create_events E ro r n t = (Returns h, t)"
  unfolding assms(2) by (rule ec.same_instance [OF assms(1)])

text \<open>
  Opening event streams leaks nothing: whatever was asked for, in whatever order, and
  whichever constructors threw, a duplicated connection that is open afterwards either was open
  before or is one the registry hands to the shutdown sequence.
\<close>

lemma event_streams_leak_nothing:
  assumes "world_ok w" and "client_ok r w"
    and "s = fold (\<lambda>n t. snd (get_or_create_events E ro r n t)) ns (new_events_registry, w)"
  shows "open_duplicates (snd s) \<subseteq> open_duplicates w \<union> set (jsmap_values (events_get_connections (fst s)))"
proof -
  have "open_duplicates (snd (new_events_registry, w)) \<subseteq>
      open_duplicates w \<union> tracked_events (fst (new_events_registry, w))" by simp
  from el.ledger_run [OF events_inv_new [OF assms(1,2)] this]
  show ?thesis by (simp add: assms(3) tracked_events_def jsmap_values_def events_get_connections_def)
qed

definition fresh_events :: events_state where
  "fresh_events = (new_events_registry, start_world)"

lemma demo_stream:
  "\<exists>w. get_or_create_events quiet_env demo_ro demo_resolver ''mail'' fresh_events =
     (Returns 2, (\<lparr>ev_events = [(''mail'', 2)], ev_connections = [(''mail'', 1)]\<rparr>, w))"
  by (simp add: get_or_create_events_def fresh_events_def new_events_registry_def duplicate_connection_def
      construct_def quiet_env_def get_client_def demo_resolver_def start_world_def Let_def log_call_def)

end
