(* ===== verification/Flows.thy ===== *)
theory Flows
  imports Connection Contracts
begin

text \<open>
  The flow service (\<open>src/src/server/services/flow.service.ts\<close>): a guarded wrapper of the BullMQ
  \<open>FlowProducer\<close>. The producer exists exactly when flows were enabled at construction.
\<close>

section \<open>State and operations\<close>

record flow_service =
  fl_producer :: "nat option"

type_synonym flow_state = "flow_service \<times> world"

definition flow_options :: "nat \<Rightarrow> string \<Rightarrow> jsval \<Rightarrow> obj" where
  "flow_options client prefix telemetry =
    [(''connection'', Ref client), (''prefix'', Str prefix)]
    @ (if truthy telemetry then [(''telemetry'', telemetry)] else [])"

text \<open>The constructor. A flow producer has no name of its own.\<close>

definition new_flow_service ::
    "env \<Rightarrow> resolver \<Rightarrow> bool \<Rightarrow> string \<Rightarrow> jsval \<Rightarrow> world \<Rightarrow> flow_service outcome \<times> world" where
  "new_flow_service E r enabled prefix telemetry w =
    (if enabled
     then checked (get_client r) w (\<lambda>client.
       andthen (construct E FlowProducerKind [] Undef (flow_options client prefix telemetry) w)
         (\<lambda>h w1. (Returns \<lparr>fl_producer = Some h\<rparr>,
                  attach_default_error_listener FlowProducerKind h ''*'' w1)))
     else (Returns \<lparr>fl_producer = None\<rparr>, w))"

definition require_producer :: "flow_service \<Rightarrow> nat outcome" where
  "require_producer fl =
    (case fl_producer fl of
       None \<Rightarrow> Throws (QueueExn (queue_error_bare FLOW_DISABLED SERVICE_UNAVAILABLE))
     | Some h \<Rightarrow> Returns h)"

text \<open>\<open>return this.requireProducer().m(...)\<close>.\<close>

definition producer_call :: "env \<Rightarrow> string \<Rightarrow> jsval list \<Rightarrow> flow_state \<Rightarrow> jsval outcome \<times> flow_state" where
  "producer_call E m args s =
    checked (require_producer (fst s)) s (\<lambda>h.
      let (res, w) = await E (Invoke h m args) (snd s) in (res, (fst s, w)))"

definition flow_add :: "env \<Rightarrow> jsval \<Rightarrow> flow_state \<Rightarrow> jsval outcome \<times> flow_state" where
  "flow_add E flow s = producer_call E ''add'' [flow] s"

definition flow_add_bulk :: "env \<Rightarrow> jsval list \<Rightarrow> flow_state \<Rightarrow> jsval outcome \<times> flow_state" where
  "flow_add_bulk E flows s = producer_call E ''addBulk'' [Arr flows] s"

definition get_producer :: "flow_state \<Rightarrow> nat outcome \<times> flow_state" where
  "get_producer s = (require_producer (fst s), s)"

text \<open>\<open>close()\<close>: a rejection is dropped, and without a producer nothing happens.\<close>

definition flow_close :: "env \<Rightarrow> flow_service \<Rightarrow> world \<Rightarrow> unit outcome \<times> world" where
  "flow_close E fl w =
    (case fl_producer fl of
       None \<Rightarrow> (Returns (), w)
     | Some h \<Rightarrow> await_each E [Invoke h ''close'' []] w)"

section \<open>The opt-in contract\<close>

datatype flow_op = OpAdd jsval | OpAddBulk "jsval list" | OpGetProducer

fun flow_attempt :: "env \<Rightarrow> flow_op \<Rightarrow> flow_state \<Rightarrow> exn option \<times> flow_state" where
  "flow_attempt E (OpAdd f) s = (let (res, t) = flow_add E f s in (failure res, t))"
| "flow_attempt E (OpAddBulk fs) s = (let (res, t) = flow_add_bulk E fs s in (failure res, t))"
| "flow_attempt E OpGetProducer s = (let (res, t) = get_producer s in (failure res, t))"

lemma producer_call_service: "producer_call E m args s = (res, t) \<Longrightarrow> fst t = fst s"
  by (cases "fl_producer (fst s)")
    (auto simp: producer_call_def require_producer_def Let_def split: prod.splits)

lemma producer_call_off:
  "fl_producer (fst s) = None \<Longrightarrow> producer_call E m args s = (Throws (switched_off FLOW_DISABLED), s)"
  by (simp add: producer_call_def require_producer_def switched_off_def)

lemmas flow_ops = flow_add_def flow_add_bulk_def get_producer_def

interpretation fo: opt_in "\<lambda>s. fl_producer (fst s) \<noteq> None" "flow_attempt E" FLOW_DISABLED for E
proof unfold_locales
  show "flow_attempt E opn s = (Some (switched_off FLOW_DISABLED), s)"
    if "\<not> fl_producer (fst s) \<noteq> None" for s opn
    using that by (cases opn)
      (auto simp: flow_ops producer_call_off require_producer_def switched_off_def)
  show "(fl_producer (fst s') \<noteq> None) = (fl_producer (fst s) \<noteq> None)"
    if "flow_attempt E opn s = (x, s')" for opn s x s'
    using that by (cases opn) (auto simp: flow_ops Let_def split: prod.splits dest: producer_call_service)
qed

section \<open>Properties\<close>

text \<open>
  The producer is there exactly when flows were enabled: switched off, the construction
  succeeds, opens nothing, needs no connection, and from then on every operation, after any
  others, is refused with \<open>FLOW_DISABLED\<close> and status 503 without touching Redis.
\<close>

lemma disabled_flows_are_inert:
  "new_flow_service E r False prefix telemetry w = (Returns \<lparr>fl_producer = None\<rparr>, w)
   \<and> fold (\<lambda>opn t. snd (flow_attempt E opn t)) ops (\<lparr>fl_producer = None\<rparr>, w) = (\<lparr>fl_producer = None\<rparr>, w)
   \<and> flow_attempt E opn (\<lparr>fl_producer = None\<rparr>, w) =
       (Some (QueueExn (queue_error_bare FLOW_DISABLED SERVICE_UNAVAILABLE)), (\<lparr>fl_producer = None\<rparr>, w))"
  using fo.never_moves [of "(\<lparr>fl_producer = None\<rparr>, w)" E ops]
    fo.refused [of "(\<lparr>fl_producer = None\<rparr>, w)" E opn]
  by (simp add: new_flow_service_def switched_off_def)

text \<open>
  Switched on, the producer is built on the shared client with the prefix the workers use,
  carries the fallback error listener, and each operation is exactly one call on it.
\<close>

lemma enabled_flows_use_the_shared_client:
  assumes "new_flow_service E r True prefix telemetry w = (Returns fl, w')" and "r_client r = Some client"
  shows "fl_producer fl = Some (w_next w)
    \<and> w_calls w' = w_calls w @ [Construct FlowProducerKind (w_next w) [] Undef (flow_options client prefix telemetry),
        OnError FlowProducerKind (w_next w) ''*'']
    \<and> w_calls (snd (snd (flow_add E flow (fl, w')))) = w_calls w' @ [Invoke (w_next w) ''add'' [flow]]
    \<and> w_calls (snd (snd (flow_add_bulk E flows (fl, w')))) = w_calls w' @ [Invoke (w_next w) ''addBulk'' [Arr flows]]"
proof -
  obtain k w1 where con: "construct E FlowProducerKind [] Undef (flow_options client prefix telemetry) w = (k, w1)"
    by force
  have call: "w_calls (snd (snd (producer_call E m args (\<lparr>fl_producer = Some h\<rparr>, v)))) = w_calls v @ [Invoke h m args]"
    for m args h v
  proof -
    obtain x v1 where a: "await E (Invoke h m args) v = (x, v1)" by force
    with await_calls [OF a] show ?thesis by (simp add: producer_call_def require_producer_def)
  qed
  from assms con construct_calls [OF con] show ?thesis
    by (cases k) (auto simp: new_flow_service_def get_client_def flow_ops call)
qed

lemma enabled_flows_use_the_shared_client_witness:
  "\<exists>fl w'. new_flow_service quiet_env demo_resolver True ''bull'' Undef start_world = (Returns fl, w')
     \<and> fl_producer fl = Some 1"
proof -
  obtain fl w' where run: "new_flow_service quiet_env demo_resolver True ''bull'' Undef start_world = (Returns fl, w')"
    by (simp add: new_flow_service_def get_client_def demo_resolver_def construct_def quiet_env_def Let_def)
  have "r_client demo_resolver = Some 0" by (simp add: demo_resolver_def)
  from enabled_flows_use_the_shared_client [OF run this] run show ?thesis by (simp add: start_world_def)
qed

text \<open>A failed or absent producer never aborts the shutdown sequence.\<close>

lemma flow_close_never_throws: "flow_close E fl w = (res, w') \<Longrightarrow> \<not> thrown res"
  by (auto simp: flow_close_def simp del: await_each.simps split: option.splits dest: await_each_frame)

end
