(* ===== verification/Lifecycle.thy ===== *)
theory Lifecycle
  imports Queues Workers Events Flows
begin

text \<open>
  The shutdown orchestrator (\<open>src/src/server/lifecycle/queue-lifecycle.service.ts\<close>): two hooks,
  each a fixed sequence of steps that swallow their own failures. The workers are closed one after
  another, each in a race against the drain timer; everything else is awaited without a bound.

  A close that settles at the very millisecond the timer fires counts as too late.
\<close>

section \<open>State\<close>

record lifecycle =
  lc_startedAt :: "nat option"
  lc_forcedWorkers :: nat

type_synonym lifecycle_state = "lifecycle \<times> world"

definition new_lifecycle :: lifecycle where
  "new_lifecycle = \<lparr>lc_startedAt = None, lc_forcedWorkers = 0\<rparr>"

section \<open>Workers\<close>

definition graceful_close :: "nat \<Rightarrow> call" where
  "graceful_close h = Invoke h ''close'' []"

definition forced_close :: "nat \<Rightarrow> call" where
  "forced_close h = Invoke h ''close'' [Boolean True]"

definition advance :: "nat \<Rightarrow> world \<Rightarrow> world" where
  "advance d w = w\<lparr>w_now := w_now w + d\<rparr>"

text \<open>\<open>closeWorkerWithTimeout\<close>: the race of the graceful close and the timer.\<close>

definition close_worker_with_timeout :: "env \<Rightarrow> jsnum \<Rightarrow> nat \<Rightarrow> world \<Rightarrow> unit outcome \<times> world" where
  "close_worker_with_timeout E timeoutMs h w =
    (let t = timer_delay timeoutMs;
         w1 = log_call (graceful_close h) w;
         too_late = (Throws DrainTimeout, advance t w1)
     in case env_settles E (w_calls w) (graceful_close h) of
          Resolves d _ \<Rightarrow> if d < t then (Returns (), advance d w1) else too_late
        | Rejects d x \<Rightarrow> if d < t then (Throws (Foreign x), advance d w1) else too_late
        | NeverSettles \<Rightarrow> too_late)"

definition force_log :: "env \<Rightarrow> string \<Rightarrow> jsnum \<Rightarrow> exn \<Rightarrow> log_line" where
  "force_log E name drainTimeoutMs cause =
    (case cause of
       DrainTimeout \<Rightarrow> DrainExceeded name drainTimeoutMs
     | _ \<Rightarrow> CloseFailed name (describe_exn E cause))"

text \<open>The loop of \<open>closeWorkers\<close>; the forced close is not awaited.\<close>

fun close_workers ::
    "env \<Rightarrow> jsnum \<Rightarrow> (string, nat) jsmap \<Rightarrow> nat \<Rightarrow> world \<Rightarrow> nat outcome \<times> world" where
  "close_workers E drainTimeoutMs [] forced w = (Returns forced, w)"
| "close_workers E drainTimeoutMs ((name, h) # ws) forced w =
     (case close_worker_with_timeout E drainTimeoutMs h w of
        (Returns _, w1) \<Rightarrow> close_workers E drainTimeoutMs ws forced w1
      | (Throws cause, w1) \<Rightarrow>
          close_workers E drainTimeoutMs ws (Suc forced)
            (log_call (forced_close h) (write_log (force_log E name drainTimeoutMs cause) w1))
      | (Hangs, w1) \<Rightarrow> (Hangs, w1))"

section \<open>The other steps\<close>

definition close_queue_events :: "env \<Rightarrow> events_registry \<Rightarrow> world \<Rightarrow> unit outcome \<times> world" where
  "close_queue_events E ev w = await_each E (map graceful_close (jsmap_values (events_get_all ev))) w"

fun hang_up_all :: "env \<Rightarrow> nat list \<Rightarrow> world \<Rightarrow> unit outcome \<times> world" where
  "hang_up_all E [] w = (Returns (), w)"
| "hang_up_all E (c # cs) w = andthen (quit_or_disconnect E c w) (\<lambda>_ w1. hang_up_all E cs w1)"

definition owned_connections :: "worker_registry \<Rightarrow> events_registry \<Rightarrow> nat list" where
  "owned_connections wr ev =
    jsmap_values (worker_get_connections wr) @ jsmap_values (events_get_connections ev)"

definition close_duplicated_connections ::
    "env \<Rightarrow> worker_registry \<Rightarrow> events_registry \<Rightarrow> world \<Rightarrow> unit outcome \<times> world" where
  "close_duplicated_connections E wr ev w = hang_up_all E (owned_connections wr ev) w"

fun drain_each :: "env \<Rightarrow> (string, nat) jsmap \<Rightarrow> world \<Rightarrow> unit outcome \<times> world" where
  "drain_each E [] w = (Returns (), w)"
| "drain_each E ((name, h) # qs) w =
     (case await E (Invoke h ''drain'' []) w of
        (Returns _, w1) \<Rightarrow> drain_each E qs w1
      | (Throws cause, w1) \<Rightarrow> drain_each E qs (write_log (QueueNotDrained name (describe_exn E cause)) w1)
      | (Hangs, w1) \<Rightarrow> (Hangs, w1))"

definition drain_queues_if_requested ::
    "env \<Rightarrow> resolved_options \<Rightarrow> queue_state \<Rightarrow> unit outcome \<times> queue_state" where
  "drain_queues_if_requested E ro s =
    (if \<not> ro_drainOnShutdown ro then (Returns (), s)
     else let (res, w) = drain_each E (get_cached_queues s) (snd s) in (res, (fst s, w)))"

text \<open>\<open>await p.catch(() => undefined)\<close>.\<close>

definition swallow :: "unit outcome \<times> 's \<Rightarrow> unit outcome \<times> 's" where
  "swallow m = (case m of (Throws _, s) \<Rightarrow> (Returns (), s) | r \<Rightarrow> r)"

definition on_world :: "(world \<Rightarrow> unit outcome \<times> world) \<Rightarrow> queue_state \<Rightarrow> unit outcome \<times> queue_state" where
  "on_world f s = (let (res, w) = f (snd s) in (res, (fst s, w)))"

section \<open>The hooks\<close>

definition on_module_destroy ::
    "env \<Rightarrow> resolved_options \<Rightarrow> worker_registry \<Rightarrow> events_registry \<Rightarrow> lifecycle_state
     \<Rightarrow> unit outcome \<times> lifecycle_state" where
  "on_module_destroy E ro wr ev s =
    (let (lc, w) = s; lc1 = lc\<lparr>lc_startedAt := Some (w_now w)\<rparr>
     in case close_workers E (ro_drainTimeoutMs ro) (worker_get_all wr) 0 w of
          (Returns forced, w1) \<Rightarrow>
            (let lc2 = lc1\<lparr>lc_forcedWorkers := forced\<rparr>;
                 (res, w2) = andthen (close_queue_events E ev w1)
                   (\<lambda>_ w3. close_duplicated_connections E wr ev w3)
             in (res, (lc2, w2)))
        | (Throws x, w1) \<Rightarrow> (Throws x, (lc1, w1))
        | (Hangs, w1) \<Rightarrow> (Hangs, (lc1, w1)))"

definition shutdown_line :: "lifecycle \<Rightarrow> world \<Rightarrow> log_line" where
  "shutdown_line lc w = ShutdownComplete (w_now w - opt_default (lc_startedAt lc) (w_now w)) (lc_forcedWorkers lc)"

definition on_application_shutdown ::
    "env \<Rightarrow> resolved_options \<Rightarrow> resolver \<Rightarrow> flow_service \<Rightarrow> lifecycle \<Rightarrow> queue_state
     \<Rightarrow> unit outcome \<times> queue_state" where
  "on_application_shutdown E ro r fl lc s =
    andthen (drain_queues_if_requested E ro s) (\<lambda>_ s1.
    andthen (swallow (on_world (flow_close E fl) s1)) (\<lambda>_ s2.
    andthen (swallow (close_all E s2)) (\<lambda>_ s3.
    andthen (swallow (on_world (teardown E r) s3)) (\<lambda>_ s4.
      (Returns (), (fst s4, write_log (shutdown_line lc (snd s4)) (snd s4)))))))"

section \<open>Workers: what the loop does\<close>

lemma advance_simps [simp]:
  "w_calls (advance d w) = w_calls w" "w_next (advance d w) = w_next w" "w_log (advance d w) = w_log w"
  "w_now (advance d w) = w_now w + d"
  by (simp_all add: advance_def)

text \<open>
  A worker closes in time when its graceful close, asked for after the calls \<open>past\<close>, succeeds before
  the timer fires. The calls of a loop over the workers: each is closed gracefully, and the ones that
  do not close in time, and only those, are closed by force right after; the number counts them.
\<close>

definition closes_in_time :: "env \<Rightarrow> jsnum \<Rightarrow> call list \<Rightarrow> nat \<Rightarrow> bool" where
  "closes_in_time E t past h \<longleftrightarrow>
     (\<exists>d v. env_settles E past (graceful_close h) = Resolves d v \<and> d < timer_delay t)"

inductive drained :: "env \<Rightarrow> jsnum \<Rightarrow> call list \<Rightarrow> nat list \<Rightarrow> nat \<Rightarrow> call list \<Rightarrow> bool" for E t where
  drained_nil: "drained E t past [] 0 []"
| drained_graceful: "closes_in_time E t past h \<Longrightarrow> drained E t (past @ [graceful_close h]) hs k cs \<Longrightarrow>
    drained E t past (h # hs) k (graceful_close h # cs)"
| drained_forced: "\<not> closes_in_time E t past h \<Longrightarrow> drained E t (past @ [graceful_close h, forced_close h]) hs k cs \<Longrightarrow>
    drained E t past (h # hs) (Suc k) (graceful_close h # forced_close h # cs)"

inductive_simps drained_simps: "drained E t past [] k cs" "drained E t past (h # hs) k cs"

lemma graceful_not_forced [simp]: "graceful_close h \<noteq> forced_close h'" "forced_close h' \<noteq> graceful_close h"
  by (simp_all add: graceful_close_def forced_close_def)

text \<open>The number is that of the forced closes, so a drain in which everything closes in time has none.\<close>

lemma drained_counts: "drained E t past hs k cs \<Longrightarrow> k = length (filter (\<lambda>c. \<exists>h. c = forced_close h) cs)"
  by (induction rule: drained.induct) (simp_all, blast)

text \<open>What happens to the workers is determined by the environment.\<close>

lemma drained_unique: "drained E t past hs k cs \<Longrightarrow> drained E t past hs k' cs' \<Longrightarrow> k' = k \<and> cs' = cs"
proof (induction arbitrary: k' cs' rule: drained.induct)
  case (drained_nil past)
  then show ?case by (simp add: drained_simps(1))
next
  case (drained_graceful past h hs k cs)
  with drained_graceful.prems [unfolded drained_simps(2)] show ?case by blast
next
  case (drained_forced past h hs k cs)
  with drained_forced.prems [unfolded drained_simps(2)] show ?case by blast
qed

lemma closes_in_time_iff: "close_worker_with_timeout E t h w = (res, w') \<Longrightarrow> closes_in_time E t (w_calls w) h \<longleftrightarrow> returned res"
  by (auto simp: close_worker_with_timeout_def closes_in_time_def Let_def split: settlement.splits if_splits)

lemma close_worker_bounded:
  "close_worker_with_timeout E t h w = (res, w') \<Longrightarrow>
   res \<noteq> Hangs \<and> w_calls w' = w_calls w @ [graceful_close h] \<and> w_next w' = w_next w \<and> w_log w' = w_log w
   \<and> w_now w \<le> w_now w' \<and> w_now w' \<le> w_now w + timer_delay t"
  by (auto simp: close_worker_with_timeout_def Let_def split: settlement.splits if_splits)

lemma close_workers_drains:
  "\<exists>k w' cs. close_workers E t ws forced w = (Returns (forced + k), w') \<and> w_calls w' = w_calls w @ cs
     \<and> drained E t (w_calls w) (map snd ws) k cs \<and> w_next w' = w_next w \<and> w_now w \<le> w_now w'
     \<and> w_now w' \<le> w_now w + length ws * timer_delay t"
proof (induction ws arbitrary: forced w)
  case Nil
  then show ?case by (auto intro: drained_nil exI [of _ 0])
next
  case (Cons p ws)
  obtain name h where p: "p = (name, h)" by (cases p)
  obtain res w1 where c: "close_worker_with_timeout E t h w = (res, w1)" by force
  note one = close_worker_bounded [OF c] and in_time = closes_in_time_iff [OF c]
  show ?case
  proof (cases res)
    case (Returns u)
    obtain k w' cs where ih: "close_workers E t ws forced w1 = (Returns (forced + k), w')"
      "w_calls w' = w_calls w1 @ cs" "drained E t (w_calls w1) (map snd ws) k cs" "w_next w' = w_next w1" "w_now w1 \<le> w_now w'"
      "w_now w' \<le> w_now w1 + length ws * timer_delay t"
      using Cons.IH by blast
    have "close_workers E t (p # ws) forced w = (Returns (forced + k), w')" using c Returns ih(1) p by simp
    moreover have "w_calls w' = w_calls w @ (graceful_close h # cs)" using ih(2) one by simp
    moreover have "drained E t (w_calls w) (map snd (p # ws)) k (graceful_close h # cs)"
      using ih(3) p one in_time Returns by (simp add: drained_graceful)
    moreover have "w_next w' = w_next w \<and> w_now w \<le> w_now w' \<and> w_now w' \<le> w_now w + length (p # ws) * timer_delay t"
      using ih(4-6) one by simp
    ultimately show ?thesis by blast
  next
    case (Throws x)
    let ?w2 = "log_call (forced_close h) (write_log (force_log E name t x) w1)"
    obtain k w' cs where ih: "close_workers E t ws (Suc forced) ?w2 = (Returns (Suc forced + k), w')"
      "w_calls w' = w_calls ?w2 @ cs" "drained E t (w_calls ?w2) (map snd ws) k cs" "w_next w' = w_next ?w2" "w_now ?w2 \<le> w_now w'"
      "w_now w' \<le> w_now ?w2 + length ws * timer_delay t"
      using Cons.IH [of "Suc forced" ?w2] by blast
    have "close_workers E t (p # ws) forced w = (Returns (forced + Suc k), w')" using c Throws ih(1) p by simp
    moreover have "w_calls w' = w_calls w @ (graceful_close h # forced_close h # cs)" using ih(2) one by simp
    moreover have "drained E t (w_calls w) (map snd (p # ws)) (Suc k) (graceful_close h # forced_close h # cs)"
      using ih(3) p one in_time Throws by (simp add: drained_forced)
    moreover have "w_next w' = w_next w \<and> w_now w \<le> w_now w' \<and> w_now w' \<le> w_now w + length (p # ws) * timer_delay t"
      using ih(4-6) one by simp
    ultimately show ?thesis by blast
  next
    case Hangs
    with one show ?thesis by simp
  qed
qed

text \<open>
  C8. The drain of the workers always comes to an end, whatever they do (resolve, reject or hang
  for ever): every worker is asked to close gracefully, in registration order; a worker whose close
  succeeds before the timer fires is not touched again, every other one (its close failed, came too
  late or never settled) is closed by force before the next one is looked at, and their number is
  returned; and the whole takes at most the number of workers times the timer's delay.
\<close>

theorem drain_is_bounded_and_counted:
  "\<exists>forced w' cs. close_workers E budget (worker_get_all wr) 0 w = (Returns forced, w')
     \<and> w_calls w' = w_calls w @ cs
     \<and> drained E budget (w_calls w) (jsmap_values (worker_get_all wr)) forced cs
     \<and> forced = length (filter (\<lambda>c. \<exists>h. c = forced_close h) cs)
     \<and> w_now w' \<le> w_now w + length (worker_get_all wr) * timer_delay budget"
  using close_workers_drains [of E budget "worker_get_all wr" 0 w] by (fastforce simp: jsmap_values_def dest: drained_counts)

text \<open>
  A budget beyond the range of a timer passes validation and becomes one millisecond: with an
  infinite budget, one above 2147483647 ms, or \<open>NaN\<close>, a worker that needs a single millisecond to
  finish its job is cut off and force-closed, although the configuration asked for more time.
\<close>

lemma overlong_budget_forces_every_worker:
  assumes "validate_options parse opts = Returns ()"
    and "opts' = opts\<lparr>mo_shutdown := Some \<lparr>sd_drainTimeoutMs = Some budget, sd_drainOnShutdown = None\<rparr>\<rparr>"
    and "budget = NaN \<or> Fin 2147483647 < budget"
    and "env_settles E (w_calls w) (graceful_close h) = Resolves d v" and "1 \<le> d"
  shows "validate_options parse opts' = Returns ()
    \<and> close_worker_with_timeout E (ro_drainTimeoutMs (apply_defaults opts')) h w =
        (Throws DrainTimeout, advance 1 (log_call (graceful_close h) w))"
proof -
  have delay: "timer_delay budget = 1" using assms(3) by (cases budget) (auto simp: max_timer_delay_def)
  have "\<not> budget \<le> Fin 0" using assms(3) by (cases budget) auto
  with assms(1) have "validate_options parse opts' = Returns ()"
    by (auto simp: assms(2) validate_options_def Let_def drain_timeout_of_def cache_ttl_of_def split: if_splits)
  moreover have "ro_drainTimeoutMs (apply_defaults opts') = budget"
    by (simp add: assms(2) apply_defaults_def drain_timeout_of_def)
  ultimately show ?thesis using assms(4,5) delay by (simp add: close_worker_with_timeout_def)
qed

definition slow_env :: env where
  "slow_env = quiet_env\<lparr>env_settles := (\<lambda>_ _. Resolves 5 Undef)\<rparr>"

lemma overlong_budget_forces_every_worker_witness:
  "fst (close_worker_with_timeout slow_env PosInf 3 start_world) = Throws DrainTimeout"
proof -
  have valid: "validate_options (\<lambda>_. Some ([], [])) (url_only ''redis://h'') = Returns ()"
    by (simp add: validate_options_def url_only_def Let_def has_key_def field_def blank_def js_space_def
        is_parseable_url_def candidate_url_def decodable_def drain_timeout_of_def cache_ttl_of_def redis_scheme_def
        ascii_lower_def)
  have "env_settles slow_env (w_calls start_world) (graceful_close 3) = Resolves 5 Undef"
    by (simp add: slow_env_def)
  from overlong_budget_forces_every_worker [OF valid refl _ this, of PosInf]
  show ?thesis by (simp add: apply_defaults_def drain_timeout_of_def)
qed

section \<open>The hooks: what they do\<close>

text \<open>The calls that give connections back: a handshake each, and a hard disconnect if it fails.\<close>

inductive hung_up :: "nat list \<Rightarrow> call list \<Rightarrow> bool" where
  hung_up_nil: "hung_up [] []"
| hung_up_quit: "hung_up cs ds \<Longrightarrow> hung_up (c # cs) (RedisQuit c # ds)"
| hung_up_forced: "hung_up cs ds \<Longrightarrow> hung_up (c # cs) (RedisQuit c # RedisDisconnect c # ds)"

lemma hung_up_releases: "hung_up cs ds \<Longrightarrow> set cs \<subseteq> released ds \<and> duplicates ds = {}"
  by (induction rule: hung_up.induct) auto

lemma hang_up_all_calls:
  "hang_up_all E cs w = (res, w') \<Longrightarrow> \<not> thrown res \<and> w_next w' = w_next w \<and> w_log w' = w_log w \<and>
     (\<exists>ds. w_calls w' = w_calls w @ ds \<and> released ds \<subseteq> set cs \<and> duplicates ds = {}
        \<and> (returned res \<longrightarrow> hung_up cs ds))"
proof (induction cs arbitrary: w)
  case Nil
  then show ?case by (auto intro: hung_up_nil)
next
  case (Cons c cs)
  obtain x w1 where q: "quit_or_disconnect E c w = (x, w1)" by force
  note one = quit_or_disconnect_calls [OF q]
  show ?case
  proof (cases x)
    case (Returns u)
    with Cons.prems q have "hang_up_all E cs w1 = (res, w')" by simp
    from Cons.IH [OF this] obtain ds where ds: "\<not> thrown res" "w_next w' = w_next w1" "w_log w' = w_log w1"
      "w_calls w' = w_calls w1 @ ds" "released ds \<subseteq> set cs" "duplicates ds = {}" "returned res \<longrightarrow> hung_up cs ds"
      by blast
    from one have "w_calls w1 = w_calls w @ [RedisQuit c] \<or> w_calls w1 = w_calls w @ [RedisQuit c, RedisDisconnect c]"
      by simp
    then show ?thesis
    proof
      assume "w_calls w1 = w_calls w @ [RedisQuit c]"
      with ds one show ?thesis
        by (intro conjI exI [of _ "RedisQuit c # ds"]) (auto intro: hung_up_quit)
    next
      assume "w_calls w1 = w_calls w @ [RedisQuit c, RedisDisconnect c]"
      with ds one show ?thesis
        by (intro conjI exI [of _ "RedisQuit c # RedisDisconnect c # ds"]) (auto intro: hung_up_forced)
    qed
  next
    case (Throws e)
    with one show ?thesis by simp
  next
    case Hangs
    with Cons.prems q one show ?thesis by auto
  qed
qed

lemma hang_up_all_settles:
  assumes "\<And>h c. env_settles E h (RedisQuit c) \<noteq> NeverSettles"
  shows "returned (fst (hang_up_all E cs w))"
proof (induction cs arbitrary: w)
  case (Cons c cs)
  obtain x w1 where q: "quit_or_disconnect E c w = (x, w1)" by force
  then have "x = Returns ()" using assms
    by (auto simp: quit_or_disconnect_def await_def Let_def split: settlement.splits)
  with q Cons show ?case by simp
qed simp

text \<open>What \<open>onModuleDestroy\<close> does, on every outcome.\<close>

lemma on_module_destroy_effect:
  assumes "on_module_destroy E ro wr ev (lc, w) = (res, (lc', w'))"
  obtains A B C forced where "w_calls w' = w_calls w @ A @ B @ C"
    and "drained E (ro_drainTimeoutMs ro) (w_calls w) (jsmap_values (worker_get_all wr)) forced A"
    and "lc' = \<lparr>lc_startedAt = Some (w_now w), lc_forcedWorkers = forced\<rparr>"
    and "set B \<subseteq> graceful_close ` set (jsmap_values (events_get_all ev))"
    and "released C \<subseteq> set (owned_connections wr ev)" and "duplicates C = {}"
    and "\<not> thrown res" and "w_next w' = w_next w"
    and "returned res \<longrightarrow> B = map graceful_close (jsmap_values (events_get_all ev))
           \<and> hung_up (owned_connections wr ev) C"
proof -
  obtain forced w1 A where a: "close_workers E (ro_drainTimeoutMs ro) (worker_get_all wr) 0 w = (Returns forced, w1)"
    "w_calls w1 = w_calls w @ A" "drained E (ro_drainTimeoutMs ro) (w_calls w) (jsmap_values (worker_get_all wr)) forced A" "w_next w1 = w_next w"
    using close_workers_drains [of E "ro_drainTimeoutMs ro" "worker_get_all wr" 0 w]
    by (auto simp: jsmap_values_def)
  obtain x w2 where b: "close_queue_events E ev w1 = (x, w2)" by force
  let ?evs = "map graceful_close (jsmap_values (events_get_all ev))"
  obtain k where k: "\<not> thrown x" "w_calls w2 = w_calls w1 @ take k ?evs" "returned x \<longrightarrow> k = length ?evs"
    "w_next w2 = w_next w1"
    using await_each_frame [OF b [unfolded close_queue_events_def]] by auto
  have lc': "lc' = \<lparr>lc_startedAt = Some (w_now w), lc_forcedWorkers = forced\<rparr>"
    using assms a(1) by (auto simp: on_module_destroy_def Let_def split: prod.splits)
  have B: "set (take k ?evs) \<subseteq> graceful_close ` set (jsmap_values (events_get_all ev))"
    using set_take_subset [of k ?evs] by auto
  show thesis
  proof (cases x)
    case (Returns u)
    obtain y w3 where c: "close_duplicated_connections E wr ev w2 = (y, w3)" by force
    note hang = hang_up_all_calls [OF c [unfolded close_duplicated_connections_def]]
    then obtain C where C: "w_calls w3 = w_calls w2 @ C" "released C \<subseteq> set (owned_connections wr ev)"
      "duplicates C = {}" "returned y \<longrightarrow> hung_up (owned_connections wr ev) C" by blast
    have "res = y" "w' = w3" using assms a(1) b Returns c by (auto simp: on_module_destroy_def)
    then show thesis
      using that [of A "take k ?evs" C forced] a k C hang lc' B Returns by auto
  next
    case (Throws e)
    with k show thesis by simp
  next
    case Hangs
    then have "res = Hangs" "w' = w2" using assms a(1) b by (auto simp: on_module_destroy_def)
    then show thesis using that [of A "take k ?evs" "[]" forced] a k lc' B by auto
  qed
qed

lemma module_destroy_returns:
  assumes "\<And>h k. k \<in> set (jsmap_values (events_get_all ev)) \<Longrightarrow> env_settles E h (graceful_close k) \<noteq> NeverSettles"
    and "\<And>h c. env_settles E h (RedisQuit c) \<noteq> NeverSettles"
  obtains lc' w' where "on_module_destroy E ro wr ev (lc, w) = (Returns (), (lc', w'))"
proof -
  obtain forced w1 where a: "close_workers E (ro_drainTimeoutMs ro) (worker_get_all wr) 0 w = (Returns forced, w1)"
    using close_workers_drains [of E "ro_drainTimeoutMs ro" "worker_get_all wr" 0 w] by auto
  have "env_settles E h c \<noteq> NeverSettles"
    if "c \<in> set (map graceful_close (jsmap_values (events_get_all ev)))" for h c
    using that assms(1) by auto
  from await_each_settles [OF this] obtain w2 where b: "close_queue_events E ev w1 = (Returns (), w2)"
    unfolding close_queue_events_def by blast
  have c: "returned (fst (close_duplicated_connections E wr ev w2))"
    unfolding close_duplicated_connections_def by (rule hang_up_all_settles) (rule assms(2))
  obtain res lc' w' where run: "on_module_destroy E ro wr ev (lc, w) = (res, (lc', w'))" by (metis prod_cases3)
  with a b c have "res = Returns ()"
    by (cases res) (auto simp: on_module_destroy_def split: prod.splits)
  with run that show thesis by blast
qed

text \<open>
  C6. Stopping consumption never throws, and when it returns it has done exactly this, in this
  order: every worker drained (the ones that do not close in time forced, and counted), every event stream closed, every connection
  the library opened for either hung up. Since the workers cannot block it, it returns whenever the
  closes of the streams and the handshakes of the connections settle.
\<close>

theorem consumption_stops_in_order:
  assumes "\<And>h k. k \<in> set (jsmap_values (events_get_all ev)) \<Longrightarrow> env_settles E h (graceful_close k) \<noteq> NeverSettles"
    and "\<And>h c. env_settles E h (RedisQuit c) \<noteq> NeverSettles"
  shows "\<exists>w' forced A C. on_module_destroy E ro wr ev (lc, w) =
       (Returns (), (\<lparr>lc_startedAt = Some (w_now w), lc_forcedWorkers = forced\<rparr>, w'))
     \<and> w_calls w' = w_calls w @ A @ map graceful_close (jsmap_values (events_get_all ev)) @ C
     \<and> drained E (ro_drainTimeoutMs ro) (w_calls w) (jsmap_values (worker_get_all wr)) forced A \<and> hung_up (owned_connections wr ev) C"
proof (rule module_destroy_returns [OF assms])
  fix lc' w'
  assume run: "on_module_destroy E ro wr ev (lc, w) = (Returns (), (lc', w'))"
  show ?thesis
  proof (rule on_module_destroy_effect [OF run])
    fix A B C k
    assume "w_calls w' = w_calls w @ A @ B @ C" and "drained E (ro_drainTimeoutMs ro) (w_calls w) (jsmap_values (worker_get_all wr)) k A"
      and "lc' = \<lparr>lc_startedAt = Some (w_now w), lc_forcedWorkers = k\<rparr>"
      and "returned (Returns () :: unit outcome) \<longrightarrow> B = map graceful_close (jsmap_values (events_get_all ev))
           \<and> hung_up (owned_connections wr ev) C"
    then show ?thesis unfolding run by simp blast
  qed
qed

lemma owned_connections_tracked: "set (owned_connections wr ev) = tracked_workers wr \<union> tracked_events ev"
  by (force simp: owned_connections_def jsmap_values_def worker_get_connections_def events_get_connections_def
      tracked_workers_def tracked_events_def)

text \<open>
  Once the hook has returned, every connection either registry tracks has been asked to close.
\<close>

lemma module_destroy_releases:
  assumes "on_module_destroy E ro wr ev (lc, w) = (Returns (), (lc', w'))"
    and "open_duplicates w \<subseteq> tracked_workers wr \<union> tracked_events ev"
  shows "open_duplicates w' = {}"
proof (rule on_module_destroy_effect [OF assms(1)])
  fix A B C forced
  assume calls: "w_calls w' = w_calls w @ A @ B @ C" and A: "drained E (ro_drainTimeoutMs ro) (w_calls w) (jsmap_values (worker_get_all wr)) forced A"
    and B: "set B \<subseteq> graceful_close ` set (jsmap_values (events_get_all ev))" and C: "duplicates C = {}"
    and "returned (Returns () :: unit outcome) \<longrightarrow> B = map graceful_close (jsmap_values (events_get_all ev))
           \<and> hung_up (owned_connections wr ev) C"
  then have "set (owned_connections wr ev) \<subseteq> released C" using hung_up_releases by auto
  then have "tracked_workers wr \<union> tracked_events ev \<subseteq> released C" by (simp add: owned_connections_tracked)
  moreover have "duplicates A = {}" using A by (induction rule: drained.induct) (auto simp: graceful_close_def forced_close_def)
  moreover have "duplicates B = {}" using B by (auto simp: duplicates_def graceful_close_def)
  ultimately show ?thesis using assms(2) calls C by (auto simp: open_duplicates_def)
qed

lemma drain_each_calls:
  "drain_each E qs w = (res, w') \<Longrightarrow> \<not> thrown res \<and> w_next w' = w_next w \<and>
     (\<exists>cs. w_calls w' = w_calls w @ cs \<and> set cs \<subseteq> (\<lambda>h. Invoke h ''drain'' []) ` set (jsmap_values qs)
        \<and> (returned res \<longrightarrow> cs = map (\<lambda>h. Invoke h ''drain'' []) (jsmap_values qs)))"
proof (induction qs arbitrary: w)
  case Nil
  then show ?case by (auto simp: jsmap_values_def)
next
  case (Cons p qs)
  obtain name h where p: "p = (name, h)" by (cases p)
  obtain x w1 where a: "await E (Invoke h ''drain'' []) w = (x, w1)" by force
  note one = await_calls [OF a]
  show ?case
  proof (cases "x = Hangs")
    case True
    with Cons.prems a p one show ?thesis by (auto simp: jsmap_values_def)
  next
    case False
    let ?w2 = "case x of Throws e \<Rightarrow> write_log (QueueNotDrained name (describe_exn E e)) w1 | _ \<Rightarrow> w1"
    from False Cons.prems a p have "drain_each E qs ?w2 = (res, w')" by (cases x) auto
    from Cons.IH [OF this] obtain cs where cs: "\<not> thrown res" "w_next w' = w_next ?w2"
      "w_calls w' = w_calls ?w2 @ cs" "set cs \<subseteq> (\<lambda>h. Invoke h ''drain'' []) ` set (jsmap_values qs)"
      "returned res \<longrightarrow> cs = map (\<lambda>h. Invoke h ''drain'' []) (jsmap_values qs)" by blast
    moreover have "w_calls ?w2 = w_calls w @ [Invoke h ''drain'' []]" "w_next ?w2 = w_next w"
      using one by (cases x; simp)+
    ultimately show ?thesis
      by (intro conjI exI [of _ "Invoke h ''drain'' [] # cs"]) (auto simp: p jsmap_values_def)
  qed
qed

definition drain_calls :: "resolved_options \<Rightarrow> nat list \<Rightarrow> call list" where
  "drain_calls ro hs = (if ro_drainOnShutdown ro then map (\<lambda>h. Invoke h ''drain'' []) hs else [])"

definition flow_calls :: "flow_service \<Rightarrow> call list" where
  "flow_calls fl = (case fl_producer fl of None \<Rightarrow> [] | Some h \<Rightarrow> [graceful_close h])"

text \<open>The connections the resolver gives back: its own one, in Mode B only.\<close>

definition owned_client :: "resolver \<Rightarrow> nat list" where
  "owned_client r = (if is_owned r then (case r_client r of None \<Rightarrow> [] | Some c \<Rightarrow> [c]) else [])"

lemma flow_close_calls:
  "flow_close E fl w = (res, w') \<Longrightarrow> \<not> thrown res \<and> (returned res \<longrightarrow> w_calls w' = w_calls w @ flow_calls fl)"
  by (cases "fl_producer fl") (auto simp: flow_close_def flow_calls_def graceful_close_def simp del: await_each.simps
      dest: await_each_frame)

lemma teardown_calls:
  assumes "teardown E r w = (res, w')"
  shows "\<not> thrown res \<and> (\<exists>T. w_calls w' = w_calls w @ T \<and> hung_up (owned_client r) T)"
proof (cases "owned_client r")
  case Nil
  with assms show ?thesis
    by (auto simp: teardown_def owned_client_def intro: hung_up_nil split: option.splits if_splits)
next
  case (Cons c cs)
  then have "quit_or_disconnect E c w = (res, w')" "owned_client r = [c]"
    using assms by (auto simp: teardown_def owned_client_def split: option.splits if_splits)
  moreover have "hung_up [c] [RedisQuit c]" "hung_up [c] [RedisQuit c, RedisDisconnect c]"
    by (auto intro: hung_up.intros)
  ultimately show ?thesis using quit_or_disconnect_calls [of E c w res w'] by auto
qed

lemma close_all_returns:
  assumes "close_all E (q, w) = (res, (q', w'))"
  shows "\<not> thrown res \<and> (returned res \<longrightarrow> q_cache q' = [] \<and>
     w_calls w' = w_calls w @ map graceful_close (jsmap_values (q_cache q)))"
proof -
  obtain x w1 where a: "await_each E (map graceful_close (jsmap_values (q_cache q))) w = (x, w1)" by force
  note frame = await_each_frame [OF a]
  have eq: "map (\<lambda>h. Invoke h ''close'' []) (jsmap_values (q_cache q)) = map graceful_close (jsmap_values (q_cache q))"
    by (simp add: graceful_close_def)
  show ?thesis using assms a frame by (cases x) (auto simp: close_all_def eq)
qed

text \<open>What the hooks release, on every outcome.\<close>

lemma hung_up_only: "hung_up cs ds \<Longrightarrow> released ds \<subseteq> set cs"
  by (induction rule: hung_up.induct) auto

lemma invokes_release_nothing: "set cs \<subseteq> (\<lambda>h. Invoke h m args) ` S \<Longrightarrow> released cs = {}"
  by (auto simp: released_def dest!: subsetD)

lemma drain_releases_nothing:
  assumes "drain_queues_if_requested E ro (q, w) = (res, (q', w'))"
  shows "released (w_calls w') = released (w_calls w)"
proof (cases "ro_drainOnShutdown ro")
  case True
  obtain x w1 where d: "drain_each E (q_cache q) w = (x, w1)" by force
  with assms True have "w' = w1" by (simp add: drain_queues_if_requested_def get_cached_queues_def)
  moreover obtain cs where "w_calls w1 = w_calls w @ cs"
    "set cs \<subseteq> (\<lambda>h. Invoke h ''drain'' []) ` set (jsmap_values (q_cache q))"
    using drain_each_calls [OF d] by blast
  ultimately show ?thesis using invokes_release_nothing by auto
qed (use assms in \<open>simp add: drain_queues_if_requested_def\<close>)

lemma await_each_releases_nothing:
  assumes "await_each E (map graceful_close hs) w = (res, w')"
  shows "released (w_calls w') = released (w_calls w)"
proof -
  obtain k where "w_calls w' = w_calls w @ take k (map graceful_close hs)"
    using await_each_frame [OF assms] by blast
  moreover have "released (take k (map graceful_close hs)) = {}"
    by (auto simp: released_def graceful_close_def dest!: in_set_takeD)
  ultimately show ?thesis by simp
qed

lemma flow_close_releases_nothing:
  assumes "flow_close E fl w = (res, w')"
  shows "released (w_calls w') = released (w_calls w)"
proof (cases "fl_producer fl")
  case (Some h)
  with assms have "await_each E (map graceful_close [h]) w = (res, w')"
    by (simp add: flow_close_def graceful_close_def)
  then show ?thesis by (rule await_each_releases_nothing)
qed (use assms in \<open>simp add: flow_close_def\<close>)

lemma close_all_releases_nothing:
  assumes "close_all E (q, w) = (res, (q', w'))"
  shows "released (w_calls w') = released (w_calls w)"
proof -
  obtain x w1 where a: "await_each E (map graceful_close (jsmap_values (q_cache q))) w = (x, w1)" by force
  have "map (\<lambda>h. Invoke h ''close'' []) hs = map graceful_close hs" for hs by (simp add: graceful_close_def)
  with assms a have "w' = w1" by (cases x) (auto simp: close_all_def)
  with await_each_releases_nothing [OF a] show ?thesis by simp
qed

lemma teardown_releases:
  assumes "teardown E r w = (res, w')"
  shows "released (w_calls w') \<subseteq> released (w_calls w) \<union> set (owned_client r)"
  using teardown_calls [OF assms] hung_up_only by fastforce

lemma application_shutdown_releases:
  assumes "on_application_shutdown E ro r fl lc (q, w) = (res, (q', w'))"
  shows "released (w_calls w') \<subseteq> released (w_calls w) \<union> set (owned_client r)"
proof -
  obtain a q1 w1 where d: "drain_queues_if_requested E ro (q, w) = (a, (q1, w1))" by (metis prod_cases3)
  obtain b w2 where f: "flow_close E fl w1 = (b, w2)" by force
  obtain c q3 w3 where k: "close_all E (q1, w2) = (c, (q3, w3))" by (metis prod_cases3)
  obtain e w4 where t: "teardown E r w3 = (e, w4)" by force
  note same = drain_releases_nothing [OF d] flow_close_releases_nothing [OF f] close_all_releases_nothing [OF k]
    teardown_releases [OF t]
  show ?thesis
    using assms d f k t same
    by (cases a; cases b; cases c; cases e)
      (auto simp: on_application_shutdown_def swallow_def on_world_def)
qed

lemma module_destroy_releases_owned:
  assumes "on_module_destroy E ro wr ev (lc, w) = (res, (lc', w'))"
  shows "released (w_calls w') \<subseteq> released (w_calls w) \<union> set (owned_connections wr ev)"
proof (rule on_module_destroy_effect [OF assms])
  fix A B C forced
  assume calls: "w_calls w' = w_calls w @ A @ B @ C" and A: "drained E (ro_drainTimeoutMs ro) (w_calls w) (jsmap_values (worker_get_all wr)) forced A"
    and B: "set B \<subseteq> graceful_close ` set (jsmap_values (events_get_all ev))"
    and C: "released C \<subseteq> set (owned_connections wr ev)"
  have "released A = {}" using A
    by (induction rule: drained.induct) (auto simp: graceful_close_def forced_close_def)
  moreover have "released B = {}" using B by (auto simp: released_def graceful_close_def)
  ultimately show ?thesis using calls C by auto
qed

text \<open>
  C7. Releasing the producer side never throws, and when it returns it has done exactly this, in
  this order: the queues drained if asked for, the flow producer closed, every cached queue closed
  and the cache emptied, and the Queue-role connection hung up if the library owns it (and left
  alone if it does not); the last line of the log gives the time since the first hook and the
  number of forced workers.
\<close>

theorem producers_are_released_in_order:
  assumes "on_application_shutdown E ro r fl lc (q, w) = (res, (q', w'))"
  shows "\<not> thrown res \<and> (returned res \<longrightarrow> q_cache q' = [] \<and>
    (\<exists>T l. w_calls w' = w_calls w @ drain_calls ro (jsmap_values (q_cache q)) @ flow_calls fl
          @ map graceful_close (jsmap_values (q_cache q)) @ T
       \<and> hung_up (owned_client r) T
       \<and> w_log w' = l @ [ShutdownComplete (w_now w' - opt_default (lc_startedAt lc) (w_now w')) (lc_forcedWorkers lc)]))"
proof -
  obtain a w1 where d: "drain_queues_if_requested E ro (q, w) = (a, (q, w1))"
    and da: "\<not> thrown a" "returned a \<longrightarrow> w_calls w1 = w_calls w @ drain_calls ro (jsmap_values (q_cache q))"
  proof (cases "ro_drainOnShutdown ro")
    case True
    obtain a w1 where "drain_each E (q_cache q) w = (a, w1)" by force
    with that [of a w1] drain_each_calls [OF this] True show thesis
      by (auto simp: drain_queues_if_requested_def drain_calls_def get_cached_queues_def)
  next
    case False
    with that [of "Returns ()" w] show thesis by (simp add: drain_queues_if_requested_def drain_calls_def)
  qed
  obtain b w2 where f: "flow_close E fl w1 = (b, w2)" by force
  obtain c q3 w3 where k: "close_all E (q, w2) = (c, (q3, w3))" by (metis prod_cases3)
  obtain e w4 where t: "teardown E r w3 = (e, w4)" by force
  note fb = flow_close_calls [OF f] and kc = close_all_returns [OF k] and te = teardown_calls [OF t]
  show ?thesis
    using assms d da f fb k kc t te
    by (cases a; cases b; cases c; cases e)
      (auto simp: on_application_shutdown_def swallow_def on_world_def shutdown_line_def)
qed

section \<open>Sample shutdown\<close>

text \<open>One worker that never lets go of its job, with its connection, and one event stream.\<close>

definition stuck_env :: env where
  "stuck_env = quiet_env\<lparr>env_settles := (\<lambda>_ c. if c = graceful_close 3 then NeverSettles
     else if c = RedisQuit 4 then Rejects 2 (js_error ''gone'') else Resolves 1 Undef)\<rparr>"

definition demo_wr :: worker_registry where
  "demo_wr = \<lparr>wr_entries = [(''mail'', \<lparr>we_worker = 3, we_connection = 4\<rparr>)]\<rparr>"

definition demo_ev :: events_registry where
  "demo_ev = \<lparr>ev_events = [(''mail'', 5)], ev_connections = [(''mail'', 6)]\<rparr>"

definition demo_trace :: world where
  "demo_trace = \<lparr>w_now = 10, w_next = 7, w_calls = [RedisDuplicate 0 4 blocking_override, RedisDuplicate 0 6 blocking_override],
     w_log = []\<rparr>"

lemma stuck_env_simps [simp]:
  "env_settles stuck_env h (graceful_close 3) = NeverSettles"
  "env_settles stuck_env h (graceful_close 5) = Resolves 1 Undef"
  "env_settles stuck_env h (RedisQuit 4) = Rejects 2 (js_error ''gone'')"
  "env_settles stuck_env h (RedisQuit 6) = Resolves 1 Undef"
  "env_settles stuck_env h (RedisQuit c) \<noteq> NeverSettles"
  by (simp_all add: stuck_env_def graceful_close_def)

lemma stuck_forced:
  "drained stuck_env t past [3] forced A \<Longrightarrow> A = [graceful_close 3, forced_close 3] \<and> forced = 1"
  by (simp add: drained_simps closes_in_time_def)

theorem consumption_stops_in_order_witness:
  "\<exists>w' C. on_module_destroy stuck_env demo_ro demo_wr demo_ev (new_lifecycle, demo_trace) =
     (Returns (), (\<lparr>lc_startedAt = Some 10, lc_forcedWorkers = 1\<rparr>, w'))
   \<and> w_calls w' = w_calls demo_trace @ [graceful_close 3, forced_close 3, graceful_close 5] @ C"
proof -
  have "\<exists>w' forced A C. on_module_destroy stuck_env demo_ro demo_wr demo_ev (new_lifecycle, demo_trace) =
       (Returns (), (\<lparr>lc_startedAt = Some (w_now demo_trace), lc_forcedWorkers = forced\<rparr>, w'))
     \<and> w_calls w' = w_calls demo_trace @ A @ map graceful_close (jsmap_values (events_get_all demo_ev)) @ C
     \<and> drained stuck_env (ro_drainTimeoutMs demo_ro) (w_calls demo_trace) (jsmap_values (worker_get_all demo_wr)) forced A
     \<and> hung_up (owned_connections demo_wr demo_ev) C"
  proof (rule consumption_stops_in_order)
    show "env_settles stuck_env h (graceful_close k) \<noteq> NeverSettles"
      if "k \<in> set (jsmap_values (events_get_all demo_ev))" for h k
      using that by (simp add: demo_ev_def events_get_all_def jsmap_values_def)
  qed (rule stuck_env_simps)
  then obtain w' forced A C where run: "on_module_destroy stuck_env demo_ro demo_wr demo_ev (new_lifecycle, demo_trace) =
      (Returns (), (\<lparr>lc_startedAt = Some (w_now demo_trace), lc_forcedWorkers = forced\<rparr>, w'))"
    and calls: "w_calls w' = w_calls demo_trace @ A @ map graceful_close (jsmap_values (events_get_all demo_ev)) @ C"
    and "drained stuck_env (ro_drainTimeoutMs demo_ro) (w_calls demo_trace) (jsmap_values (worker_get_all demo_wr)) forced A"
    by (elim exE conjE) (rule that, assumption+)
  moreover have vals: "jsmap_values (worker_get_all demo_wr) = [3]" "w_now demo_trace = 10"
    "jsmap_values (events_get_all demo_ev) = [5]"
    by (simp_all add: demo_wr_def demo_ev_def worker_get_all_def events_get_all_def jsmap_values_def demo_trace_def)
  ultimately have "A = [graceful_close 3, forced_close 3] \<and> forced = 1" using stuck_forced by simp
  with run calls vals show ?thesis by simp
qed

theorem producers_are_released_in_order_witness:
  "\<exists>res s'. on_application_shutdown refusing_env demo_ro \<lparr>r_client = Some 0, r_mode = Some Mode_B_owned\<rparr>
       \<lparr>fl_producer = Some 2\<rparr> new_lifecycle (\<lparr>q_cache = [(''mail'', 1)]\<rparr>, start_world) = (res, s')
     \<and> \<not> thrown res"
proof -
  obtain res q' w' where run: "on_application_shutdown refusing_env demo_ro \<lparr>r_client = Some 0, r_mode = Some Mode_B_owned\<rparr>
       \<lparr>fl_producer = Some 2\<rparr> new_lifecycle (\<lparr>q_cache = [(''mail'', 1)]\<rparr>, start_world) = (res, (q', w'))"
    by (metis prod_cases3)
  from producers_are_released_in_order [OF run] run show ?thesis by blast
qed

end
