(* ===== verification/Decorators.thy ===== *)
theory Decorators
  imports Workers
begin

text \<open>
  The decorators (\<open>src/src/server/decorators/\<close>) and the metadata they leave on classes
  (\<open>src/src/server/interfaces/processor-metadata.interface.ts\<close>). A class is known by its
  identity, and has a prototype chain: \<open>Reflect.getOwnMetadata\<close> reads what was defined on the class,
  \<open>Reflect.getMetadata\<close> also what was defined on its ancestors. The code uses the first, everywhere.
  Method keys are strings.

  The three method decorators accumulate entries under one key each; the locale
  \<open>accumulator\<close> is what discovery relies on.
\<close>

section \<open>Metadata\<close>

record processor_metadata =
  pm_queueName :: string
  pm_workerOptions :: obj
  pm_warnedNoConcurrency :: bool

record process_handler =
  ph_jobName :: "string option"
  ph_methodKey :: string

record event_listener =
  el_eventName :: string
  el_methodKey :: string

text \<open>The metadata of one class, one field per metadata key; \<open>None\<close> where none was defined.\<close>

record class_metadata =
  cm_processor :: "processor_metadata option"
  cm_handlers :: "process_handler list option"
  cm_worker_listeners :: "event_listener list option"
  cm_queue_listeners :: "event_listener list option"

text \<open>The ancestors of a class, the nearest first, and what was defined on each class.\<close>

record metadata_store =
  ms_ancestors :: "nat \<Rightarrow> nat list"
  ms_own :: "nat \<Rightarrow> class_metadata"

definition no_metadata :: class_metadata where
  "no_metadata = \<lparr>cm_processor = None, cm_handlers = None, cm_worker_listeners = None,
     cm_queue_listeners = None\<rparr>"

text \<open>
  \<open>Reflect.getOwnMetadata\<close>, \<open>Reflect.getMetadata\<close> and \<open>Reflect.defineMetadata\<close>, where a metadata key is a field
  of the record (its selector, its update).
\<close>

definition get_own_metadata :: "(class_metadata \<Rightarrow> 'v option) \<Rightarrow> nat \<Rightarrow> metadata_store \<Rightarrow> 'v option" where
  "get_own_metadata key cls store = key (ms_own store cls)"

definition get_metadata :: "(class_metadata \<Rightarrow> 'v option) \<Rightarrow> nat \<Rightarrow> metadata_store \<Rightarrow> 'v option" where
  "get_metadata key cls store =
    (case List.map_filter (\<lambda>k. get_own_metadata key k store) (cls # ms_ancestors store cls) of
       [] \<Rightarrow> None
     | v # _ \<Rightarrow> Some v)"

definition define_metadata ::
    "(('v option \<Rightarrow> 'v option) \<Rightarrow> class_metadata \<Rightarrow> class_metadata) \<Rightarrow> 'v \<Rightarrow> nat \<Rightarrow> metadata_store \<Rightarrow> metadata_store" where
  "define_metadata key_update v cls store =
    store\<lparr>ms_own := (ms_own store)(cls := key_update (\<lambda>_. Some v) (ms_own store cls))\<rparr>"

section \<open>Decorators\<close>

definition decorate_process :: "process_handler \<Rightarrow> nat \<Rightarrow> metadata_store \<Rightarrow> metadata_store" where
  "decorate_process entry cls store =
    (let existing = opt_default (get_own_metadata cm_handlers cls store) []
     in define_metadata cm_handlers_update (existing @ [entry]) cls store)"

definition process_decorator :: "string option \<Rightarrow> string \<Rightarrow> nat \<Rightarrow> metadata_store \<Rightarrow> metadata_store" where
  "process_decorator jobName propertyKey cls store =
    decorate_process \<lparr>ph_jobName = jobName, ph_methodKey = propertyKey\<rparr> cls store"

definition on_worker_event :: "event_listener \<Rightarrow> nat \<Rightarrow> metadata_store \<Rightarrow> metadata_store" where
  "on_worker_event entry cls store =
    (let existing = opt_default (get_own_metadata cm_worker_listeners cls store) []
     in define_metadata cm_worker_listeners_update (existing @ [entry]) cls store)"

definition on_queue_event :: "event_listener \<Rightarrow> nat \<Rightarrow> metadata_store \<Rightarrow> metadata_store" where
  "on_queue_event entry cls store =
    (let existing = opt_default (get_own_metadata cm_queue_listeners cls store) []
     in define_metadata cm_queue_listeners_update (existing @ [entry]) cls store)"

text \<open>\<open>@Processor(queueName, options)\<close>: the options are spread over the two defaults.\<close>

definition processor_defaults :: obj where
  "processor_defaults = [(''concurrency'', Num DEFAULT_WORKER_CONCURRENCY), (''autorun'', Boolean True)]"

definition processor_decorator :: "string \<Rightarrow> obj option \<Rightarrow> nat \<Rightarrow> metadata_store \<Rightarrow> metadata_store" where
  "processor_decorator queueName options cls store =
    (let concurrencyOmitted = (field (opt_default options []) ''concurrency'' = Undef);
         metadata = \<lparr>pm_queueName = queueName,
           pm_workerOptions = spread processor_defaults (opt_default options []),
           pm_warnedNoConcurrency = concurrencyOmitted\<rparr>
     in define_metadata cm_processor_update metadata cls store)"

section \<open>Reading them back\<close>

definition processor_metadata_of :: "nat \<Rightarrow> metadata_store \<Rightarrow> processor_metadata option" where
  "processor_metadata_of cls store = get_own_metadata cm_processor cls store"

definition handlers_of :: "nat \<Rightarrow> metadata_store \<Rightarrow> process_handler list" where
  "handlers_of cls store = opt_default (get_own_metadata cm_handlers cls store) []"

definition worker_listeners_of :: "nat \<Rightarrow> metadata_store \<Rightarrow> event_listener list" where
  "worker_listeners_of cls store = opt_default (get_own_metadata cm_worker_listeners cls store) []"

definition queue_listeners_of :: "nat \<Rightarrow> metadata_store \<Rightarrow> event_listener list" where
  "queue_listeners_of cls store = opt_default (get_own_metadata cm_queue_listeners cls store) []"

text \<open>The worker options of the metadata, as the registry reads them.\<close>

definition number_field :: "obj \<Rightarrow> string \<Rightarrow> jsnum option" where
  "number_field o1 k = (case field o1 k of Num x \<Rightarrow> Some x | _ \<Rightarrow> None)"

definition boolean_field :: "obj \<Rightarrow> string \<Rightarrow> bool option" where
  "boolean_field o1 k = (case field o1 k of Boolean b \<Rightarrow> Some b | _ \<Rightarrow> None)"

definition limiter_field :: "obj \<Rightarrow> limiter option" where
  "limiter_field o1 = (case field o1 ''limiter'' of
     Obj l \<Rightarrow> (case (number_field l ''max'', number_field l ''duration'') of
        (Some m, Some d) \<Rightarrow> Some \<lparr>lim_max = m, lim_duration = d\<rparr>
      | _ \<Rightarrow> None)
   | _ \<Rightarrow> None)"

definition worker_options_of :: "obj \<Rightarrow> worker_options" where
  "worker_options_of o1 =
    \<lparr>wo_concurrency = number_field o1 ''concurrency'', wo_limiter = limiter_field o1,
     wo_autorun = boolean_field o1 ''autorun'', wo_lockDuration = number_field o1 ''lockDuration'',
     wo_stalledInterval = number_field o1 ''stalledInterval''\<rparr>"

lemmas reads = processor_metadata_of_def handlers_of_def worker_listeners_of_def queue_listeners_of_def get_own_metadata_def
  define_metadata_def

section \<open>Accumulation\<close>

locale accumulator =
  fixes read :: "nat \<Rightarrow> 'store \<Rightarrow> 'e list"
    and add :: "'e \<Rightarrow> nat \<Rightarrow> 'store \<Rightarrow> 'store"
  assumes read_add: "read c (add e c' s) = (if c = c' then read c s @ [e] else read c s)"
begin

lemma read_run:
  "read c (fold (\<lambda>(e, k) s. add e k s) ds s) = read c s @ map fst (filter (\<lambda>(e, k). k = c) ds)"
  by (induction ds arbitrary: s) (auto simp: read_add)

lemma other_classes_untouched:
  "c \<notin> snd ` set ds \<Longrightarrow> read c (fold (\<lambda>(e, k) s. add e k s) ds s) = read c s"
  unfolding read_run by (force simp: filter_empty_conv)

end

interpretation ph: accumulator handlers_of decorate_process
  by unfold_locales (simp add: reads decorate_process_def)

interpretation we: accumulator worker_listeners_of on_worker_event
  by unfold_locales (simp add: reads on_worker_event_def)

interpretation qe: accumulator queue_listeners_of on_queue_event
  by unfold_locales (simp add: reads on_queue_event_def)

text \<open>A decorator of one kind leaves the other kinds alone.\<close>

lemma kinds_independent [simp]:
  "worker_listeners_of c (decorate_process e k s) = worker_listeners_of c s"
  "queue_listeners_of c (decorate_process e k s) = queue_listeners_of c s"
  "handlers_of c (on_worker_event l k s) = handlers_of c s"
  "queue_listeners_of c (on_worker_event l k s) = queue_listeners_of c s"
  "handlers_of c (on_queue_event l k s) = handlers_of c s"
  "worker_listeners_of c (on_queue_event l k s) = worker_listeners_of c s"
  "handlers_of c (processor_decorator n opts k s) = handlers_of c s"
  "worker_listeners_of c (processor_decorator n opts k s) = worker_listeners_of c s"
  "queue_listeners_of c (processor_decorator n opts k s) = queue_listeners_of c s"
  "processor_metadata_of c (decorate_process e k s) = processor_metadata_of c s"
  "processor_metadata_of c (on_worker_event l k s) = processor_metadata_of c s"
  "processor_metadata_of c (on_queue_event l k s) = processor_metadata_of c s"
  by (auto simp: reads decorate_process_def on_worker_event_def on_queue_event_def processor_decorator_def Let_def)

section \<open>Any mixture of decorators\<close>

datatype decoration =
    DProcess "string option" string
  | DOnWorkerEvent string string
  | DOnQueueEvent string string
  | DProcessor string "obj option"

fun decorate :: "nat \<Rightarrow> decoration \<Rightarrow> metadata_store \<Rightarrow> metadata_store" where
  "decorate cls (DProcess jobName key) s = process_decorator jobName key cls s"
| "decorate cls (DOnWorkerEvent ev key) s = on_worker_event \<lparr>el_eventName = ev, el_methodKey = key\<rparr> cls s"
| "decorate cls (DOnQueueEvent ev key) s = on_queue_event \<lparr>el_eventName = ev, el_methodKey = key\<rparr> cls s"
| "decorate cls (DProcessor n opts) s = processor_decorator n opts cls s"

fun process_entry :: "decoration \<Rightarrow> process_handler list" where
  "process_entry (DProcess jobName key) = [\<lparr>ph_jobName = jobName, ph_methodKey = key\<rparr>]"
| "process_entry _ = []"

fun worker_entry_of :: "decoration \<Rightarrow> event_listener list" where
  "worker_entry_of (DOnWorkerEvent ev key) = [\<lparr>el_eventName = ev, el_methodKey = key\<rparr>]"
| "worker_entry_of _ = []"

fun queue_entry_of :: "decoration \<Rightarrow> event_listener list" where
  "queue_entry_of (DOnQueueEvent ev key) = [\<lparr>el_eventName = ev, el_methodKey = key\<rparr>]"
| "queue_entry_of _ = []"

text \<open>The metadata of one \<open>@Processor\<close>: the queue, the options over the two defaults, and whether to warn.\<close>

fun processor_entry_of :: "decoration \<Rightarrow> processor_metadata list" where
  "processor_entry_of (DProcessor n opts) =
     [\<lparr>pm_queueName = n, pm_workerOptions = spread processor_defaults (opt_default opts []),
       pm_warnedNoConcurrency = (field (opt_default opts []) ''concurrency'' = Undef)\<rparr>]"
| "processor_entry_of _ = []"

definition last_of :: "'a list \<Rightarrow> 'a option" where
  "last_of xs = (if xs = [] then None else Some (last xs))"

lemma last_of_append: "last_of (xs @ ys) = (case last_of ys of None \<Rightarrow> last_of xs | Some y \<Rightarrow> Some y)"
  by (simp add: last_of_def)

text \<open>
  A program: classes with their prototype chains, and the decorators in the order they run, each on a class.
\<close>

definition decorated :: "(nat \<Rightarrow> nat list) \<Rightarrow> (nat \<times> decoration) list \<Rightarrow> metadata_store" where
  "decorated ancestors ds =
    fold (\<lambda>(cls, d). decorate cls d) ds \<lparr>ms_ancestors = ancestors, ms_own = (\<lambda>_. no_metadata)\<rparr>"

lemma decorate_reads:
  "handlers_of c (decorate cls d s) = handlers_of c s @ (if cls = c then process_entry d else [])"
  "worker_listeners_of c (decorate cls d s) = worker_listeners_of c s @ (if cls = c then worker_entry_of d else [])"
  "queue_listeners_of c (decorate cls d s) = queue_listeners_of c s @ (if cls = c then queue_entry_of d else [])"
  by (cases d; simp add: process_decorator_def ph.read_add we.read_add qe.read_add)+

lemma processor_decorator_reads:
  "processor_metadata_of c (processor_decorator n opts k s) =
    (if k = c then Some (hd (processor_entry_of (DProcessor n opts))) else processor_metadata_of c s)"
  by (simp add: processor_decorator_def reads Let_def)

lemma decorate_processor_reads:
  "processor_metadata_of c (decorate cls d s) =
    (case last_of (if cls = c then processor_entry_of d else []) of None \<Rightarrow> processor_metadata_of c s | Some m \<Rightarrow> Some m)"
  by (cases d) (simp_all add: process_decorator_def processor_decorator_reads last_of_def)

definition said_by :: "nat \<Rightarrow> (decoration \<Rightarrow> 'e list) \<Rightarrow> (nat \<times> decoration) list \<Rightarrow> 'e list" where
  "said_by c entry ds = concat (map (entry \<circ> snd) (filter (\<lambda>(k, _). k = c) ds))"

lemma said_by_Cons: "said_by c entry ((k, d) # ds) = (if k = c then entry d else []) @ said_by c entry ds"
  by (simp add: said_by_def)

lemma decorate_all_reads:
  "handlers_of c (fold (\<lambda>(cls, d). decorate cls d) ds s) = handlers_of c s @ said_by c process_entry ds
    \<and> worker_listeners_of c (fold (\<lambda>(cls, d). decorate cls d) ds s) = worker_listeners_of c s @ said_by c worker_entry_of ds
    \<and> queue_listeners_of c (fold (\<lambda>(cls, d). decorate cls d) ds s) = queue_listeners_of c s @ said_by c queue_entry_of ds
    \<and> processor_metadata_of c (fold (\<lambda>(cls, d). decorate cls d) ds s) =
        (case last_of (said_by c processor_entry_of ds) of None \<Rightarrow> processor_metadata_of c s | Some m \<Rightarrow> Some m)"
proof (induction ds arbitrary: s)
  case Nil
  then show ?case by (simp add: said_by_def last_of_def)
next
  case (Cons d ds)
  then show ?case
    by (cases d) (simp add: said_by_Cons decorate_reads decorate_processor_reads last_of_append split: option.split)
qed

lemma undecorated [simp]:
  "handlers_of c \<lparr>ms_ancestors = ancestors, ms_own = (\<lambda>_. no_metadata)\<rparr> = []"
  "worker_listeners_of c \<lparr>ms_ancestors = ancestors, ms_own = (\<lambda>_. no_metadata)\<rparr> = []"
  "queue_listeners_of c \<lparr>ms_ancestors = ancestors, ms_own = (\<lambda>_. no_metadata)\<rparr> = []"
  "processor_metadata_of c \<lparr>ms_ancestors = ancestors, ms_own = (\<lambda>_. no_metadata)\<rparr> = None"
  by (simp_all add: reads no_metadata_def)

text \<open>
  C24. The metadata of a class is what its own decorators said, whatever its prototype chain, however the
  decorators of other classes (its ancestors and its subclasses included) come in between and however
  the kinds are mixed: its handlers and its two kinds of listeners in the order their decorators
  ran, and the metadata of its last \<open>@Processor\<close>: its queue, the given options over the defaults, and the
  mark for the warning exactly if the concurrency was left out. A class that was not decorated itself has none.
\<close>

theorem metadata_is_own_and_ordered:
  "handlers_of c (decorated ancestors ds) = said_by c process_entry ds
   \<and> worker_listeners_of c (decorated ancestors ds) = said_by c worker_entry_of ds
   \<and> queue_listeners_of c (decorated ancestors ds) = said_by c queue_entry_of ds
   \<and> processor_metadata_of c (decorated ancestors ds) = last_of (said_by c processor_entry_of ds)"
  using decorate_all_reads [of c ds "\<lparr>ms_ancestors = ancestors, ms_own = (\<lambda>_. no_metadata)\<rparr>"]
  by (simp add: decorated_def split: option.splits)

text \<open>
  The two ways of reading differ: a subclass of a decorated class that has no decorator itself has no own
  metadata, but the inherited reading would find that of its parent, and accumulate onto it.
\<close>

lemma inherited_metadata_differs:
  assumes "store = decorated (\<lambda>c. if c = 1 then [0] else []) [(0, DProcess None ''send''), (0, DProcessor ''mail'' None)]"
  shows "processor_metadata_of 1 store = None \<and> handlers_of 1 store = []
    \<and> get_metadata cm_processor 1 store = processor_metadata_of 0 store \<and> processor_metadata_of 0 store \<noteq> None
    \<and> get_metadata cm_handlers 1 store = Some [\<lparr>ph_jobName = None, ph_methodKey = ''send''\<rparr>]"
  unfolding assms
  by (simp add: decorated_def process_decorator_def decorate_process_def processor_decorator_def reads get_metadata_def
      no_metadata_def List.map_filter_def Let_def)

text \<open>The concurrency of a processor that leaves it out is the default.\<close>

lemma omitted_concurrency_defaults:
  "\<not> has_key ''concurrency'' (opt_default opts []) \<Longrightarrow>
   wo_concurrency (worker_options_of (spread processor_defaults (opt_default opts []))) =
     Some DEFAULT_WORKER_CONCURRENCY"
  by (simp add: worker_options_of_def number_field_def field_spread_absent)
    (simp add: processor_defaults_def field_def)

end
