(* ===== verification/Discovery.thy ===== *)
theory Discovery
  imports Decorators Events "HOL-Library.Multiset"
begin

text \<open>
  Processor discovery (\<open>src/src/server/services/processor-discovery.service.ts\<close>): at module
  initialization every provider whose class carries processor metadata gets a worker, its
  listeners, and a queue-event stream when it listens to one.

  The listeners are modelled with what surrounds them: an emitter that calls them in turn and that a throw
  stops, and the promises they leave behind, whose rejection ends the process when nobody handles it.

  A provider instance is what discovery observes of it: its class, and which of its properties
  are functions. The dispatcher built for an instance is written \<open>Fn\<close> of the instance's identity.
\<close>

section \<open>Providers\<close>

record instance_view =
  iv_id :: nat
  iv_class :: "nat option"
  iv_class_name :: string
  iv_methods :: "string \<Rightarrow> nat option"

text \<open>
  An object's \<open>constructor\<close> is a class, or (an object without a prototype, a module namespace)
  no object at all: \<open>iv_class\<close> is then \<open>None\<close>, and reading metadata of it throws.
\<close>

datatype provider = NoInstance | Instance instance_view

section \<open>Dispatching\<close>

datatype routed = RunsMethod nat | RejectsWith string

record dispatcher =
  di_named :: "(string, nat) jsmap"
  di_catchAll :: "nat option"

definition bind_handler :: "instance_view \<Rightarrow> process_handler \<Rightarrow> dispatcher \<Rightarrow> dispatcher" where
  "bind_handler inst h di =
    (case iv_methods inst (ph_methodKey h) of
       None \<Rightarrow> di
     | Some fn \<Rightarrow>
       (case ph_jobName h of
          Some jobName \<Rightarrow> di\<lparr>di_named := AList.update jobName fn (di_named di)\<rparr>
        | None \<Rightarrow> di\<lparr>di_catchAll := Some fn\<rparr>))"

definition build_dispatcher :: "instance_view \<Rightarrow> process_handler list \<Rightarrow> dispatcher" where
  "build_dispatcher inst handlers = fold (bind_handler inst) handlers \<lparr>di_named = [], di_catchAll = None\<rparr>"

text \<open>The dash of the message is written as its three UTF-8 bytes.\<close>

definition quoted :: "string \<Rightarrow> string" where
  "quoted s = [CHR 0x22] @ s @ [CHR 0x22]"

definition no_handler_message :: "string \<Rightarrow> string" where
  "no_handler_message name =
    ''No handler registered for job name '' @ quoted name @ '' on queue '' @ [CHR 0xE2, CHR 0x80, CHR 0x94]
    @ '' add a matching @Process('' @ quoted ''name'' @ '') or a catch-all @Process() method.''"

definition dispatch :: "dispatcher \<Rightarrow> string \<Rightarrow> routed" where
  "dispatch di name =
    (case map_of (di_named di) name of
       Some fn \<Rightarrow> RunsMethod fn
     | None \<Rightarrow> (case di_catchAll di of
         Some fn \<Rightarrow> RunsMethod fn
       | None \<Rightarrow> RejectsWith (no_handler_message name)))"

section \<open>Listeners\<close>

text \<open>
  What a listener method of the application does when called: return a value that is no promise,
  throw, or return a promise.
\<close>

datatype listener_run = ReturnsPlain | ThrowsNow caught | ReturnsPromise settlement

record origin =
  og_instance :: instance_view
  og_decorator :: string
  og_eventName :: string
  og_methodKey :: string

definition failure_line :: "origin \<Rightarrow> caught \<Rightarrow> log_line" where
  "failure_line og cause = HandlerFailed (og_decorator og) (og_eventName og) (iv_class_name (og_instance og)) (og_methodKey og)
     (describe_error cause)"

definition report_failure :: "origin \<Rightarrow> caught \<Rightarrow> world \<Rightarrow> world" where
  "report_failure og cause w = write_log (failure_line og cause) w"

text \<open>
  The promises that listeners left behind: each with the origin its rejection is reported for, or
  \<open>None\<close> when nobody handles it. Such a rejection ends the process.
\<close>

record emitter_state =
  es_world :: world
  es_pending :: "(settlement \<times> origin option) list"
  es_crashed :: bool

type_synonym listener = "emitter_state \<Rightarrow> unit outcome \<times> emitter_state"

text \<open>\<open>method.apply(instance, args)\<close>, \<open>Promise.resolve\<close> and \<open>catch\<close>.\<close>

fun apply_method :: "listener_run \<Rightarrow> settlement option outcome" where
  "apply_method ReturnsPlain = Returns None"
| "apply_method (ThrowsNow cause) = Throws (Foreign cause)"
| "apply_method (ReturnsPromise p) = Returns (Some p)"

definition promise_resolve :: "settlement option \<Rightarrow> settlement" where
  "promise_resolve v = (case v of None \<Rightarrow> Resolves 0 Undef | Some p \<Rightarrow> p)"

definition leave_promise :: "settlement \<Rightarrow> origin option \<Rightarrow> emitter_state \<Rightarrow> emitter_state" where
  "leave_promise p handler s = s\<lparr>es_pending := es_pending s @ [(p, handler)]\<rparr>"

fun cause_of :: "exn \<Rightarrow> caught" where
  "cause_of (Foreign cause) = cause"
| "cause_of x = js_error []"

text \<open>
  The listener \<open>guardListener\<close> makes of a method, and the method itself as a listener; the run of the
  method is an argument.
\<close>

definition guard_listener :: "origin \<Rightarrow> listener_run \<Rightarrow> listener" where
  "guard_listener og run s =
    (case apply_method run of
       Returns v \<Rightarrow> (Returns (), leave_promise (promise_resolve v) (Some og) s)
     | Throws x \<Rightarrow> (Returns (), s\<lparr>es_world := report_failure og (cause_of x) (es_world s)\<rparr>)
     | Hangs \<Rightarrow> (Hangs, s))"

definition bare_listener :: "listener_run \<Rightarrow> listener" where
  "bare_listener run s =
    (case apply_method run of
       Returns None \<Rightarrow> (Returns (), s)
     | Returns (Some p) \<Rightarrow> (Returns (), leave_promise p None s)
     | Throws x \<Rightarrow> (Throws x, s)
     | Hangs \<Rightarrow> (Hangs, s))"

text \<open>
  An \<open>EventEmitter\<close> calls its listeners one after the other and neither awaits one nor catches its throw, which
  keeps the later ones from running. A promise left behind settles when it may.
\<close>

fun emit :: "listener list \<Rightarrow> listener" where
  "emit [] s = (Returns (), s)"
| "emit (l # ls) s = andthen (l s) (\<lambda>_. emit ls)"

definition settle_promise :: "nat \<Rightarrow> emitter_state \<Rightarrow> emitter_state" where
  "settle_promise i s =
    (if i < length (es_pending s)
     then let s1 = s\<lparr>es_pending := take i (es_pending s) @ drop (Suc i) (es_pending s)\<rparr>
          in (case es_pending s ! i of
                (Resolves d v, handler) \<Rightarrow> s1
              | (Rejects d cause, Some og) \<Rightarrow> s1\<lparr>es_world := report_failure og cause (es_world s)\<rparr>
              | (Rejects d cause, None) \<Rightarrow> s1\<lparr>es_crashed := True\<rparr>
              | (NeverSettles, handler) \<Rightarrow> s)
     else s)"

text \<open>Emissions of the emitters, with what each method does, and settlements, in any order.\<close>

datatype emission = Emit "(origin \<times> listener_run) list" | Settle nat

fun emission_step :: "emission \<Rightarrow> emitter_state \<Rightarrow> unit outcome \<times> emitter_state" where
  "emission_step (Emit runs) s = emit (map (\<lambda>(og, run). guard_listener og run) runs) s"
| "emission_step (Settle i) s = (Returns (), settle_promise i s)"

definition emissions :: "emission list \<Rightarrow> emitter_state \<Rightarrow> emitter_state" where
  "emissions es s = fold (\<lambda>e t. snd (emission_step e t)) es s"

definition bind_listener :: "instance_view \<Rightarrow> string \<Rightarrow> nat \<Rightarrow> event_listener \<Rightarrow> world \<Rightarrow> world" where
  "bind_listener inst dec emitter l w =
    (case iv_methods inst (el_methodKey l) of
       None \<Rightarrow> w
     | Some _ \<Rightarrow> log_call (Listen emitter (el_eventName l) dec (el_methodKey l)) w)"

definition bind_listeners :: "instance_view \<Rightarrow> string \<Rightarrow> nat \<Rightarrow> event_listener list \<Rightarrow> world \<Rightarrow> world" where
  "bind_listeners inst dec emitter ls w = fold (bind_listener inst dec emitter) ls w"

section \<open>Wiring\<close>

record discovery_state =
  ds_registered :: "string list"
  ds_workers :: worker_registry
  ds_events :: events_registry
  ds_world :: world

definition warn_concurrency :: "processor_metadata \<Rightarrow> world \<Rightarrow> world" where
  "warn_concurrency meta w =
    (if pm_warnedNoConcurrency meta then write_log (ConcurrencyDefaulted (pm_queueName meta)) w else w)"

definition wire_processor ::
    "env \<Rightarrow> resolved_options \<Rightarrow> resolver \<Rightarrow> metadata_store \<Rightarrow> instance_view \<Rightarrow> nat \<Rightarrow> processor_metadata
     \<Rightarrow> discovery_state \<Rightarrow> unit outcome \<times> discovery_state" where
  "wire_processor E ro r store inst cls meta ds =
    (let queueName = pm_queueName meta
     in if queueName \<in> set (ds_registered ds)
        then (raise_code DUPLICATE_PROCESSOR INTERNAL_SERVER_ERROR [(''queueName'', Str queueName)], ds)
        else
          let ds1 = ds\<lparr>ds_registered := ds_registered ds @ [queueName],
                       ds_world := warn_concurrency meta (ds_world ds)\<rparr>
          in case register E ro r queueName (Fn (iv_id inst)) (Some (worker_options_of (pm_workerOptions meta)))
                    (ds_workers ds1, ds_world ds1) of
               (Throws x, (wr, w)) \<Rightarrow> (Throws x, ds1\<lparr>ds_workers := wr, ds_world := w\<rparr>)
             | (Hangs, (wr, w)) \<Rightarrow> (Hangs, ds1\<lparr>ds_workers := wr, ds_world := w\<rparr>)
             | (Returns worker, (wr, w)) \<Rightarrow>
                 let w1 = bind_listeners inst ''@OnWorkerEvent'' worker (worker_listeners_of cls store) w;
                     ds2 = ds1\<lparr>ds_workers := wr, ds_world := w1\<rparr>;
                     queueListeners = queue_listeners_of cls store
                 in if queueListeners = [] then (Returns (), ds2)
                    else case get_or_create_events E ro r queueName (ds_events ds2, w1) of
                           (Throws x, (ev, w2)) \<Rightarrow> (Throws x, ds2\<lparr>ds_events := ev, ds_world := w2\<rparr>)
                         | (Hangs, (ev, w2)) \<Rightarrow> (Hangs, ds2\<lparr>ds_events := ev, ds_world := w2\<rparr>)
                         | (Returns qe, (ev, w2)) \<Rightarrow>
                             (Returns (), ds2\<lparr>ds_events := ev,
                                ds_world := bind_listeners inst ''@OnQueueEvent'' qe queueListeners w2\<rparr>))"

definition visit_provider ::
    "env \<Rightarrow> resolved_options \<Rightarrow> resolver \<Rightarrow> metadata_store \<Rightarrow> provider \<Rightarrow> discovery_state
     \<Rightarrow> unit outcome \<times> discovery_state" where
  "visit_provider E ro r store p ds =
    (case p of
       NoInstance \<Rightarrow> (Returns (), ds)
     | Instance inst \<Rightarrow>
       (case iv_class inst of
          None \<Rightarrow> (Throws (Foreign (js_error [])), ds)
        | Some cls \<Rightarrow>
          (case processor_metadata_of cls store of
             None \<Rightarrow> (Returns (), ds)
           | Some meta \<Rightarrow> wire_processor E ro r store inst cls meta ds)))"

fun on_module_init ::
    "env \<Rightarrow> resolved_options \<Rightarrow> resolver \<Rightarrow> metadata_store \<Rightarrow> provider list \<Rightarrow> discovery_state
     \<Rightarrow> unit outcome \<times> discovery_state" where
  "on_module_init E ro r store [] ds = (Returns (), ds)"
| "on_module_init E ro r store (p # ps) ds =
     andthen (visit_provider E ro r store p ds) (\<lambda>_ ds1. on_module_init E ro r store ps ds1)"

section \<open>Properties: dispatching\<close>

text \<open>
  The reference: among the handlers whose method exists, the last one declared for the name;
  failing that the last catch-all.
\<close>

definition usable :: "instance_view \<Rightarrow> string option \<Rightarrow> process_handler list \<Rightarrow> nat list" where
  "usable inst jobName handlers =
    List.map_filter (\<lambda>h. if ph_jobName h = jobName then iv_methods inst (ph_methodKey h) else None) handlers"

lemma map_filter_append: "List.map_filter f (xs @ ys) = List.map_filter f xs @ List.map_filter f ys"
  by (simp add: List.map_filter_def)

lemma build_dispatcher_snoc:
  "build_dispatcher inst (hs @ [h]) = bind_handler inst h (build_dispatcher inst hs)"
  by (simp add: build_dispatcher_def)

lemma build_dispatcher_reads:
  "map_of (di_named (build_dispatcher inst hs)) name = last_of (usable inst (Some name) hs)
   \<and> di_catchAll (build_dispatcher inst hs) = last_of (usable inst None hs)"
proof (induction hs rule: rev_induct)
  case Nil
  then show ?case by (simp add: build_dispatcher_def last_of_def usable_def List.map_filter_def)
next
  case (snoc h hs)
  then show ?case
    by (cases "ph_jobName h"; cases "iv_methods inst (ph_methodKey h)")
      (auto simp: build_dispatcher_snoc bind_handler_def usable_def map_filter_append
        List.map_filter_def last_of_def update_conv')
qed

text \<open>
  C13. A job goes to the last handler declared for its name, else to the last catch-all, where
  handlers whose method is missing do not count; without either the job is rejected, and its
  message names it.
\<close>

theorem dispatch_routes_by_name:
  "dispatch (build_dispatcher inst handlers) name =
    (case last_of (usable inst (Some name) handlers) of
       Some fn \<Rightarrow> RunsMethod fn
     | None \<Rightarrow> (case last_of (usable inst None handlers) of
         Some fn \<Rightarrow> RunsMethod fn
       | None \<Rightarrow> RejectsWith (no_handler_message name)))"
  using build_dispatcher_reads [of inst handlers name] by (simp add: dispatch_def split: option.split)

section \<open>Properties: listeners\<close>

text \<open>
  The report a run calls for: none, unless it throws or its promise rejects. The reports still to come
  are those of the promises left behind; the invariant is that reports made and reports to come are together those the runs
  called for, and that nothing is left unhandled.
\<close>

fun report_due :: "origin \<times> listener_run \<Rightarrow> log_line list" where
  "report_due (og, ThrowsNow cause) = [failure_line og cause]"
| "report_due (og, ReturnsPromise (Rejects d cause)) = [failure_line og cause]"
| "report_due _ = []"

fun report_to_come :: "settlement \<times> origin option \<Rightarrow> log_line list" where
  "report_to_come (Rejects d cause, Some og) = [failure_line og cause]"
| "report_to_come _ = []"

fun emitted :: "emission \<Rightarrow> (origin \<times> listener_run) list" where
  "emitted (Emit runs) = runs"
| "emitted (Settle i) = []"

definition to_come :: "emitter_state \<Rightarrow> log_line multiset" where
  "to_come s = mset (concat (map report_to_come (es_pending s)))"

definition reports :: "emitter_state \<Rightarrow> log_line multiset" where
  "reports s = mset (w_log (es_world s)) + to_come s"

definition handled :: "emitter_state \<Rightarrow> bool" where
  "handled s \<longleftrightarrow> \<not> es_crashed s \<and> None \<notin> snd ` set (es_pending s)"

lemma guard_listener_reports:
  assumes "handled s"
  obtains s' where "guard_listener og run s = (Returns (), s')" and "handled s'"
    and "reports s' = reports s + mset (report_due (og, run))" and "w_calls (es_world s') = w_calls (es_world s)"
proof (cases run)
  case (ReturnsPromise p)
  with assms show thesis
    by (intro that [of "leave_promise p (Some og) s"])
      (cases p; auto simp: guard_listener_def promise_resolve_def leave_promise_def handled_def reports_def to_come_def)+
qed (use assms that in \<open>auto simp: guard_listener_def promise_resolve_def leave_promise_def handled_def reports_def
    to_come_def report_failure_def\<close>)

lemma emit_reports:
  "handled s \<Longrightarrow> \<exists>s'. emit (map (\<lambda>(og, run). guard_listener og run) runs) s = (Returns (), s') \<and> handled s'
     \<and> reports s' = reports s + mset (concat (map report_due runs)) \<and> w_calls (es_world s') = w_calls (es_world s)"
proof (induction runs arbitrary: s)
  case (Cons x runs)
  obtain og run where x: "x = (og, run)" by (cases x)
  from guard_listener_reports [OF Cons.prems, of og run] obtain s1 where
    one: "guard_listener og run s = (Returns (), s1)" "handled s1" "reports s1 = reports s + mset (report_due (og, run))"
      "w_calls (es_world s1) = w_calls (es_world s)" by blast
  from Cons.IH [OF one(2)] one x show ?case by (auto simp: union_assoc)
qed simp

lemma mset_concat_middle: "mset (concat (map f (xs @ y # zs))) = mset (f y) + mset (concat (map f (xs @ zs)))"
  by (simp add: union_ac)

lemma mset_concat_remove:
  "i < length xs \<Longrightarrow> mset (concat (map f xs)) = mset (f (xs ! i)) + mset (concat (map f (take i xs @ drop (Suc i) xs)))"
  by (metis id_take_nth_drop mset_concat_middle)

lemma to_come_update [simp]: "to_come (s\<lparr>es_world := w\<rparr>) = to_come s"
  by (simp add: to_come_def)

lemma settle_reports:
  assumes "handled s"
  shows "handled (settle_promise i s) \<and> reports (settle_promise i s) = reports s \<and> w_calls (es_world (settle_promise i s)) = w_calls (es_world s)"
proof (cases "i < length (es_pending s)")
  case True
  define s1 where "s1 = s\<lparr>es_pending := take i (es_pending s) @ drop (Suc i) (es_pending s)\<rparr>"
  obtain p handler where at_i: "es_pending s ! i = (p, handler)" by force
  then have come: "to_come s = mset (report_to_come (p, handler)) + to_come s1"
    using mset_concat_remove [OF True, of report_to_come] by (simp add: to_come_def s1_def)
  have "(p, handler) \<in> set (es_pending s)" using nth_mem [OF True] at_i by simp
  then obtain og where og: "handler = Some og" using assms by (cases handler) (force simp: handled_def)+
  have "set (es_pending s1) \<subseteq> set (es_pending s)" by (auto simp: s1_def dest: in_set_takeD in_set_dropD)
  then have s1: "handled s1" "es_world s1 = es_world s" using assms by (auto simp: handled_def s1_def)
  have run: "settle_promise i s = (case p of Resolves d v \<Rightarrow> s1 | Rejects d x \<Rightarrow> s1\<lparr>es_world := report_failure og x (es_world s)\<rparr> | NeverSettles \<Rightarrow> s)"
    using True at_i og by (simp add: settle_promise_def s1_def Let_def split: settlement.split)
  show ?thesis
  proof (cases p)
    case (Rejects d x)
    then show ?thesis using run s1 come og by (simp add: handled_def reports_def report_failure_def)
  next
    case (Resolves d v)
    then show ?thesis using run s1 come by (simp add: reports_def)
  qed (use run assms in simp)
qed (use assms in \<open>simp add: settle_promise_def\<close>)

lemma emissions_report:
  "handled s \<Longrightarrow> handled (emissions es s)
     \<and> reports (emissions es s) = reports s + mset (concat (map report_due (concat (map emitted es))))
     \<and> w_calls (es_world (emissions es s)) = w_calls (es_world s)"
proof (induction es arbitrary: s)
  case (Cons e es)
  let ?s1 = "snd (emission_step e s)"
  have "handled ?s1 \<and> reports ?s1 = reports s + mset (concat (map report_due (emitted e)))
      \<and> w_calls (es_world ?s1) = w_calls (es_world s)"
  proof (cases e)
    case (Emit runs)
    with emit_reports [OF Cons.prems, of runs] show ?thesis by auto
  next
    case (Settle i)
    with settle_reports [OF Cons.prems] show ?thesis by simp
  qed
  with Cons.IH [of ?s1] show ?case by (simp add: emissions_def union_assoc)
qed (simp add: emissions_def)

definition quiet_emitter :: "world \<Rightarrow> emitter_state" where
  "quiet_emitter w = \<lparr>es_world = w, es_pending = [], es_crashed = False\<rparr>"

text \<open>
  C14. Whatever the guarded listeners of the application do (return, throw, or leave a promise that
  resolves, rejects or never settles), over any sequence of emissions with the promises settling in any order in between:
  the next emission returns normally, so that no listener keeps another from running; no
  rejection goes unhandled, so the process does not end; and what was logged, together with what the
  promises that are still to reject will log, is exactly one line per failure, with the decorator, the event, the
  class, the method and the reason. Nothing else is called.
\<close>

theorem guarded_listener_contains_failures:
  "fst (emission_step e (emissions es (quiet_emitter w))) = Returns ()
   \<and> \<not> es_crashed (emissions es (quiet_emitter w))
   \<and> mset (w_log (es_world (emissions es (quiet_emitter w)))) + to_come (emissions es (quiet_emitter w)) =
       mset (w_log w) + mset (concat (map report_due (concat (map emitted es))))
   \<and> w_calls (es_world (emissions es (quiet_emitter w))) = w_calls w"
proof -
  have "handled (quiet_emitter w)" by (simp add: quiet_emitter_def handled_def)
  note all = emissions_report [OF this, of es]
  then have "fst (emission_step e (emissions es (quiet_emitter w))) = Returns ()"
    using emit_reports [of "emissions es (quiet_emitter w)"] by (cases e) (auto, metis fst_conv)
  with all show ?thesis by (simp add: quiet_emitter_def handled_def reports_def to_come_def)
qed

text \<open>Without the guard a throw stops the emission before the listeners behind it, and a rejection ends the process.\<close>

lemma bare_listeners_escape:
  "emit (bare_listener (ThrowsNow x) # ls) s = (Throws (Foreign x), s)"
  "es_crashed (settle_promise 0 (snd (emit [bare_listener (ReturnsPromise (Rejects d x))] (quiet_emitter w))))"
  by (simp_all add: bare_listener_def leave_promise_def quiet_emitter_def settle_promise_def)

section \<open>Properties: wiring\<close>

text \<open>The processors among the providers, in the order of the scan.\<close>

definition processor_of :: "metadata_store \<Rightarrow> provider \<Rightarrow> (instance_view \<times> nat \<times> processor_metadata) option" where
  "processor_of store p =
    (case p of
       NoInstance \<Rightarrow> None
     | Instance inst \<Rightarrow> (case iv_class inst of
         None \<Rightarrow> None
       | Some cls \<Rightarrow> map_option (\<lambda>meta. (inst, cls, meta)) (processor_metadata_of cls store)))"

definition processors where
  "processors store ps = List.map_filter (processor_of store) ps"

definition listens_to_queue :: "metadata_store \<Rightarrow> instance_view \<times> nat \<times> processor_metadata \<Rightarrow> bool" where
  "listens_to_queue store = (\<lambda>(inst, cls, meta). queue_listeners_of cls store \<noteq> [])"

definition queue_of :: "instance_view \<times> nat \<times> processor_metadata \<Rightarrow> string" where
  "queue_of = (\<lambda>(inst, cls, meta). pm_queueName meta)"

definition warned :: "instance_view \<times> nat \<times> processor_metadata \<Rightarrow> bool" where
  "warned = (\<lambda>(inst, cls, meta). pm_warnedNoConcurrency meta)"

text \<open>The invariant: both registries are sound, and only registered queues have a stream.\<close>

definition discovery_inv :: "resolver \<Rightarrow> discovery_state \<Rightarrow> bool" where
  "discovery_inv r ds \<longleftrightarrow> worker_inv r (ds_workers ds, ds_world ds) \<and> events_inv r (ds_events ds, ds_world ds)
     \<and> set (events_list (ds_events ds)) \<subseteq> set (ds_registered ds)"

lemma bind_listeners_simps:
  "w_next (bind_listeners inst dec em ls w) = w_next w \<and> w_log (bind_listeners inst dec em ls w) = w_log w
   \<and> w_calls (bind_listeners inst dec em ls w) = w_calls w @
      map (\<lambda>l. Listen em (el_eventName l) dec (el_methodKey l))
        (filter (\<lambda>l. iv_methods inst (el_methodKey l) \<noteq> None) ls)"
  unfolding bind_listeners_def
  by (induction ls arbitrary: w) (auto simp: bind_listener_def split: option.splits)

lemma bind_listeners_ok:
  assumes "world_ok w" and "em < w_next w"
  shows "world_ok (bind_listeners inst dec em ls w) \<and> world_grows w (bind_listeners inst dec em ls w)"
  using assms bind_listeners_simps [of inst dec em ls w] by (auto simp: world_ok_def world_grows_def)

lemma warn_concurrency_simps [simp]:
  "w_calls (warn_concurrency m w) = w_calls w" "w_next (warn_concurrency m w) = w_next w"
  "w_log (warn_concurrency m w) = w_log w @ (if pm_warnedNoConcurrency m then [ConcurrencyDefaulted (pm_queueName m)] else [])"
  by (simp_all add: warn_concurrency_def)

lemma warn_concurrency_ok: "world_ok w \<Longrightarrow> world_ok (warn_concurrency m w) \<and> world_grows w (warn_concurrency m w)"
  by (simp add: world_ok_def world_grows_def)

text \<open>The listeners of a class that end up on an emitter.\<close>

definition bound_on :: "world \<Rightarrow> instance_view \<Rightarrow> string \<Rightarrow> event_listener list \<Rightarrow> nat option \<Rightarrow> bool" where
  "bound_on w inst dec ls h \<longleftrightarrow>
     (\<exists>em. h = Some em \<and> (\<forall>l \<in> set ls. iv_methods inst (el_methodKey l) \<noteq> None \<longrightarrow>
        Listen em (el_eventName l) dec (el_methodKey l) \<in> set (w_calls w)))"

definition wired :: "metadata_store \<Rightarrow> discovery_state \<Rightarrow> instance_view \<times> nat \<times> processor_metadata \<Rightarrow> bool" where
  "wired store ds = (\<lambda>(inst, cls, meta).
     bound_on (ds_world ds) inst ''@OnWorkerEvent'' (worker_listeners_of cls store)
       (map_of (worker_get_all (ds_workers ds)) (pm_queueName meta))
   \<and> (queue_listeners_of cls store \<noteq> [] \<longrightarrow>
       bound_on (ds_world ds) inst ''@OnQueueEvent'' (queue_listeners_of cls store)
         (map_of (events_get_all (ds_events ds)) (pm_queueName meta))))"

lemma bound_on_mono: "bound_on w inst dec ls h \<Longrightarrow> world_grows w w' \<Longrightarrow> bound_on w' inst dec ls h"
  using world_grows_calls [of w w'] by (auto simp: bound_on_def)

lemma bound_on_bind: "bound_on (bind_listeners inst dec em ls w) inst dec ls (Some em)"
  using bind_listeners_simps [of inst dec em ls w] by (auto simp: bound_on_def)

lemma worker_get_all_snoc:
  "wr_entries wr' = wr_entries wr @ [(n, e)] \<Longrightarrow> worker_get_all wr' = worker_get_all wr @ [(n, we_worker e)]"
  by (simp add: worker_get_all_def)

lemma worker_list_get_all: "worker_list wr = map fst (worker_get_all wr)"
  by (simp add: worker_list_def worker_get_all_def jsmap_keys_def case_prod_beta comp_def)

text \<open>
  The first half of a wiring: the worker, its warning and its listeners. \<open>mid\<close> is the state
  the second half starts from.
\<close>

definition worker_half where
  "worker_half E ro r store inst cls meta ds mid \<longleftrightarrow>
     (\<exists>h c wr w.
        register E ro r (pm_queueName meta) (Fn (iv_id inst)) (Some (worker_options_of (pm_workerOptions meta)))
          (ds_workers ds, warn_concurrency meta (ds_world ds)) = (Returns h, (wr, w))
      \<and> wr_entries wr = wr_entries (ds_workers ds) @ [(pm_queueName meta, \<lparr>we_worker = h, we_connection = c\<rparr>)]
      \<and> mid = ds\<lparr>ds_registered := ds_registered ds @ [pm_queueName meta], ds_workers := wr,
                ds_world := bind_listeners inst ''@OnWorkerEvent'' h (worker_listeners_of cls store) w\<rparr>)"

lemma wire_processor_halves:
  assumes "wire_processor E ro r store inst cls meta ds = (Returns (), ds')" and "discovery_inv r ds"
  obtains mid where "worker_half E ro r store inst cls meta ds mid"
    and "pm_queueName meta \<notin> set (ds_registered ds)"
    and "queue_listeners_of cls store = [] \<and> ds' = mid \<or>
      queue_listeners_of cls store \<noteq> [] \<and> (\<exists>h ev w.
        get_or_create_events E ro r (pm_queueName meta) (ds_events mid, ds_world mid) = (Returns h, (ev, w))
        \<and> ds' = mid\<lparr>ds_events := ev,
             ds_world := bind_listeners inst ''@OnQueueEvent'' h (queue_listeners_of cls store) w\<rparr>)"
proof -
  let ?reg = "register E ro r (pm_queueName meta) (Fn (iv_id inst))
    (Some (worker_options_of (pm_workerOptions meta))) (ds_workers ds, warn_concurrency meta (ds_world ds))"
  have fresh: "pm_queueName meta \<notin> set (ds_registered ds)"
    using assms(1) by (auto simp: wire_processor_def raise_code_def split: if_splits)
  obtain res wr w where reg: "?reg = (res, (wr, w))" by (metis prod_cases3)
  from assms(1) fresh reg obtain h where h: "res = Returns h"
    by (cases res) (auto simp: wire_processor_def)
  have "world_ok (warn_concurrency meta (ds_world ds))"
    using assms(2) warn_concurrency_ok by (auto simp: discovery_inv_def worker_inv_def)
  with register_started [OF reg [unfolded h]] obtain c where
    "wr_entries wr = wr_entries (ds_workers ds) @ [(pm_queueName meta, \<lparr>we_worker = h, we_connection = c\<rparr>)]"
    by (auto simp: started_def)
  with reg h have "worker_half E ro r store inst cls meta ds
      (ds\<lparr>ds_registered := ds_registered ds @ [pm_queueName meta], ds_workers := wr,
         ds_world := bind_listeners inst ''@OnWorkerEvent'' h (worker_listeners_of cls store) w\<rparr>)"
    by (auto simp: worker_half_def)
  then show thesis
  proof (rule that [OF _ fresh])
    show "queue_listeners_of cls store = [] \<and> ds' = ds\<lparr>ds_registered := ds_registered ds @ [pm_queueName meta],
           ds_workers := wr, ds_world := bind_listeners inst ''@OnWorkerEvent'' h (worker_listeners_of cls store) w\<rparr> \<or>
      queue_listeners_of cls store \<noteq> [] \<and> (\<exists>h' ev w'.
        get_or_create_events E ro r (pm_queueName meta)
          (ds_events (ds\<lparr>ds_registered := ds_registered ds @ [pm_queueName meta],
            ds_workers := wr, ds_world := bind_listeners inst ''@OnWorkerEvent'' h (worker_listeners_of cls store) w\<rparr>),
           ds_world (ds\<lparr>ds_registered := ds_registered ds @ [pm_queueName meta],
            ds_workers := wr, ds_world := bind_listeners inst ''@OnWorkerEvent'' h (worker_listeners_of cls store) w\<rparr>))
          = (Returns h', (ev, w'))
        \<and> ds' = ds\<lparr>ds_registered := ds_registered ds @ [pm_queueName meta], ds_workers := wr,
             ds_world := bind_listeners inst ''@OnWorkerEvent'' h (worker_listeners_of cls store) w\<rparr>\<lparr>ds_events := ev,
             ds_world := bind_listeners inst ''@OnQueueEvent'' h' (queue_listeners_of cls store) w'\<rparr>)"
      using assms(1) fresh reg h
      by (auto simp: wire_processor_def Let_def split: prod.splits result.splits if_splits)
  qed
qed

lemma worker_half_effect:
  assumes "worker_half E ro r store inst cls meta ds mid" and "discovery_inv r ds"
  shows "worker_inv r (ds_workers mid, ds_world mid)" and "events_inv r (ds_events mid, ds_world mid)"
    and "ds_events mid = ds_events ds" and "ds_registered mid = ds_registered ds @ [pm_queueName meta]"
    and "\<exists>h. worker_get_all (ds_workers mid) = worker_get_all (ds_workers ds) @ [(pm_queueName meta, h)]"
    and "world_grows (ds_world ds) (ds_world mid)"
    and "w_log (ds_world mid) = w_log (ds_world ds) @
           (if pm_warnedNoConcurrency meta then [ConcurrencyDefaulted (pm_queueName meta)] else [])"
    and "bound_on (ds_world mid) inst ''@OnWorkerEvent'' (worker_listeners_of cls store)
           (map_of (worker_get_all (ds_workers mid)) (pm_queueName meta))"
proof -
  obtain h c wr w where reg: "register E ro r (pm_queueName meta) (Fn (iv_id inst))
      (Some (worker_options_of (pm_workerOptions meta))) (ds_workers ds, warn_concurrency meta (ds_world ds))
      = (Returns h, (wr, w))"
    and wr: "wr_entries wr = wr_entries (ds_workers ds) @ [(pm_queueName meta, \<lparr>we_worker = h, we_connection = c\<rparr>)]"
    and mid: "mid = ds\<lparr>ds_registered := ds_registered ds @ [pm_queueName meta], ds_workers := wr,
                ds_world := bind_listeners inst ''@OnWorkerEvent'' h (worker_listeners_of cls store) w\<rparr>"
    using assms(1) by (auto simp: worker_half_def)
  let ?w0 = "warn_concurrency meta (ds_world ds)"
  let ?w2 = "bind_listeners inst ''@OnWorkerEvent'' h (worker_listeners_of cls store) w"
  have inv: "worker_inv r (ds_workers ds, ds_world ds)" "events_inv r (ds_events ds, ds_world ds)"
    "world_ok (ds_world ds)"
    using assms(2) by (auto simp: discovery_inv_def worker_inv_def)
  have w0: "worker_inv r (ds_workers ds, ?w0)"
    using worker_inv_mono [OF inv(1)] warn_concurrency_ok [OF inv(3)] by blast
  from register_inv [OF w0, of E ro "pm_queueName meta"] reg have w1: "worker_inv r (wr, w)"
    by (metis snd_conv)
  have ext: "world_grows ?w0 w" "w_log w = w_log ?w0" using register_ext [OF reg] by auto
  from w1 wr have h: "h < w_next w" and ok: "world_ok w" and wf: "jsmap_wf (wr_entries wr)"
    by (auto simp: worker_inv_def entry_ok_def)
  note bind = bind_listeners_ok [OF ok h, of inst "''@OnWorkerEvent''" "worker_listeners_of cls store"]
  have all: "world_grows (ds_world ds) ?w2"
    using warn_concurrency_ok [OF inv(3), of meta] ext(1) bind world_grows_trans by blast
  have get: "worker_get_all wr = worker_get_all (ds_workers ds) @ [(pm_queueName meta, h)]"
    using worker_get_all_snoc [OF wr] by simp
  have "distinct (map fst (worker_get_all wr))"
    using wf by (simp add: jsmap_wf_def worker_list_get_all [symmetric] worker_list_def jsmap_keys_def)
  then have at: "map_of (worker_get_all wr) (pm_queueName meta) = Some h"
    by (rule map_of_is_SomeI) (simp add: get)
  show "worker_inv r (ds_workers mid, ds_world mid)"
    using worker_inv_mono [OF w1] bind by (simp add: mid)
  show "events_inv r (ds_events mid, ds_world mid)"
    using events_inv_mono [OF inv(2) all] bind by (simp add: mid)
  show "ds_events mid = ds_events ds" "ds_registered mid = ds_registered ds @ [pm_queueName meta]"
    by (simp_all add: mid)
  show "\<exists>h. worker_get_all (ds_workers mid) = worker_get_all (ds_workers ds) @ [(pm_queueName meta, h)]"
    using get by (simp add: mid)
  show "world_grows (ds_world ds) (ds_world mid)" using all by (simp add: mid)
  show "w_log (ds_world mid) = w_log (ds_world ds) @
      (if pm_warnedNoConcurrency meta then [ConcurrencyDefaulted (pm_queueName meta)] else [])"
    using ext(2) bind_listeners_simps [of inst "''@OnWorkerEvent''" h "worker_listeners_of cls store" w]
    by (simp add: mid)
  show "bound_on (ds_world mid) inst ''@OnWorkerEvent'' (worker_listeners_of cls store)
      (map_of (worker_get_all (ds_workers mid)) (pm_queueName meta))"
    using at bound_on_bind by (simp add: mid)
qed

text \<open>What a successful wiring adds.\<close>

definition wiring_adds where
  "wiring_adds store p ds ds' \<longleftrightarrow>
     queue_of p \<notin> set (ds_registered ds) \<and> ds_registered ds' = ds_registered ds @ [queue_of p]
   \<and> worker_list (ds_workers ds') = worker_list (ds_workers ds) @ [queue_of p]
   \<and> (\<exists>hs. worker_get_all (ds_workers ds') = worker_get_all (ds_workers ds) @ hs)
   \<and> (\<exists>hs. events_get_all (ds_events ds') = events_get_all (ds_events ds) @ hs
        \<and> map fst hs = (if listens_to_queue store p then [queue_of p] else []))
   \<and> w_log (ds_world ds') = w_log (ds_world ds) @ (if warned p then [ConcurrencyDefaulted (queue_of p)] else [])
   \<and> world_grows (ds_world ds) (ds_world ds') \<and> wired store ds' p"

lemma wire_processor_adds:
  assumes "wire_processor E ro r store inst cls meta ds = (Returns (), ds')" and "discovery_inv r ds"
  shows "discovery_inv r ds' \<and> wiring_adds store (inst, cls, meta) ds ds'"
proof -
  obtain mid where half: "worker_half E ro r store inst cls meta ds mid"
    and fresh: "pm_queueName meta \<notin> set (ds_registered ds)"
    and rest: "queue_listeners_of cls store = [] \<and> ds' = mid \<or>
      queue_listeners_of cls store \<noteq> [] \<and> (\<exists>h ev w.
        get_or_create_events E ro r (pm_queueName meta) (ds_events mid, ds_world mid) = (Returns h, (ev, w))
        \<and> ds' = mid\<lparr>ds_events := ev,
             ds_world := bind_listeners inst ''@OnQueueEvent'' h (queue_listeners_of cls store) w\<rparr>)"
    by (rule wire_processor_halves [OF assms])
  note eff = worker_half_effect [OF half assms(2)]
  have list: "worker_list (ds_workers mid) = worker_list (ds_workers ds) @ [pm_queueName meta]"
    using eff(5) unfolding worker_list_get_all by auto
  have known: "set (events_list (ds_events ds)) \<subseteq> set (ds_registered ds)"
    using assms(2) by (simp add: discovery_inv_def)
  show ?thesis using rest
  proof (elim disjE conjE exE)
    assume "queue_listeners_of cls store = []" and "ds' = mid"
    with eff fresh list known show ?thesis
      by (auto simp: discovery_inv_def wiring_adds_def queue_of_def listens_to_queue_def warned_def wired_def)
  next
    fix h ev w
    let ?w3 = "bind_listeners inst ''@OnQueueEvent'' h (queue_listeners_of cls store) w"
    assume ne: "queue_listeners_of cls store \<noteq> []"
      and goc: "get_or_create_events E ro r (pm_queueName meta) (ds_events mid, ds_world mid) = (Returns h, (ev, w))"
      and ds': "ds' = mid\<lparr>ds_events := ev, ds_world := ?w3\<rparr>"
    have absent: "map_of (ev_events (ds_events mid)) (pm_queueName meta) = None"
      using fresh known eff(3) by (auto simp: map_of_eq_None_iff events_list_def jsmap_keys_def)
    note opened = events_opened [OF goc, unfolded fst_conv, OF absent]
    from events_step_inv [OF eff(2), of E ro "pm_queueName meta"] goc
    have ev_inv: "events_inv r (ev, w)" by simp
    have ext: "world_grows (ds_world mid) w" "w_log w = w_log (ds_world mid)" using events_ext [OF goc] by auto
    have at: "map_of (ev_events ev) (pm_queueName meta) = Some h" using opened absent by (simp add: map_add_def)
    have "OnError QueueEventsKind h (pm_queueName meta) \<in> set (w_calls w)" and ok: "world_ok w"
      using ev_inv map_of_SomeD [OF at] by (auto simp: events_inv_def)
    then have "h < w_next w" by (auto simp: world_ok_def dest!: bspec)
    note bind = bind_listeners_ok [OF ok this, of inst "''@OnQueueEvent''" "queue_listeners_of cls store"]
    note simps = bind_listeners_simps [of inst "''@OnQueueEvent''" h "queue_listeners_of cls store" w]
    have all: "world_grows (ds_world mid) ?w3" using ext(1) bind world_grows_trans by blast
    have "discovery_inv r ds'"
      using worker_inv_mono [OF eff(1) all] events_inv_mono [OF ev_inv] bind known eff(3,4) opened
      by (auto simp: discovery_inv_def ds' events_list_def jsmap_keys_def)
    moreover have "wired store ds' (inst, cls, meta)"
      using bound_on_mono [OF eff(8) all] bound_on_bind at by (auto simp: wired_def ds' events_get_all_def)
    moreover have "world_grows (ds_world ds) ?w3" using eff(6) all world_grows_trans by blast
    ultimately show ?thesis
      using eff fresh list ne opened ext(2) simps
      by (auto simp: wiring_adds_def queue_of_def listens_to_queue_def warned_def ds' events_get_all_def)
  qed
qed

lemma wired_later:
  assumes "wired store ds p" and "world_grows (ds_world ds) (ds_world ds')"
    and "worker_get_all (ds_workers ds') = worker_get_all (ds_workers ds) @ hs"
    and "events_get_all (ds_events ds') = events_get_all (ds_events ds) @ ks"
  shows "wired store ds' p"
proof -
  obtain inst cls meta where p: "p = (inst, cls, meta)" by (cases p)
  have keep: "bound_on (ds_world ds) inst dec ls (map_of xs n) \<Longrightarrow>
      bound_on (ds_world ds') inst dec ls (map_of (xs @ ys) n)" for dec ls xs ys and n :: string
    using world_grows_calls [OF assms(2)] by (fastforce simp: bound_on_def map_add_def)
  from assms(1) show ?thesis unfolding p wired_def assms(3,4) by (auto intro: keep simp del: map_of_append)
qed

lemma visit_provider_cases:
  assumes "visit_provider E ro r store p ds = (Returns (), ds')"
  shows "processor_of store p = None \<and> ds' = ds \<or>
    (\<exists>inst cls meta. processor_of store p = Some (inst, cls, meta)
       \<and> wire_processor E ro r store inst cls meta ds = (Returns (), ds'))"
  using assms by (auto simp: visit_provider_def processor_of_def split: provider.splits option.splits)

definition scan_adds where
  "scan_adds store qs ds ds' \<longleftrightarrow>
     ds_registered ds' = ds_registered ds @ map queue_of qs
   \<and> (distinct (ds_registered ds) \<longrightarrow> distinct (ds_registered ds'))
   \<and> worker_list (ds_workers ds') = worker_list (ds_workers ds) @ map queue_of qs
   \<and> (\<exists>hs. worker_get_all (ds_workers ds') = worker_get_all (ds_workers ds) @ hs)
   \<and> (\<exists>hs. events_get_all (ds_events ds') = events_get_all (ds_events ds) @ hs
        \<and> map fst hs = map queue_of (filter (listens_to_queue store) qs))
   \<and> w_log (ds_world ds') = w_log (ds_world ds) @ map (ConcurrencyDefaulted \<circ> queue_of) (filter warned qs)
   \<and> world_grows (ds_world ds) (ds_world ds') \<and> (\<forall>p \<in> set qs. wired store ds' p)"

lemma scan_adds_Cons:
  assumes "wiring_adds store p ds ds1" and "scan_adds store qs ds1 ds'"
  shows "scan_adds store (p # qs) ds ds'"
proof -
  obtain hs ks where hs: "worker_get_all (ds_workers ds') = worker_get_all (ds_workers ds1) @ hs"
    and ks: "events_get_all (ds_events ds') = events_get_all (ds_events ds1) @ ks"
      "map fst ks = map queue_of (filter (listens_to_queue store) qs)"
    using assms(2) by (auto simp: scan_adds_def)
  have ext: "world_grows (ds_world ds1) (ds_world ds')" "world_grows (ds_world ds) (ds_world ds1)"
    using assms by (auto simp: scan_adds_def wiring_adds_def)
  have "wired store ds1 p" using assms(1) by (simp add: wiring_adds_def)
  from wired_later [OF this ext(1) hs ks(1)] have p: "wired store ds' p" .
  have "\<exists>js. events_get_all (ds_events ds') = events_get_all (ds_events ds) @ js
      \<and> map fst js = map queue_of (filter (listens_to_queue store) (p # qs))"
    using assms(1) ks by (auto simp: wiring_adds_def)
  moreover have "\<exists>js. worker_get_all (ds_workers ds') = worker_get_all (ds_workers ds) @ js"
    using assms(1) hs by (auto simp: wiring_adds_def)
  moreover have "world_grows (ds_world ds) (ds_world ds')" using world_grows_trans [OF ext(2,1)] .
  moreover have "distinct (ds_registered ds) \<longrightarrow> distinct (ds_registered ds')"
  proof
    assume "distinct (ds_registered ds)"
    then have "distinct (ds_registered ds1)" using assms(1) by (simp add: wiring_adds_def)
    then show "distinct (ds_registered ds')" using assms(2) unfolding scan_adds_def by blast
  qed
  ultimately show ?thesis unfolding scan_adds_def
    by (intro conjI) (use assms p in \<open>auto simp: scan_adds_def wiring_adds_def simp del: distinct_append\<close>)
qed

lemma processors_Cons:
  "processors store (p # ps) = (case processor_of store p of None \<Rightarrow> [] | Some q \<Rightarrow> [q]) @ processors store ps"
  by (simp add: processors_def List.map_filter_def split: option.splits)

lemma on_module_init_adds:
  "on_module_init E ro r store ps ds = (Returns (), ds') \<Longrightarrow> discovery_inv r ds \<Longrightarrow>
   discovery_inv r ds' \<and> scan_adds store (processors store ps) ds ds'"
proof (induction ps arbitrary: ds)
  case Nil
  then show ?case by (simp add: scan_adds_def processors_def List.map_filter_def)
next
  case (Cons p ps)
  obtain res ds1 where v: "visit_provider E ro r store p ds = (res, ds1)" by force
  with Cons.prems(1) have "res = Returns ()" and rest: "on_module_init E ro r store ps ds1 = (Returns (), ds')"
    by (cases res; simp)+
  from visit_provider_cases [OF v [unfolded this(1)]] show ?case
  proof (elim disjE conjE exE)
    assume "processor_of store p = None" and "ds1 = ds"
    with Cons.IH [OF rest] Cons.prems(2) show ?thesis by (simp add: processors_Cons)
  next
    fix inst cls meta
    assume p: "processor_of store p = Some (inst, cls, meta)"
      and "wire_processor E ro r store inst cls meta ds = (Returns (), ds1)"
    from wire_processor_adds [OF this(2) Cons.prems(2)] have w: "discovery_inv r ds1"
      "wiring_adds store (inst, cls, meta) ds ds1" by auto
    from Cons.IH [OF rest w(1)] scan_adds_Cons [OF w(2)] p show ?thesis by (simp add: processors_Cons)
  qed
qed

definition fresh_discovery :: "world \<Rightarrow> discovery_state" where
  "fresh_discovery w = \<lparr>ds_registered = [], ds_workers = new_worker_registry,
     ds_events = new_events_registry, ds_world = w\<rparr>"

lemma fresh_discovery_inv: "world_ok w \<Longrightarrow> client_ok r w \<Longrightarrow> discovery_inv r (fresh_discovery w)"
  using events_inv_new [of w r]
  by (simp add: discovery_inv_def fresh_discovery_def worker_inv_def new_worker_registry_def
      new_events_registry_def jsmap_wf_def events_list_def jsmap_keys_def)

text \<open>
  C12. When the scan succeeds, the registry holds exactly one worker per processor, in the order
  of the providers and with pairwise distinct queues; a stream is open for exactly the queues
  whose class has a queue-event listener; exactly the processors that left the concurrency out are
  warned about; and every listener whose method exists is on its emitter.
\<close>

theorem discovery_wires_every_processor:
  assumes "on_module_init E ro r store ps (fresh_discovery w) = (Returns (), ds)"
    and "world_ok w" and "client_ok r w"
  shows "worker_list (ds_workers ds) = map queue_of (processors store ps)
    \<and> distinct (map queue_of (processors store ps))
    \<and> events_list (ds_events ds) = map queue_of (filter (listens_to_queue store) (processors store ps))
    \<and> w_log (ds_world ds) = w_log w @ map (ConcurrencyDefaulted \<circ> queue_of) (filter warned (processors store ps))
    \<and> (\<forall>p \<in> set (processors store ps). wired store ds p)"
  using on_module_init_adds [OF assms(1) fresh_discovery_inv [OF assms(2,3)]]
  by (auto simp: scan_adds_def fresh_discovery_def worker_list_def new_worker_registry_def
      new_events_registry_def events_list_def events_get_all_def jsmap_keys_def)

text \<open>
  One provider without a prototype stops the application: whatever the providers before it, a
  provider that is an object without a \<open>constructor\<close> (an object made with a null prototype, a module
  namespace) ends the scan with a foreign error, although it is no processor, and nothing after it
  is wired.
\<close>

lemma prototype_free_provider_stops_the_scan:
  assumes "on_module_init E ro r store ps1 ds = (Returns (), ds1)" and "iv_class inst = None"
  shows "on_module_init E ro r store (ps1 @ Instance inst # ps2) ds = (Throws (Foreign (js_error [])), ds1)"
  using assms(1)
proof (induction ps1 arbitrary: ds)
  case Nil
  with assms(2) show ?case by (simp add: visit_provider_def)
next
  case (Cons p ps1)
  obtain res ds2 where v: "visit_provider E ro r store p ds = (res, ds2)" by force
  with Cons show ?case by (cases res) auto
qed

text \<open>
  A provider whose class was not decorated itself is skipped, also when an ancestor of its class is a processor: on any
  program, only \<open>@Processor\<close> on the class itself makes it one.
\<close>

lemma undecorated_subclass_is_skipped:
  assumes "iv_class inst = Some c" and "said_by c processor_entry_of ds = []"
  shows "visit_provider E ro r (decorated ancestors ds) (Instance inst) s = (Returns (), s)"
  using assms decorate_all_reads [of c ds] by (simp add: visit_provider_def last_of_def decorated_def)

section \<open>Sample run\<close>

definition mailer :: instance_view where
  "mailer = \<lparr>iv_id = 40, iv_class = Some 50, iv_class_name = ''Mailer'',
     iv_methods = [''send'' \<mapsto> 60, ''done'' \<mapsto> 61]\<rparr>"

definition mailer_store :: metadata_store where
  "mailer_store = decorated (\<lambda>_. []) [(50, DProcess None ''send''), (50, DOnWorkerEvent ''completed'' ''done''),
     (50, DOnQueueEvent ''failed'' ''done''), (50, DProcessor ''mail'' None)]"

lemma mailer_metadata:
  "processor_metadata_of 50 mailer_store = Some \<lparr>pm_queueName = ''mail'', pm_workerOptions = processor_defaults,
     pm_warnedNoConcurrency = True\<rparr>"
  "worker_listeners_of 50 mailer_store = [\<lparr>el_eventName = ''completed'', el_methodKey = ''done''\<rparr>]"
  "queue_listeners_of 50 mailer_store = [\<lparr>el_eventName = ''failed'', el_methodKey = ''done''\<rparr>]"
  by (simp_all add: mailer_store_def decorated_def no_metadata_def processor_decorator_def
      process_decorator_def field_def reads on_worker_event_def on_queue_event_def decorate_process_def)

lemma mailer_wired:
  "\<exists>ds. on_module_init quiet_env demo_ro demo_resolver mailer_store [NoInstance, Instance mailer]
      (fresh_discovery start_world) = (Returns (), ds)"
  by (simp add: visit_provider_def mailer_def mailer_metadata wire_processor_def fresh_discovery_def Let_def
      register_def guard_duplicate_def new_worker_registry_def validate_worker_options_def check_present_def
      worker_options_of_def number_field_def boolean_field_def limiter_field_def processor_defaults_def field_def
      check_concurrency_def DEFAULT_WORKER_CONCURRENCY_def MAX_WORKER_CONCURRENCY_def get_client_def
      demo_resolver_def start_worker_def duplicate_connection_def construct_def
      get_or_create_events_def new_events_registry_def)

theorem discovery_wires_every_processor_witness:
  "\<exists>ds. on_module_init quiet_env demo_ro demo_resolver mailer_store [NoInstance, Instance mailer]
      (fresh_discovery start_world) = (Returns (), ds)
    \<and> worker_list (ds_workers ds) = [''mail''] \<and> events_list (ds_events ds) = [''mail'']
    \<and> w_log (ds_world ds) = [ConcurrencyDefaulted ''mail'']"
proof -
  obtain ds where run: "on_module_init quiet_env demo_ro demo_resolver mailer_store [NoInstance, Instance mailer]
      (fresh_discovery start_world) = (Returns (), ds)"
    using mailer_wired by blast
  have ps: "processors mailer_store [NoInstance, Instance mailer] =
      [(mailer, 50, \<lparr>pm_queueName = ''mail'', pm_workerOptions = processor_defaults, pm_warnedNoConcurrency = True\<rparr>)]"
    by (simp add: processors_def List.map_filter_def processor_of_def mailer_metadata) (simp add: mailer_def mailer_metadata)
  from discovery_wires_every_processor [OF run start_world_ok demo_resolver_ok] run show ?thesis
    by (simp add: ps queue_of_def listens_to_queue_def warned_def mailer_metadata start_world_def)
qed

lemma prototype_free_provider_stops_the_scan_witness:
  "fst (on_module_init quiet_env demo_ro demo_resolver mailer_store
     [NoInstance, Instance (mailer\<lparr>iv_class := None\<rparr>), Instance mailer] (fresh_discovery start_world))
   = Throws (Foreign (js_error []))"
  using prototype_free_provider_stops_the_scan [of quiet_env demo_ro demo_resolver mailer_store "[NoInstance]"
      "fresh_discovery start_world" "fresh_discovery start_world" "mailer\<lparr>iv_class := None\<rparr>" "[Instance mailer]"]
  by (simp add: visit_provider_def)

end
