(* ===== verification/Application.thy ===== *)
theory Application
  imports Lifecycle Discovery Metrics
begin

text \<open>
  The library as a whole: the services of one module instance share one connection and one world.
  Any sequence of operations of any of them is a run of the application.
\<close>

section \<open>State and steps\<close>

record application =
  ap_scan :: discovery_state
  ap_queues :: queue_service
  ap_metrics :: metrics_service
  ap_flow :: flow_service

datatype app_op =
    AppDiscover metadata_store "provider list"
  | AppWorker worker_op
  | AppEvents string
  | AppQueue queue_op
  | AppMetrics "string + string option"
  | AppFlow flow_op

definition on_workers :: "(worker_state \<Rightarrow> worker_state) \<Rightarrow> discovery_state \<Rightarrow> discovery_state" where
  "on_workers f ds = (let (wr, w) = f (ds_workers ds, ds_world ds) in ds\<lparr>ds_workers := wr, ds_world := w\<rparr>)"

definition on_events :: "(events_state \<Rightarrow> events_state) \<Rightarrow> discovery_state \<Rightarrow> discovery_state" where
  "on_events f ds = (let (ev, w) = f (ds_events ds, ds_world ds) in ds\<lparr>ds_events := ev, ds_world := w\<rparr>)"

definition app_world :: "application \<Rightarrow> world" where
  "app_world a = ds_world (ap_scan a)"

definition set_world :: "world \<Rightarrow> application \<Rightarrow> application" where
  "set_world w a = a\<lparr>ap_scan := (ap_scan a)\<lparr>ds_world := w\<rparr>\<rparr>"

fun app_step :: "env \<Rightarrow> resolved_options \<Rightarrow> resolver \<Rightarrow> app_op \<Rightarrow> application \<Rightarrow> application" where
  "app_step E ro r (AppDiscover store ps) a = a\<lparr>ap_scan := snd (on_module_init E ro r store ps (ap_scan a))\<rparr>"
| "app_step E ro r (AppWorker opn) a = a\<lparr>ap_scan := on_workers (worker_step E ro r opn) (ap_scan a)\<rparr>"
| "app_step E ro r (AppEvents n) a =
     a\<lparr>ap_scan := on_events (\<lambda>s. snd (get_or_create_events E ro r n s)) (ap_scan a)\<rparr>"
| "app_step E ro r (AppQueue opn) a =
     (let (q, w) = queue_step E ro r opn (ap_queues a, app_world a) in set_world w (a\<lparr>ap_queues := q\<rparr>))"
| "app_step E ro r (AppMetrics x) a =
     (let (ms, (q, w)) = snd (metrics_attempt E ro r (own_op x) (ap_metrics a, (ap_queues a, app_world a)))
      in set_world w (a\<lparr>ap_queues := q, ap_metrics := ms\<rparr>))"
| "app_step E ro r (AppFlow opn) a =
     (let (fl, w) = snd (flow_attempt E opn (ap_flow a, app_world a)) in set_world w (a\<lparr>ap_flow := fl\<rparr>))"

definition app_run :: "env \<Rightarrow> resolved_options \<Rightarrow> resolver \<Rightarrow> app_op list \<Rightarrow> application \<Rightarrow> application" where
  "app_run E ro r ops a = fold (app_step E ro r) ops a"

text \<open>The application Nest starts with, once the connection is there.\<close>

definition boot :: "resolved_options \<Rightarrow> flow_service \<Rightarrow> world \<Rightarrow> application" where
  "boot ro fl w =
    \<lparr>ap_scan = fresh_discovery w, ap_queues = new_queue_service,
     ap_metrics = new_metrics_service (ro_metrics_enabled ro) (ro_cacheTtlMs ro), ap_flow = fl\<rparr>"

section \<open>Calls that open and release nothing\<close>

definition plain :: "call \<Rightarrow> bool" where
  "plain c \<longleftrightarrow> duplicate_in c = {} \<and> released_in c = {}"

definition plain_after :: "world \<Rightarrow> world \<Rightarrow> bool" where
  "plain_after w w' \<longleftrightarrow> w_next w \<le> w_next w' \<and> (\<exists>cs. w_calls w' = w_calls w @ cs \<and> list_all plain cs)"

lemma plain_calls: "list_all plain cs \<Longrightarrow> duplicates cs = {} \<and> released cs = {}"
  by (induction cs) (auto simp: plain_def)

lemma plain_after_refl [simp]: "plain_after w w"
  by (simp add: plain_after_def)

lemma plain_after_trans: "plain_after w1 w2 \<Longrightarrow> plain_after w2 w3 \<Longrightarrow> plain_after w1 w3"
  by (auto simp: plain_after_def)

lemma plain_after_grows: "plain_after w w' \<Longrightarrow> world_grows w w'"
  by (auto simp: plain_after_def world_grows_def)

lemma plain_after_connections:
  "plain_after w w' \<Longrightarrow> open_duplicates w' = open_duplicates w \<and> released (w_calls w') = released (w_calls w)"
  by (auto simp: plain_after_def open_duplicates_def dest: plain_calls)

section \<open>The connections of the application\<close>

text \<open>
  Both registries are sound, they track every open duplicate, and the shared client \<open>c\<close> is
  neither among the connections they track nor has anything hung it up.
\<close>

definition tracked_by :: "discovery_state \<Rightarrow> nat set" where
  "tracked_by ds = tracked_workers (ds_workers ds) \<union> tracked_events (ds_events ds)"

definition scan_ok :: "resolver \<Rightarrow> nat \<Rightarrow> discovery_state \<Rightarrow> bool" where
  "scan_ok r c ds \<longleftrightarrow> worker_inv r (ds_workers ds, ds_world ds) \<and> events_inv r (ds_events ds, ds_world ds)
     \<and> open_duplicates (ds_world ds) \<subseteq> tracked_by ds
     \<and> c < w_next (ds_world ds) \<and> c \<notin> tracked_by ds \<and> c \<notin> released (w_calls (ds_world ds))"

lemma scan_ok_plain:
  assumes "scan_ok r c ds" and "plain_after (ds_world ds) w" and "world_ok w"
  shows "scan_ok r c (ds\<lparr>ds_world := w\<rparr>)"
  using assms plain_after_connections [OF assms(2)] plain_after_grows [OF assms(2)]
  by (auto simp: scan_ok_def tracked_by_def plain_after_def intro: worker_inv_mono events_inv_mono)

lemma worker_step_grows: "world_grows (snd s) (snd (worker_step E ro r opn s))"
proof (cases opn)
  case (OpRegister n hdl opts)
  obtain res s' where "register E ro r n hdl opts s = (res, s')" by (metis surj_pair)
  with register_ext [OF this] OpRegister show ?thesis by simp
next
  case (OpRegisterSandboxed n f opts t)
  obtain res s' where "register_sandboxed E ro r n f opts t s = (res, s')" by (metis surj_pair)
  with register_sandboxed_ext [OF this] OpRegisterSandboxed show ?thesis by simp
next
  case (OpUnregister n)
  obtain wr w where s: "s = (wr, w)" by force
  obtain res wr' w' where u: "unregister E n (wr, w) = (res, (wr', w'))" by (metis prod_cases3)
  show ?thesis
  proof (cases "map_of (wr_entries wr) n")
    case None
    with u s OpUnregister show ?thesis by (auto simp: unregister_def)
  next
    case (Some e)
    from unregister_effect [OF u Some] OpUnregister show ?thesis by (auto simp: s u world_grows_def)
  qed
qed

lemma scan_ok_workers:
  assumes "scan_ok r c ds"
  shows "scan_ok r c (on_workers (worker_step E ro r opn) ds)"
proof -
  let ?s = "(ds_workers ds, ds_world ds)"
  obtain wr w where t: "worker_step E ro r opn ?s = (wr, w)" by force
  have inv: "worker_inv r ?s" "events_inv r (ds_events ds, ds_world ds)" using assms by (auto simp: scan_ok_def)
  have inv': "worker_inv r (wr, w)" using wl.inv_step [OF inv(1), where opn = opn] t by metis
  have grow: "world_grows (ds_world ds) w" using worker_step_grows [of ?s E ro r opn] t by simp
  have "open_duplicates w \<subseteq> tracked_events (ds_events ds) \<union> tracked_workers wr"
    using wl.ledger_step [OF inv(1), of "tracked_events (ds_events ds)" E ro opn] assms t
    by (auto simp: scan_ok_def tracked_by_def)
  moreover have "c < w_next w \<and> c \<notin> tracked_workers wr"
    using wo.foreign_untracked_step [OF inv(1), of c E ro opn] assms t by (auto simp: scan_ok_def tracked_by_def)
  moreover have "c \<notin> released (w_calls w)"
    using wo.foreign_step [OF inv(1), of c E ro opn] assms t by (auto simp: scan_ok_def tracked_by_def)
  moreover have "events_inv r (ds_events ds, w)"
    using events_inv_mono [OF inv(2) grow] inv' by (simp add: worker_inv_def)
  ultimately show ?thesis using inv' assms t
    by (auto simp: scan_ok_def on_workers_def tracked_by_def)
qed

lemma scan_ok_events:
  assumes "scan_ok r c ds"
  shows "scan_ok r c (on_events (\<lambda>s. snd (get_or_create_events E ro r n s)) ds)"
proof -
  let ?s = "(ds_events ds, ds_world ds)"
  obtain res ev w where t: "get_or_create_events E ro r n ?s = (res, (ev, w))" by (metis prod_cases3)
  have inv: "worker_inv r (ds_workers ds, ds_world ds)" "events_inv r ?s" using assms by (auto simp: scan_ok_def)
  have inv': "events_inv r (ev, w)" using el.inv_step [OF inv(2), where opn = n] t by (metis snd_conv)
  have grow: "world_grows (ds_world ds) w" using events_ext [OF t] by simp
  have "open_duplicates w \<subseteq> tracked_workers (ds_workers ds) \<union> tracked_events ev"
    using el.ledger_step [OF inv(2), of "tracked_workers (ds_workers ds)" E ro n] assms t
    by (auto simp: scan_ok_def tracked_by_def)
  moreover have "c < w_next w \<and> c \<notin> tracked_events ev"
    using eo.foreign_untracked_step [OF inv(2), of c E ro n] assms t by (auto simp: scan_ok_def tracked_by_def)
  moreover have "c \<notin> released (w_calls w)"
    using eo.foreign_step [OF inv(2), of c E ro n] assms t by (auto simp: scan_ok_def tracked_by_def)
  moreover have "worker_inv r (ds_workers ds, w)"
    using worker_inv_mono [OF inv(1) grow] inv' by (simp add: events_inv_def)
  ultimately show ?thesis using inv' assms t
    by (auto simp: scan_ok_def on_events_def tracked_by_def)
qed

lemma scan_ok_registered [simp]: "scan_ok r c (ds\<lparr>ds_registered := q\<rparr>) = scan_ok r c ds"
  by (simp add: scan_ok_def tracked_by_def)

lemma bind_listeners_plain: "plain_after w (bind_listeners inst dec h ls w)"
  using bind_listeners_simps [of inst dec h ls w] by (auto simp: plain_after_def plain_def list_all_iff)

lemma scan_ok_bind:
  assumes "scan_ok r c ds" and "h < w_next (ds_world ds)"
  shows "scan_ok r c (ds\<lparr>ds_world := bind_listeners inst dec h ls (ds_world ds)\<rparr>)"
proof (rule scan_ok_plain [OF assms(1) bind_listeners_plain])
  have "world_ok (ds_world ds)" using assms(1) by (simp add: scan_ok_def worker_inv_def)
  with assms(2) show "world_ok (bind_listeners inst dec h ls (ds_world ds))" by (simp add: bind_listeners_ok)
qed

lemma scan_ok_warn:
  assumes "scan_ok r c ds"
  shows "scan_ok r c (ds\<lparr>ds_world := warn_concurrency meta (ds_world ds)\<rparr>)"
proof (rule scan_ok_plain [OF assms])
  show "plain_after (ds_world ds) (warn_concurrency meta (ds_world ds))" by (simp add: plain_after_def)
  show "world_ok (warn_concurrency meta (ds_world ds))"
    using assms by (simp add: scan_ok_def worker_inv_def warn_concurrency_ok)
qed

lemma scan_ok_queue_events_half:
  assumes "scan_ok r c ds" and "get_or_create_events E ro r n (ds_events ds, ds_world ds) = (res, (ev, w))"
  shows "scan_ok r c (ds\<lparr>ds_events := ev, ds_world := w\<rparr>)"
    and "res = Returns h \<Longrightarrow>
      scan_ok r c (ds\<lparr>ds_events := ev, ds_world := bind_listeners inst dec h ls w\<rparr>)"
proof -
  show ok: "scan_ok r c (ds\<lparr>ds_events := ev, ds_world := w\<rparr>)"
    using scan_ok_events [OF assms(1), of E ro n] assms(2) by (simp add: on_events_def)
  assume "res = Returns h"
  with assms(2) have "map_of (ev_events (fst (ev, w))) n = Some h" using ec.result_cached by metis
  then have "(n, h) \<in> set (ev_events ev)" by (auto dest: map_of_SomeD)
  moreover have "events_inv r (ev, w)" using ok by (simp add: scan_ok_def)
  ultimately have "OnError QueueEventsKind h n \<in> set (w_calls w)" "world_ok w" by (auto simp: events_inv_def)
  then have "h < w_next w" by (auto simp: world_ok_def dest!: bspec)
  with scan_ok_bind [OF ok, of h] show "scan_ok r c (ds\<lparr>ds_events := ev, ds_world := bind_listeners inst dec h ls w\<rparr>)"
    by simp
qed

lemma scan_ok_worker_half:
  assumes "scan_ok r c ds" and "register E ro r n hdl opts (ds_workers ds, ds_world ds) = (res, (wr, w))"
  shows "scan_ok r c (ds\<lparr>ds_workers := wr, ds_world := w\<rparr>)"
    and "res = Returns h \<Longrightarrow>
      scan_ok r c (ds\<lparr>ds_workers := wr, ds_world := bind_listeners inst dec h ls w\<rparr>)"
proof -
  show ok: "scan_ok r c (ds\<lparr>ds_workers := wr, ds_world := w\<rparr>)"
    using scan_ok_workers [OF assms(1), of E ro "OpRegister n hdl opts"] assms(2) by (simp add: on_workers_def)
  assume "res = Returns h"
  moreover have "world_ok (ds_world ds)" using assms(1) by (simp add: scan_ok_def worker_inv_def)
  ultimately have "OnError WorkerKind h n \<in> set (w_calls w)" "world_ok w"
    using register_started [OF assms(2)] ok by (auto simp: started_def scan_ok_def worker_inv_def)
  then have "h < w_next w" by (auto simp: world_ok_def dest!: bspec)
  with scan_ok_bind [OF ok, of h] show "scan_ok r c (ds\<lparr>ds_workers := wr, ds_world := bind_listeners inst dec h ls w\<rparr>)"
    by simp
qed

lemma scan_ok_wire:
  assumes "scan_ok r c ds"
  shows "scan_ok r c (snd (wire_processor E ro r store inst cls meta ds))"
proof (cases "pm_queueName meta \<in> set (ds_registered ds)")
  case True
  with assms show ?thesis by (simp add: wire_processor_def)
next
  case False
  let ?n = "pm_queueName meta"
  let ?ds1 = "ds\<lparr>ds_registered := ds_registered ds @ [?n], ds_world := warn_concurrency meta (ds_world ds)\<rparr>"
  have ok1: "scan_ok r c ?ds1" using scan_ok_warn [of r c "ds\<lparr>ds_registered := ds_registered ds @ [?n]\<rparr>"] assms by simp
  obtain res wr w where reg: "register E ro r ?n (Fn (iv_id inst)) (Some (worker_options_of (pm_workerOptions meta)))
      (ds_workers ?ds1, ds_world ?ds1) = (res, (wr, w))"
    by (metis prod_cases3)
  note half = scan_ok_worker_half [OF ok1 reg]
  show ?thesis
  proof (cases res)
    case (Returns h)
    let ?w1 = "bind_listeners inst ''@OnWorkerEvent'' h (worker_listeners_of cls store) w"
    let ?ds2 = "?ds1\<lparr>ds_workers := wr, ds_world := ?w1\<rparr>"
    have ok2: "scan_ok r c ?ds2" by (rule half(2) [OF Returns])
    obtain x ev w2 where goc: "get_or_create_events E ro r ?n (ds_events ?ds2, ds_world ?ds2) = (x, (ev, w2))"
      by (metis prod_cases3)
    note ev_half = scan_ok_queue_events_half [OF ok2 goc]
    show ?thesis
    proof (cases "queue_listeners_of cls store = []")
      case True
      with False reg Returns ok2 show ?thesis by (simp add: wire_processor_def)
    next
      case ne: False
      show ?thesis
        using False reg Returns ne goc ev_half by (cases x) (auto simp: wire_processor_def)
    qed
  qed (use False reg half(1) in \<open>auto simp: wire_processor_def\<close>)
qed

lemma scan_ok_init: "scan_ok r c ds \<Longrightarrow> scan_ok r c (snd (on_module_init E ro r store ps ds))"
proof (induction ps arbitrary: ds)
  case (Cons p ps)
  obtain res ds1 where v: "visit_provider E ro r store p ds = (res, ds1)" by force
  have "scan_ok r c ds1"
    using v Cons.prems scan_ok_wire [OF Cons.prems, of E ro store]
    by (auto simp: visit_provider_def split: provider.splits option.splits) (metis snd_conv)+
  with Cons.IH v show ?case by (cases res) auto
qed simp

section \<open>Queues, metrics and flows are plain\<close>

lemma get_or_create_queue_plain:
  assumes "get_or_create_queue E ro r n ov s = (res, s')"
  shows "plain_after (snd s) (snd s') \<and> (world_ok (snd s) \<longrightarrow> world_ok (snd s'))
    \<and> (\<forall>h. res = Returns h \<and> queue_inv s \<and> world_ok (snd s) \<longrightarrow> h < w_next (snd s'))"
proof -
  obtain q w where s: "s = (q, w)" by force
  show ?thesis
  proof (cases "map_of (q_cache q) n")
    case (Some h)
    then have "queue_inv s \<longrightarrow> OnError QueueKind h n \<in> set (w_calls w)"
      by (auto simp: queue_inv_def s dest: map_of_SomeD)
    with Some assms s show ?thesis by (auto simp: get_or_create_queue_def world_ok_def dest!: bspec)
  next
    case None
    show ?thesis
    proof (cases rule: get_client_cases [of r])
      case (1 k)
      obtain x w1 where con: "construct E QueueKind n Undef (queue_options ro k ov) w = (x, w1)" by force
      from assms s None 1 con construct_calls [OF con] show ?thesis
        by (cases x) (auto simp: get_or_create_queue_def plain_after_def plain_def world_ok_def less_Suc_eq)
    next
      case 2
      with assms s None show ?thesis by (auto simp: get_or_create_queue_def not_initialized_def raise_code_def)
    qed
  qed
qed

lemma close_calls_plain:
  assumes "queue_inv (q, w)" and "world_ok (snd (q, w))" and "c \<in> set (close_calls q)"
  shows "plain c \<and> (\<forall>i \<in> set (ids_of c). i < w_next w)"
proof -
  from assms(3) obtain n h where c: "c = Invoke h ''close'' []" "(n, h) \<in> set (q_cache q)"
    by (auto simp: close_calls_def jsmap_values_def)
  with assms(1) have "OnError QueueKind h n \<in> set (w_calls w)" by (auto simp: queue_inv_def)
  with assms(2) have "h < w_next w" by (auto simp: world_ok_def dest!: bspec)
  with c show ?thesis by (simp add: plain_def)
qed

lemma queue_effect_plain:
  assumes "queue_effect E ro r s s'" and "queue_inv s" and "world_ok (snd s)"
  shows "plain_after (snd s) (snd s') \<and> world_ok (snd s') \<and> queue_inv s'"
  using assms
proof (induction rule: queue_effect.induct)
  case (call n ov s h q w w' m args)
  note goc = get_or_create_queue_plain [OF call(1)]
  have "plain_after w w'" using call by (simp add: plain_after_def plain_def)
  with goc have "plain_after (snd s) w'" using plain_after_trans by auto
  moreover have "world_ok w'" using goc call by (auto simp: world_ok_def)
  ultimately show ?case
    using queue_inv_effect [OF queue_effect.call [OF call(1-5)] call(6)] by simp
next
  case (lookup n ov s res s')
  from get_or_create_queue_plain [OF lookup(1)] lookup queue_inv_get_or_create [OF lookup(1)] show ?case by simp
next
  case (stuck w' w k q)
  have "\<forall>c \<in> set (take k (close_calls q)). plain c \<and> (\<forall>i \<in> set (ids_of c). i < w_next w)"
    using close_calls_plain [OF stuck(5,6)] by (auto dest: in_set_takeD)
  with stuck queue_inv_effect [OF queue_effect.stuck [OF stuck(1-4)] stuck(5)] show ?case
    by (auto simp: plain_after_def list_all_iff world_ok_def)
next
  case (closed w' w q)
  from close_calls_plain [OF closed(5,6)] closed queue_inv_effect [OF queue_effect.closed [OF closed(1-4)] closed(5)] show ?case
    by (auto simp: plain_after_def list_all_iff world_ok_def)
qed simp

lemma metrics_attempt_effect:
  "queue_effect E ro r (snd t) (snd (snd (metrics_attempt E ro r (own_op x) t)))"
proof (cases x)
  case (Inl n)
  obtain ms s where t: "t = (ms, s)" by (cases t)
  obtain res s' where g: "get_metrics E ro r n s = (res, s')" by (metis surj_pair)
  then have "queue_effect E ro r s s'" using get_metrics_effect [of E ro r s n] by simp
  with g show ?thesis
    by (cases "ms_enabled ms"; cases "cached_metrics (clock s) n ms"; cases res)
      (auto simp: Inl own_op_def t metrics_get_def metrics_get_from_def ensure_enabled_def intro: queue_effect.none)
next
  case (Inr q)
  then show ?thesis by (auto simp: own_op_def Let_def split: prod.splits intro: queue_effect.none)
qed

definition flow_ok :: "flow_service \<Rightarrow> world \<Rightarrow> bool" where
  "flow_ok fl w \<longleftrightarrow> (\<forall>h. fl_producer fl = Some h \<longrightarrow>
     h < w_next w \<and> OnError FlowProducerKind h ''*'' \<in> set (w_calls w))"

lemma producer_call_plain:
  assumes "producer_call E m args s = (res, s')" and "flow_ok (fst s) (snd s)" and "world_ok (snd s)"
  shows "plain_after (snd s) (snd s') \<and> world_ok (snd s') \<and> fst s' = fst s"
proof (cases "fl_producer (fst s)")
  case None
  with assms producer_call_off [of s E m args] show ?thesis by auto
next
  case (Some h)
  obtain x w where a: "await E (Invoke h m args) (snd s) = (x, w)" by force
  from Some assms a await_calls [OF a] show ?thesis
    by (auto simp: producer_call_def require_producer_def plain_after_def plain_def flow_ok_def world_ok_def)
qed

lemma flow_attempt_plain:
  assumes "flow_ok (fst s) (snd s)" and "world_ok (snd s)"
  shows "plain_after (snd s) (snd (snd (flow_attempt E opn s))) \<and> world_ok (snd (snd (flow_attempt E opn s)))
    \<and> fst (snd (flow_attempt E opn s)) = fst s"
  using assms producer_call_plain [OF _ assms, of E]
  by (cases opn) (auto simp: flow_ops Let_def split: prod.splits)

section \<open>The invariant of the application\<close>

lemma wire_grows: "world_grows (ds_world ds) (ds_world (snd (wire_processor E ro r store inst cls meta ds)))"
proof (cases "pm_queueName meta \<in> set (ds_registered ds)")
  case True
  then show ?thesis by (simp add: wire_processor_def)
next
  case False
  let ?n = "pm_queueName meta" and ?w0 = "warn_concurrency meta (ds_world ds)"
  obtain res wr w where reg: "register E ro r ?n (Fn (iv_id inst)) (Some (worker_options_of (pm_workerOptions meta)))
      (ds_workers ds, ?w0) = (res, (wr, w))"
    by (metis prod_cases3)
  have "world_grows (ds_world ds) ?w0" by (simp add: world_grows_def)
  then have w: "world_grows (ds_world ds) w" using register_ext [OF reg] world_grows_trans by auto
  show ?thesis
  proof (cases res)
    case (Returns h)
    let ?w1 = "bind_listeners inst ''@OnWorkerEvent'' h (worker_listeners_of cls store) w"
    have w1: "world_grows (ds_world ds) ?w1"
      using w plain_after_grows [OF bind_listeners_plain] world_grows_trans by blast
    obtain x ev w2 where goc: "get_or_create_events E ro r ?n (ds_events ds, ?w1) = (x, (ev, w2))"
      by (metis prod_cases3)
    have w2: "world_grows (ds_world ds) w2" using w1 events_ext [OF goc] world_grows_trans by auto
    then have w3: "world_grows (ds_world ds) (bind_listeners inst ''@OnQueueEvent'' k (queue_listeners_of cls store) w2)" for k
      using plain_after_grows [OF bind_listeners_plain] world_grows_trans by blast
    show ?thesis using False reg Returns w1 goc w2 w3 by (cases x) (auto simp: wire_processor_def Let_def)
  qed (use False reg w in \<open>auto simp: wire_processor_def\<close>)
qed

lemma on_module_init_grows: "world_grows (ds_world ds) (ds_world (snd (on_module_init E ro r store ps ds)))"
proof (induction ps arbitrary: ds)
  case (Cons p ps)
  obtain res ds1 where v: "visit_provider E ro r store p ds = (res, ds1)" by force
  have "world_grows (ds_world ds) (ds_world ds1)"
    using v wire_grows [of ds E ro r store]
    by (auto simp: visit_provider_def split: provider.splits option.splits) (metis snd_conv)+
  with Cons.IH [of ds1] v show ?case by (cases res) (auto intro: world_grows_trans)
qed simp

definition app_ok :: "resolver \<Rightarrow> nat \<Rightarrow> application \<Rightarrow> bool" where
  "app_ok r c a \<longleftrightarrow> scan_ok r c (ap_scan a) \<and> queue_inv (ap_queues a, app_world a)
     \<and> flow_ok (ap_flow a) (app_world a)"

lemma queue_inv_grows: "queue_inv (q, w) \<Longrightarrow> world_grows w w' \<Longrightarrow> queue_inv (q, w')"
  by (auto simp: queue_inv_def world_grows_def)

lemma flow_ok_grows: "flow_ok fl w \<Longrightarrow> world_grows w w' \<Longrightarrow> flow_ok fl w'"
  by (auto simp: flow_ok_def world_grows_def)

lemma app_ok_scan:
  assumes "app_ok r c a" and "scan_ok r c ds" and "world_grows (app_world a) (ds_world ds)"
  shows "app_ok r c (a\<lparr>ap_scan := ds\<rparr>)"
  using assms by (auto simp: app_ok_def app_world_def intro: queue_inv_grows flow_ok_grows)

lemma app_ok_world:
  assumes "app_ok r c a" and "plain_after (app_world a) w" and "world_ok w" and "queue_inv (q, w)"
  shows "app_ok r c (set_world w (a\<lparr>ap_queues := q, ap_metrics := ms\<rparr>))"
  using assms scan_ok_plain [of r c "ap_scan a" w] plain_after_grows [OF assms(2)]
  by (auto simp: app_ok_def app_world_def set_world_def intro: flow_ok_grows)

lemma app_world_ok: "app_ok r c a \<Longrightarrow> world_ok (app_world a)"
  by (simp add: app_ok_def scan_ok_def worker_inv_def app_world_def)

lemma app_ok_queue_effect:
  assumes "app_ok r c a" and "queue_effect E ro r (ap_queues a, app_world a) (q, w)"
  shows "app_ok r c (set_world w (a\<lparr>ap_queues := q, ap_metrics := ms\<rparr>))"
proof -
  have "queue_inv (ap_queues a, app_world a)" using assms(1) by (simp add: app_ok_def)
  from queue_effect_plain [OF assms(2) this] app_world_ok [OF assms(1)]
  have "plain_after (app_world a) w" "world_ok w" "queue_inv (q, w)" by auto
  with assms(1) show ?thesis by (rule app_ok_world)
qed

lemma app_step_ok:
  assumes "app_ok r c a"
  shows "app_ok r c (app_step E ro r opn a)"
proof (cases opn)
  case (AppDiscover store ps)
  with app_ok_scan [OF assms scan_ok_init] on_module_init_grows assms show ?thesis
    by (simp add: app_ok_def app_world_def)
next
  case (AppWorker w)
  have "world_grows (app_world a) (ds_world (on_workers (worker_step E ro r w) (ap_scan a)))"
    using worker_step_grows [of "(ds_workers (ap_scan a), app_world a)" E ro r w]
    by (auto simp: on_workers_def app_world_def split: prod.splits)
  with app_ok_scan [OF assms scan_ok_workers] assms AppWorker show ?thesis by (simp add: app_ok_def)
next
  case (AppEvents n)
  obtain res ev w where g: "get_or_create_events E ro r n (ds_events (ap_scan a), app_world a) = (res, (ev, w))"
    by (metis prod_cases3)
  then have "world_grows (app_world a)
      (ds_world (on_events (\<lambda>s. snd (get_or_create_events E ro r n s)) (ap_scan a)))"
    using events_ext [OF g] by (simp add: on_events_def app_world_def)
  with app_ok_scan [OF assms scan_ok_events] assms AppEvents show ?thesis by (simp add: app_ok_def)
next
  case (AppQueue qop)
  obtain q w where s: "queue_step E ro r qop (ap_queues a, app_world a) = (q, w)" by force
  have "queue_effect E ro r (ap_queues a, app_world a) (q, w)" using queue_step_effect [of E ro r _ qop] s by metis
  from app_ok_queue_effect [OF assms this, of "ap_metrics a"] AppQueue s show ?thesis by simp
next
  case (AppMetrics x)
  obtain ms q w where s: "snd (metrics_attempt E ro r (own_op x) (ap_metrics a, (ap_queues a, app_world a))) = (ms, (q, w))"
    by (metis prod_cases3)
  have "queue_effect E ro r (ap_queues a, app_world a) (q, w)"
    using metrics_attempt_effect [of E ro r "(ap_metrics a, (ap_queues a, app_world a))" x] s by simp
  from app_ok_queue_effect [OF assms this, of ms] AppMetrics s show ?thesis by simp
next
  case (AppFlow f)
  obtain fl w where s: "snd (flow_attempt E f (ap_flow a, app_world a)) = (fl, w)" by force
  have "flow_ok (ap_flow a) (app_world a)" using assms by (simp add: app_ok_def)
  with flow_attempt_plain [of "(ap_flow a, app_world a)" E f] app_world_ok [OF assms] s
  have fl: "fl = ap_flow a" and w: "plain_after (app_world a) w" "world_ok w" by auto
  have "queue_inv (ap_queues a, w)"
    using assms queue_inv_grows plain_after_grows [OF w(1)] by (auto simp: app_ok_def)
  from app_ok_world [OF assms w this, of "ap_metrics a"] AppFlow s fl show ?thesis by simp
qed

lemma app_run_ok: "app_ok r c a \<Longrightarrow> app_ok r c (app_run E ro r ops a)"
  unfolding app_run_def by (rule fold_inv) (auto intro: app_step_ok)

section \<open>Starting up\<close>

text \<open>What a successful initialization leaves: a client, and no duplicate that is still open.\<close>

lemma open_duplicates_probe:
  assumes "world_ok w" and "open_duplicates w = {}"
    and "w_calls w' = w_calls w @ [RedisDuplicate c (w_next w) ov, RedisDisconnect (w_next w)]"
  shows "open_duplicates w' = {}"
  using assms by (auto simp: open_duplicates_def)

lemma init_mode_a_starts:
  assumes "init_mode_a E c w = (Returns (), r, w')" and "world_ok w" and "open_duplicates w = {}"
    and "c < w_next w" and "c \<notin> released (w_calls w)"
  shows "r = \<lparr>r_client = Some c, r_mode = Some Mode_A_byo\<rparr> \<and> world_ok w' \<and> open_duplicates w' = {}
    \<and> c < w_next w' \<and> c \<notin> released (w_calls w')"
proof -
  obtain d w1 where dup: "duplicate_connection E c w = (d, w1)" by force
  note d = duplicate_calls [OF dup]
  show ?thesis
  proof (cases d)
    case (Returns p)
    with assms(1) dup have r: "r = \<lparr>r_client = Some c, r_mode = Some Mode_A_byo\<rparr>" and w': "w' = disconnect p w1"
      by (auto simp: init_mode_a_def Let_def raise_code_def split: if_splits)
    have p: "p = w_next w" "w_next w1 = Suc (w_next w)"
      "w_calls w1 = w_calls w @ [RedisDuplicate c (w_next w) blocking_override]"
      using d Returns by auto
    have "open_duplicates w' = {}"
      by (rule open_duplicates_probe [OF assms(2,3)]) (simp add: w' p)
    moreover have "world_ok w'"
      by (rule world_ok_extend [OF assms(2), of _ "[RedisDuplicate c (w_next w) blocking_override, RedisDisconnect (w_next w)]"])
        (use p assms(4) in \<open>auto simp: w'\<close>)
    ultimately show ?thesis using assms(4,5) r p by (auto simp: w')
  qed (use assms(1) dup in \<open>auto simp: init_mode_a_def Let_def raise_code_def split: if_splits\<close>)
qed

lemma init_starts:
  assumes "init E opts w = (Returns (), r, w')" and "world_ok w" and "open_duplicates w = {}"
    and "\<And>c. field (props (mo_connection opts)) ''client'' = Ref c \<Longrightarrow> c < w_next w \<and> c \<notin> released (w_calls w)"
  obtains c where "r_client r = Some c" and "world_ok w'" and "open_duplicates w' = {}"
    and "c < w_next w'" and "c \<notin> released (w_calls w')"
    and "r_mode r = Some Mode_A_byo \<Longrightarrow> field (props (mo_connection opts)) ''client'' = Ref c"
proof (cases "has_key ''client'' (props (mo_connection opts))")
  case True
  then obtain c where c: "field (props (mo_connection opts)) ''client'' = Ref c"
    "init_mode_a E c w = (Returns (), r, w')"
    using assms(1) by (auto simp: init_def adopt_client_def type_error_def raise_code_def Let_def
        split: jsval.splits if_splits)
  from init_mode_a_starts [OF c(2) assms(2,3)] assms(4) [OF c(1)] c(1) that show thesis by auto
next
  case False
  obtain d w1 where o: "open_owned E (mo_connection opts) w = (d, w1)" by force
  show thesis
  proof (cases d)
    case (Returns c)
    let ?t = "opt_default (mo_connectionReadyTimeoutMs opts) DEFAULT_CONNECTION_READY_TIMEOUT_MS"
    obtain x w2 where wr: "wait_ready E ?t c w1 = (x, w2)" by force
    have c: "c = w_next w" "w_next w1 = Suc c" "\<exists>u op. w_calls w1 = w_calls w @ [RedisNew c u op]"
      using o Returns by (auto simp: open_owned_def Let_def split: option.splits)
    have w': "w' = w2" "r = \<lparr>r_client = Some c, r_mode = Some Mode_B_owned\<rparr>"
      using assms(1) False o Returns wr by (auto simp: init_def Let_def)
    note same = wait_ready_calls [OF wr]
    have "world_ok w'"
      using assms(2) c same by (auto simp: w' world_ok_def less_Suc_eq)
    moreover have "open_duplicates w' = {}" "c \<notin> released (w_calls w')"
      using assms(3) c same fresh_not_released [OF assms(2)] by (auto simp: w' open_duplicates_def)
    ultimately show thesis using that [of c] c same by (auto simp: w')
  qed (use assms(1) False o in \<open>auto simp: init_def\<close>)
qed

lemma boot_ok:
  assumes "r_client r = Some c" and "world_ok w" and "open_duplicates w = {}" and "c < w_next w"
    and "c \<notin> released (w_calls w)" and "flow_ok fl w"
  shows "app_ok r c (boot ro fl w)"
proof -
  have "client_ok r w" using assms(1,4) by (simp add: client_ok_def)
  from fresh_discovery_inv [OF assms(2) this] assms show ?thesis
    by (simp add: app_ok_def boot_def scan_ok_def discovery_inv_def app_world_def queue_inv_new tracked_by_def
        fresh_discovery_def new_worker_registry_def new_events_registry_def tracked_workers_def tracked_events_def)
qed

lemma new_flow_service_plain:
  assumes "new_flow_service E r enabled prefix telemetry w = (Returns fl, w')" and "world_ok w"
  shows "plain_after w w' \<and> world_ok w' \<and> flow_ok fl w'"
proof (cases "enabled \<and> r_client r \<noteq> None")
  case True
  then obtain c where c: "r_client r = Some c" and en: "enabled" by auto
  obtain k w1 where con: "construct E FlowProducerKind [] Undef (flow_options c prefix telemetry) w = (k, w1)" by force
  from assms con c en construct_calls [OF con] show ?thesis
    by (cases k) (auto simp: new_flow_service_def get_client_def plain_after_def plain_def flow_ok_def world_ok_def
        less_Suc_eq)
next
  case False
  with assms show ?thesis
    by (auto simp: new_flow_service_def get_client_def not_initialized_def raise_code_def flow_ok_def split: if_splits)
qed

text \<open>Everything up to the end of the bootstrap, for either mode.\<close>

lemma startup_ok:
  assumes "init E opts w0 = (Returns (), r, w1)" and "world_ok w0" and "open_duplicates w0 = {}"
    and "\<And>c. field (props (mo_connection opts)) ''client'' = Ref c \<Longrightarrow> c < w_next w0 \<and> c \<notin> released (w_calls w0)"
    and "new_flow_service E r enabled prefix telemetry w1 = (Returns fl, w2)"
  obtains c where "r_client r = Some c" and "app_ok r c (boot ro fl w2)"
    and "r_mode r = Some Mode_A_byo \<Longrightarrow> field (props (mo_connection opts)) ''client'' = Ref c"
proof (rule init_starts [OF assms(1-4)])
  fix c
  assume c: "r_client r = Some c" "world_ok w1" "open_duplicates w1 = {}" "c < w_next w1" "c \<notin> released (w_calls w1)"
    and mode: "r_mode r = Some Mode_A_byo \<Longrightarrow> field (props (mo_connection opts)) ''client'' = Ref c"
  from new_flow_service_plain [OF assms(5) c(2)] have w2: "plain_after w1 w2" "world_ok w2" "flow_ok fl w2" by auto
  from plain_after_connections [OF w2(1)] w2 c have "app_ok r c (boot ro fl w2)"
    by (intro boot_ok) (auto simp: plain_after_def)
  with that c(1) mode show thesis by blast
qed

end
