(* ===== verification/WorkerRace.thy ===== *)
theory WorkerRace
  imports Workers
begin

text \<open>
  \<open>unregister\<close> when other operations run while it awaits
  (\<open>src/src/server/services/worker-registry.service.ts\<close>). It reads the entry once, awaits the close
  of the worker and of the connection, and only then deletes, by name, whatever entry the registry
  holds. A removal in progress remembers the connection it read.
\<close>

section \<open>State and steps\<close>

record removal =
  rm_id :: nat
  rm_queue :: string
  rm_connection :: nat
  rm_closed :: bool

record registry_run =
  rr_registry :: worker_registry
  rr_removals :: "removal list"
  rr_open :: "nat list"
  rr_next :: nat

definition start_registry :: registry_run where
  "start_registry = \<lparr>rr_registry = new_worker_registry, rr_removals = [], rr_open = [], rr_next = 0\<rparr>"

text \<open>A registration that succeeds opens one connection and adds one entry.\<close>

definition add_worker :: "string \<Rightarrow> registry_run \<Rightarrow> registry_run" where
  "add_worker n s =
    s\<lparr>rr_registry := (rr_registry s)\<lparr>wr_entries := AList.update n
        \<lparr>we_worker = Suc (rr_next s), we_connection = rr_next s\<rparr> (wr_entries (rr_registry s))\<rparr>,
      rr_open := rr_next s # rr_open s, rr_next := rr_next s + 2\<rparr>"

text \<open>\<open>unregister\<close> up to its first \<open>await\<close>.\<close>

definition begin_removal :: "string \<Rightarrow> worker_entry \<Rightarrow> registry_run \<Rightarrow> registry_run" where
  "begin_removal n e s =
    s\<lparr>rr_removals := rr_removals s @
        [\<lparr>rm_id = rr_next s, rm_queue = n, rm_connection = we_connection e, rm_closed = False\<rparr>],
      rr_next := Suc (rr_next s)\<rparr>"

text \<open>Between the two \<open>await\<close>s; and a rejected close, which ends the removal.\<close>

definition worker_closed :: "removal \<Rightarrow> registry_run \<Rightarrow> registry_run" where
  "worker_closed m s =
    s\<lparr>rr_removals := map (\<lambda>k. if k = m then m\<lparr>rm_closed := True\<rparr> else k) (rr_removals s)\<rparr>"

definition drop_removal :: "removal \<Rightarrow> registry_run \<Rightarrow> registry_run" where
  "drop_removal m s = s\<lparr>rr_removals := removeAll m (rr_removals s)\<rparr>"

text \<open>After the second \<open>await\<close>: the connection is closed, and the entry of that name deleted.\<close>

definition finish_removal :: "removal \<Rightarrow> registry_run \<Rightarrow> registry_run" where
  "finish_removal m s =
    s\<lparr>rr_removals := removeAll m (rr_removals s),
      rr_open := removeAll (rm_connection m) (rr_open s),
      rr_registry := forget_worker (rm_queue m) (rr_registry s)\<rparr>"

text \<open>
  \<open>exclusive\<close> says that the application never starts a removal of a queue while another one of
  the same queue is in progress.
\<close>

inductive registry_step :: "bool \<Rightarrow> registry_run \<Rightarrow> registry_run \<Rightarrow> bool" for exclusive where
  registered: "map_of (wr_entries (rr_registry s)) n = None \<Longrightarrow> registry_step exclusive s (add_worker n s)"
| removal_started: "map_of (wr_entries (rr_registry s)) n = Some e \<Longrightarrow>
     (exclusive \<longrightarrow> n \<notin> rm_queue ` set (rr_removals s)) \<Longrightarrow> registry_step exclusive s (begin_removal n e s)"
| close_settled: "m \<in> set (rr_removals s) \<Longrightarrow> \<not> rm_closed m \<Longrightarrow> registry_step exclusive s (worker_closed m s)"
| close_rejected: "m \<in> set (rr_removals s) \<Longrightarrow> \<not> rm_closed m \<Longrightarrow> registry_step exclusive s (drop_removal m s)"
| removal_finished: "m \<in> set (rr_removals s) \<Longrightarrow> rm_closed m \<Longrightarrow> registry_step exclusive s (finish_removal m s)"

section \<open>Removals that do not overlap are safe\<close>

definition registry_inv :: "registry_run \<Rightarrow> bool" where
  "registry_inv s \<longleftrightarrow> jsmap_wf (wr_entries (rr_registry s)) \<and> set (rr_open s) \<subseteq> tracked_workers (rr_registry s)
     \<and> distinct (map rm_queue (rr_removals s))
     \<and> (\<forall>m \<in> set (rr_removals s).
          map_option we_connection (map_of (wr_entries (rr_registry s)) (rm_queue m)) = Some (rm_connection m))"

lemma map_rm_queue_closed:
  "map rm_queue (map (\<lambda>k. if k = m then m\<lparr>rm_closed := True\<rparr> else k) ms) = map rm_queue ms"
  by (induction ms) auto

lemma distinct_removeAll_map: "distinct (map f xs) \<Longrightarrow> distinct (map f (removeAll x xs))"
  by (induction xs) auto

lemma removed_queue_unique:
  "distinct (map rm_queue ms) \<Longrightarrow> m \<in> set ms \<Longrightarrow> k \<in> set (removeAll m ms) \<Longrightarrow> rm_queue k \<noteq> rm_queue m"
  by (auto simp: distinct_map inj_on_def)

lemma registry_step_inv: "registry_step True s s' \<Longrightarrow> registry_inv s \<Longrightarrow> registry_inv s'"
proof (induction rule: registry_step.induct)
  case (registered s n)
  then show ?case
    by (auto simp: registry_inv_def add_worker_def update_absent tracked_workers_def map_add_def split: option.splits)
next
  case (removal_started s n e)
  then show ?case
    by (cases e) (auto simp: registry_inv_def begin_removal_def)
next
  case (close_settled m s)
  then show ?case unfolding registry_inv_def worker_closed_def
    by (auto simp: map_rm_queue_closed simp del: map_map)
next
  case (close_rejected m s)
  then show ?case by (auto simp: registry_inv_def drop_removal_def distinct_removeAll_map)
next
  case (removal_finished m s)
  let ?wr = "rr_registry s" and ?n = "rm_queue m"
  from removal_finished have at: "map_option we_connection (map_of (wr_entries ?wr) ?n) = Some (rm_connection m)"
    and wf: "jsmap_wf (wr_entries ?wr)"
    by (auto simp: registry_inv_def)
  then have only: "(?n, e) \<in> set (wr_entries ?wr) \<Longrightarrow> we_connection e = rm_connection m" for e
    by (metis jsmap_wf_def map_of_is_SomeI option.inject option.simps(9))
  have "tracked_workers ?wr \<subseteq> insert (rm_connection m) (tracked_workers (forget_worker ?n ?wr))"
    using only by (force simp: tracked_workers_def forget_worker_def AList.delete_eq)
  then have "set (removeAll (rm_connection m) (rr_open s)) \<subseteq> tracked_workers (forget_worker ?n ?wr)"
    using removal_finished by (auto simp: registry_inv_def)
  moreover have "map_option we_connection (map_of (wr_entries (forget_worker ?n ?wr)) (rm_queue k)) = Some (rm_connection k)"
    if "k \<in> set (removeAll m (rr_removals s))" for k
  proof -
    have "rm_queue k \<noteq> ?n"
      using removed_queue_unique [OF _ removal_finished(1) that] removal_finished(3) by (simp add: registry_inv_def)
    with removal_finished that show ?thesis by (auto simp: registry_inv_def forget_worker_def map_laws)
  qed
  moreover have "jsmap_wf (wr_entries (forget_worker ?n ?wr))"
    using wf jm.wf_del by (simp add: forget_worker_def)
  ultimately show ?case
    using removal_finished by (auto simp: registry_inv_def finish_removal_def distinct_removeAll_map)
qed

lemma start_registry_inv: "registry_inv start_registry"
  by (simp add: registry_inv_def start_registry_def new_worker_registry_def jsmap_wf_def)

text \<open>
  C20. As long as no two removals of one queue overlap, the registry never loses a worker: in every
  interleaving of registrations and removals, rejected closes included, each connection that is
  open belongs to an entry the shutdown sequence will find.
\<close>

theorem exclusive_removals_lose_nothing:
  assumes "(registry_step True)\<^sup>*\<^sup>* start_registry s"
  shows "set (rr_open s) \<subseteq> tracked_workers (rr_registry s)"
proof -
  have "registry_inv s" using assms
    by (induction rule: rtranclp_induct) (auto intro: start_registry_inv registry_step_inv)
  then show ?thesis by (simp add: registry_inv_def)
qed

section \<open>Overlapping removals\<close>

definition two_removals :: registry_run where
  "two_removals = begin_removal ''mail'' \<lparr>we_worker = 1, we_connection = 0\<rparr>
     (begin_removal ''mail'' \<lparr>we_worker = 1, we_connection = 0\<rparr> (add_worker ''mail'' start_registry))"

definition first_removal :: removal where
  "first_removal = \<lparr>rm_id = 2, rm_queue = ''mail'', rm_connection = 0, rm_closed = False\<rparr>"

definition second_removal :: removal where
  "second_removal = \<lparr>rm_id = 3, rm_queue = ''mail'', rm_connection = 0, rm_closed = False\<rparr>"

definition both_closed :: registry_run where
  "both_closed = worker_closed second_removal (worker_closed first_removal two_removals)"

definition lost_worker :: registry_run where
  "lost_worker = finish_removal (second_removal\<lparr>rm_closed := True\<rparr>)
     (add_worker ''mail'' (finish_removal (first_removal\<lparr>rm_closed := True\<rparr>) both_closed))"

lemmas race_defs = two_removals_def first_removal_def second_removal_def both_closed_def start_registry_def
  new_worker_registry_def add_worker_def begin_removal_def worker_closed_def finish_removal_def forget_worker_def

lemma lost_worker_reachable: "(registry_step False)\<^sup>*\<^sup>* start_registry lost_worker"
proof -
  let ?s1 = "add_worker ''mail'' start_registry"
  let ?e = "\<lparr>we_worker = 1, we_connection = 0\<rparr>"
  let ?s2 = "begin_removal ''mail'' ?e ?s1"
  let ?s4 = "worker_closed first_removal two_removals"
  let ?s6 = "finish_removal (first_removal\<lparr>rm_closed := True\<rparr>) both_closed"
  have 1: "registry_step False start_registry ?s1" by (rule registered) (simp add: race_defs)
  have 2: "registry_step False ?s1 ?s2" by (rule removal_started) (simp_all add: race_defs)
  have 3: "registry_step False ?s2 two_removals" unfolding two_removals_def
    by (rule removal_started) (simp_all add: race_defs)
  have 4: "registry_step False two_removals ?s4" by (rule close_settled) (simp_all add: race_defs)
  have 5: "registry_step False ?s4 both_closed" unfolding both_closed_def
    by (rule close_settled) (simp_all add: race_defs)
  have 6: "registry_step False both_closed ?s6" by (rule removal_finished) (simp_all add: race_defs)
  have 7: "registry_step False ?s6 (add_worker ''mail'' ?s6)" by (rule registered) (simp add: race_defs)
  have 8: "registry_step False (add_worker ''mail'' ?s6) lost_worker" unfolding lost_worker_def
    by (rule removal_finished) (simp_all add: race_defs)
  from 1 2 3 4 5 6 7 8 show ?thesis by (meson rtranclp.rtrancl_into_rtrancl rtranclp.rtrancl_refl)
qed

text \<open>
  Two overlapping removals of one queue can lose a worker: the first one completes, a new
  worker is registered, and the second deletes the new entry. The new worker keeps running on an
  open connection that the registry no longer lists, so the shutdown sequence never closes it.
\<close>

lemma overlapping_removals_lose_a_worker:
  "\<exists>s c. (registry_step False)\<^sup>*\<^sup>* start_registry s \<and> rr_removals s = []
     \<and> c \<in> set (rr_open s) \<and> worker_list (rr_registry s) = []"
proof -
  have "rr_removals lost_worker = [] \<and> rr_open lost_worker = [4] \<and> worker_list (rr_registry lost_worker) = []"
    by (simp add: lost_worker_def race_defs worker_list_def jsmap_keys_def)
  with lost_worker_reachable show ?thesis by (metis list.set_intros(1))
qed

text \<open>Two workers are registered, the first one is removed, and a second removal of the other one is under way.\<close>

theorem exclusive_removals_lose_nothing_witness:
  "\<exists>s. (registry_step True)\<^sup>*\<^sup>* start_registry s \<and> rr_open s = [2] \<and> map rm_queue (rr_removals s) = [''sms'']
    \<and> {2} \<subseteq> tracked_workers (rr_registry s)"
proof -
  let ?e = "\<lparr>we_worker = 1, we_connection = 0\<rparr>" and ?f = "\<lparr>we_worker = 3, we_connection = 2\<rparr>"
  let ?m = "\<lparr>rm_id = 4, rm_queue = ''mail'', rm_connection = 0, rm_closed = False\<rparr>"
  let ?s1 = "add_worker ''mail'' start_registry"
  let ?s2 = "add_worker ''sms'' ?s1"
  let ?s3 = "begin_removal ''mail'' ?e ?s2"
  let ?s4 = "worker_closed ?m ?s3"
  let ?s5 = "finish_removal (?m\<lparr>rm_closed := True\<rparr>) ?s4"
  let ?s6 = "begin_removal ''sms'' ?f ?s5"
  have 1: "registry_step True start_registry ?s1" by (rule registered) (simp add: race_defs)
  have 2: "registry_step True ?s1 ?s2" by (rule registered) (simp add: race_defs)
  have 3: "registry_step True ?s2 ?s3" by (rule removal_started) (simp_all add: race_defs)
  have 4: "registry_step True ?s3 ?s4" by (rule close_settled) (simp_all add: race_defs)
  have 5: "registry_step True ?s4 ?s5" by (rule removal_finished) (simp_all add: race_defs)
  have 6: "registry_step True ?s5 ?s6" by (rule removal_started) (simp_all add: race_defs)
  from 1 2 3 4 5 6 have run: "(registry_step True)\<^sup>*\<^sup>* start_registry ?s6"
    by (meson rtranclp.rtrancl_into_rtrancl rtranclp.rtrancl_refl)
  have "rr_open ?s6 = [2]" "map rm_queue (rr_removals ?s6) = [''sms'']" by (simp_all add: race_defs)
  with exclusive_removals_lose_nothing [OF run] run show ?thesis by (intro exI [of _ ?s6]) simp
qed

end
