(* ===== verification/ShutdownRace.thy ===== *)
theory ShutdownRace
  imports Lifecycle WorkerRace
begin

text \<open>
  \<open>onModuleDestroy\<close> when workers and streams are registered or removed while it awaits
  (\<open>src/src/server/lifecycle/queue-lifecycle.service.ts\<close>). The three steps read the registries at
  different moments: the workers are a snapshot (\<open>getAll\<close> of the worker registry copies), the
  streams are the live map (\<open>getAll\<close> of the events registry does not, so the loop visits what is added
  behind it), and the connections are a snapshot again, taken when the last stream is closed.

  A step of the hook ends where it awaits or finds nothing left to do. Something else may come
  between any two steps, which allows more runs than the event loop has.
\<close>

section \<open>State\<close>

datatype stage =
    Closing_workers "nat list"
  | Closing_streams nat
  | Hanging_up "nat list"
  | Stopped

record shutdown_run =
  sr_run :: registry_run
  sr_events :: events_registry
  sr_open_streams :: "nat list"
  sr_stage :: stage
  sr_closed :: "nat list"
  sr_collected :: nat

definition begin_shutdown :: "registry_run \<Rightarrow> events_registry \<Rightarrow> nat list \<Rightarrow> shutdown_run" where
  "begin_shutdown run ev streams =
    \<lparr>sr_run = run, sr_events = ev, sr_open_streams = streams,
     sr_stage = Closing_workers (jsmap_values (worker_get_all (rr_registry run))),
     sr_closed = [], sr_collected = 0\<rparr>"

section \<open>Steps\<close>

text \<open>A worker is closed, gracefully or by force.\<close>

definition close_next_worker :: "nat \<Rightarrow> nat list \<Rightarrow> shutdown_run \<Rightarrow> shutdown_run" where
  "close_next_worker h hs s = s\<lparr>sr_stage := Closing_workers hs, sr_closed := h # sr_closed s\<rparr>"

definition close_stream :: "nat \<Rightarrow> shutdown_run \<Rightarrow> shutdown_run" where
  "close_stream p s =
    s\<lparr>sr_stage := Closing_streams (Suc p), sr_closed := snd (events_get_all (sr_events s) ! p) # sr_closed s\<rparr>"

definition collect_connections :: "shutdown_run \<Rightarrow> shutdown_run" where
  "collect_connections s =
    s\<lparr>sr_stage := Hanging_up (owned_connections (rr_registry (sr_run s)) (sr_events s)),
      sr_collected := rr_next (sr_run s)\<rparr>"

definition hang_up_next :: "nat \<Rightarrow> nat list \<Rightarrow> shutdown_run \<Rightarrow> shutdown_run" where
  "hang_up_next c cs s =
    s\<lparr>sr_stage := Hanging_up cs,
      sr_run := (sr_run s)\<lparr>rr_open := removeAll c (rr_open (sr_run s))\<rparr>,
      sr_open_streams := removeAll c (sr_open_streams s)\<rparr>"

text \<open>Meanwhile: \<open>getOrCreate\<close> of a new name opens a connection and adds to both maps.\<close>

definition add_stream :: "string \<Rightarrow> shutdown_run \<Rightarrow> shutdown_run" where
  "add_stream n s =
    (let i = rr_next (sr_run s)
     in s\<lparr>sr_events := \<lparr>ev_events = AList.update n (Suc i) (ev_events (sr_events s)),
            ev_connections = AList.update n i (ev_connections (sr_events s))\<rparr>,
          sr_open_streams := i # sr_open_streams s,
          sr_run := (sr_run s)\<lparr>rr_next := i + 2\<rparr>\<rparr>)"

text \<open>
  \<open>exclusive\<close> is that of the registry's steps: it says whether the application keeps the removals of one
  queue from overlapping, which the code leaves to it.
\<close>

inductive shutdown_step :: "bool \<Rightarrow> shutdown_run \<Rightarrow> shutdown_run \<Rightarrow> bool" for exclusive where
  worker_done: "sr_stage s = Closing_workers (h # hs) \<Longrightarrow> shutdown_step exclusive s (close_next_worker h hs s)"
| workers_drained: "sr_stage s = Closing_workers [] \<Longrightarrow> shutdown_step exclusive s (s\<lparr>sr_stage := Closing_streams 0\<rparr>)"
| stream_done: "sr_stage s = Closing_streams p \<Longrightarrow> p < length (events_get_all (sr_events s)) \<Longrightarrow>
     shutdown_step exclusive s (close_stream p s)"
| streams_done: "sr_stage s = Closing_streams p \<Longrightarrow> \<not> p < length (events_get_all (sr_events s)) \<Longrightarrow>
     shutdown_step exclusive s (collect_connections s)"
| connection_done: "sr_stage s = Hanging_up (c # cs) \<Longrightarrow> shutdown_step exclusive s (hang_up_next c cs s)"
| hook_done: "sr_stage s = Hanging_up [] \<Longrightarrow> shutdown_step exclusive s (s\<lparr>sr_stage := Stopped\<rparr>)"
| worker_meanwhile: "registry_step exclusive (sr_run s) r \<Longrightarrow> shutdown_step exclusive s (s\<lparr>sr_run := r\<rparr>)"
| stream_meanwhile: "map_of (ev_events (sr_events s)) n = None \<Longrightarrow> shutdown_step exclusive s (add_stream n s)"

section \<open>Invariants\<close>

text \<open>What holds at any time, shutting down or not.\<close>

definition streams_inv :: "shutdown_run \<Rightarrow> bool" where
  "streams_inv s \<longleftrightarrow> map fst (ev_connections (sr_events s)) = map fst (ev_events (sr_events s))
     \<and> set (sr_open_streams s) \<subseteq> tracked_events (sr_events s)
     \<and> (\<forall>c \<in> set (sr_open_streams s) \<union> set (rr_open (sr_run s)). c < rr_next (sr_run s))
     \<and> (\<forall>h \<in> set (jsmap_values (ev_events (sr_events s))). h < rr_next (sr_run s))"

definition shutdown_inv :: "bool \<Rightarrow> shutdown_run \<Rightarrow> bool" where
  "shutdown_inv exclusive s \<longleftrightarrow> (exclusive \<longrightarrow> registry_inv (sr_run s)) \<and> streams_inv s"

text \<open>
  The connections that were open when they were collected, and the streams. Of the workers' connections only
  exclusive removals allow to speak.
\<close>

definition early_open :: "bool \<Rightarrow> shutdown_run \<Rightarrow> nat set" where
  "early_open exclusive s =
    {c \<in> set (sr_open_streams s) \<union> (if exclusive then set (rr_open (sr_run s)) else {}). c < sr_collected s}"

definition early_streams :: "shutdown_run \<Rightarrow> nat set" where
  "early_streams s = {h \<in> set (jsmap_values (ev_events (sr_events s))). h < sr_collected s}"

fun stage_inv :: "bool \<Rightarrow> nat set \<Rightarrow> shutdown_run \<Rightarrow> stage \<Rightarrow> bool" where
  "stage_inv exclusive W s (Closing_workers hs) = (W \<subseteq> set (sr_closed s) \<union> set hs)"
| "stage_inv exclusive W s (Closing_streams p) = (W \<subseteq> set (sr_closed s) \<and> p \<le> length (ev_events (sr_events s))
     \<and> snd ` set (take p (ev_events (sr_events s))) \<subseteq> set (sr_closed s))"
| "stage_inv exclusive W s (Hanging_up cs) = (W \<subseteq> set (sr_closed s) \<and> sr_collected s \<le> rr_next (sr_run s)
     \<and> early_streams s \<subseteq> set (sr_closed s) \<and> early_open exclusive s \<subseteq> set cs)"
| "stage_inv exclusive W s Stopped = (W \<subseteq> set (sr_closed s) \<and> sr_collected s \<le> rr_next (sr_run s)
     \<and> early_streams s \<subseteq> set (sr_closed s) \<and> early_open exclusive s = {})"

lemma registry_step_ids:
  "registry_step x r r' \<Longrightarrow> rr_next r \<le> rr_next r'
    \<and> set (rr_open r') \<subseteq> set (rr_open r) \<union> {rr_next r ..< rr_next r'}"
  by (induction rule: registry_step.induct)
    (auto simp: add_worker_def begin_removal_def worker_closed_def drop_removal_def finish_removal_def)

lemma registry_meanwhile_inv:
  assumes "registry_step exclusive (sr_run s) r" and "shutdown_inv exclusive s" and "stage_inv exclusive W s (sr_stage s)"
  shows "shutdown_inv exclusive (s\<lparr>sr_run := r\<rparr>) \<and> stage_inv exclusive W (s\<lparr>sr_run := r\<rparr>) (sr_stage s)"
proof -
  note ids = registry_step_ids [OF assms(1)]
  have "streams_inv (s\<lparr>sr_run := r\<rparr>)"
  proof -
    have "c < rr_next r" if "c \<in> set (rr_open r)" for c
    proof (cases "c \<in> set (rr_open (sr_run s))")
      case True
      with assms(2) have "c < rr_next (sr_run s)" by (auto simp: shutdown_inv_def streams_inv_def)
      with ids show ?thesis by simp
    qed (use ids that in auto)
    with assms(2) ids show ?thesis by (auto simp: shutdown_inv_def streams_inv_def dest: order_less_le_trans)
  qed
  moreover have "registry_inv r"
    if exclusive using registry_step_inv assms(1,2) that by (auto simp: shutdown_inv_def)
  moreover have "sr_collected s \<le> rr_next (sr_run s) \<Longrightarrow> early_open exclusive (s\<lparr>sr_run := r\<rparr>) \<subseteq> early_open exclusive s"
    using ids by (auto simp: early_open_def)
  moreover have "early_streams (s\<lparr>sr_run := r\<rparr>) = early_streams s" by (simp add: early_streams_def)
  ultimately show ?thesis
    using assms(3) ids by (cases "sr_stage s") (auto simp: shutdown_inv_def)
qed

lemma stream_meanwhile_inv:
  assumes "map_of (ev_events (sr_events s)) n = None" and "shutdown_inv exclusive s" and "stage_inv exclusive W s (sr_stage s)"
  shows "shutdown_inv exclusive (add_stream n s) \<and> stage_inv exclusive W (add_stream n s) (sr_stage s)"
proof -
  let ?s = "add_stream n s" and ?i = "rr_next (sr_run s)"
  from assms have "map_of (ev_connections (sr_events s)) n = None"
    unfolding shutdown_inv_def streams_inv_def map_of_eq_None_iff by (metis list.set_map)
  with assms(1) have ev: "ev_events (sr_events ?s) = ev_events (sr_events s) @ [(n, Suc ?i)]"
    "ev_connections (sr_events ?s) = ev_connections (sr_events s) @ [(n, ?i)]"
    by (simp_all add: add_stream_def Let_def update_absent)
  have rest: "sr_open_streams ?s = ?i # sr_open_streams s" "rr_next (sr_run ?s) = ?i + 2"
    "rr_open (sr_run ?s) = rr_open (sr_run s)" "rr_registry (sr_run ?s) = rr_registry (sr_run s)"
    "rr_removals (sr_run ?s) = rr_removals (sr_run s)"
    "sr_closed ?s = sr_closed s" "sr_collected ?s = sr_collected s"
    by (simp_all add: add_stream_def Let_def)
  have "registry_inv (sr_run ?s)" if exclusive using assms(2) that by (simp add: shutdown_inv_def registry_inv_def rest)
  moreover have "streams_inv ?s"
    using assms(2) by (auto simp: shutdown_inv_def streams_inv_def ev rest tracked_events_def jsmap_values_def
        intro: less_SucI)
  moreover have "sr_collected s \<le> ?i \<Longrightarrow> early_open exclusive ?s = early_open exclusive s \<and> early_streams ?s = early_streams s"
    by (auto simp: early_open_def early_streams_def ev rest jsmap_values_def)
  ultimately show ?thesis
    using assms(3) by (cases "sr_stage s") (auto simp: shutdown_inv_def ev rest)
qed

lemma shutdown_step_inv:
  "shutdown_step exclusive s t \<Longrightarrow> shutdown_inv exclusive s \<and> stage_inv exclusive W s (sr_stage s) \<Longrightarrow> shutdown_inv exclusive t \<and> stage_inv exclusive W t (sr_stage t)"
proof (induction rule: shutdown_step.induct)
  case (worker_done s h hs)
  then show ?case by (auto simp: close_next_worker_def shutdown_inv_def streams_inv_def)
next
  case (workers_drained s)
  then show ?case by (auto simp: shutdown_inv_def streams_inv_def)
next
  case (stream_done s p)
  then show ?case
    by (auto simp: close_stream_def shutdown_inv_def streams_inv_def events_get_all_def take_Suc_conv_app_nth)
next
  case (streams_done s p)
  then have "p = length (ev_events (sr_events s))" by (simp add: events_get_all_def)
  with streams_done show ?case
    by (auto simp: collect_connections_def shutdown_inv_def streams_inv_def registry_inv_def early_open_def
        early_streams_def owned_connections_tracked jsmap_values_def)
next
  case (connection_done s c cs)
  then show ?case
    by (auto simp: hang_up_next_def shutdown_inv_def streams_inv_def registry_inv_def early_open_def early_streams_def)
next
  case (hook_done s)
  then show ?case by (auto simp: shutdown_inv_def streams_inv_def early_open_def early_streams_def)
next
  case (worker_meanwhile s r)
  with registry_meanwhile_inv [of exclusive s r W] show ?case by simp
next
  case (stream_meanwhile s n)
  with stream_meanwhile_inv [of s n exclusive W] show ?case by (simp add: add_stream_def Let_def)
qed

section \<open>What the hook leaves\<close>

lemma begin_shutdown_inv:
  assumes "exclusive \<Longrightarrow> registry_inv run" and "streams_inv (begin_shutdown run ev streams)"
  shows "shutdown_inv exclusive (begin_shutdown run ev streams)
    \<and> stage_inv exclusive (set (jsmap_values (worker_get_all (rr_registry run)))) (begin_shutdown run ev streams)
        (sr_stage (begin_shutdown run ev streams))"
  using assms by (simp add: shutdown_inv_def) (simp add: begin_shutdown_def)

text \<open>
  C9. Whatever is registered, removed or observed while the hook awaits, once it has stopped: every
  worker that was registered when it began has been closed; every stream opened before the
  connections were collected has been closed, also one opened while the streams were being closed;
  and every connection of a stream that is still open was opened after they were collected. The
  same holds of the connections of the workers as long as the application never lets two removals
  of one queue overlap, before or during the shutdown.
\<close>

theorem shutdown_misses_only_late_comers:
  assumes "(registry_step exclusive)\<^sup>*\<^sup>* start_registry run" and "streams_inv (begin_shutdown run ev streams)"
    and "(shutdown_step exclusive)\<^sup>*\<^sup>* (begin_shutdown run ev streams) s" and "sr_stage s = Stopped"
  shows "set (jsmap_values (worker_get_all (rr_registry run))) \<subseteq> set (sr_closed s)
    \<and> (\<forall>h \<in> set (jsmap_values (events_get_all (sr_events s))). h < sr_collected s \<longrightarrow> h \<in> set (sr_closed s))
    \<and> (\<forall>c \<in> set (sr_open_streams s). sr_collected s \<le> c)
    \<and> (exclusive \<longrightarrow> (\<forall>c \<in> set (rr_open (sr_run s)). sr_collected s \<le> c))"
proof -
  let ?W = "set (jsmap_values (worker_get_all (rr_registry run)))"
  have "registry_inv run" if exclusive using assms(1)
    by (induction rule: rtranclp_induct) (use that in \<open>auto intro: start_registry_inv registry_step_inv\<close>)
  with assms(2) have start: "shutdown_inv exclusive (begin_shutdown run ev streams)
      \<and> stage_inv exclusive ?W (begin_shutdown run ev streams) (sr_stage (begin_shutdown run ev streams))"
    by (intro begin_shutdown_inv)
  from assms(3) have "shutdown_inv exclusive s \<and> stage_inv exclusive ?W s (sr_stage s)"
  proof (induction rule: rtranclp_induct)
    case base
    show ?case by (rule start)
  next
    case (step y z)
    from shutdown_step_inv [OF step.hyps(2) step.IH] show ?case .
  qed
  with assms(4) show ?thesis
    by (auto simp: early_open_def early_streams_def events_get_all_def)
qed

section \<open>Late comers\<close>

text \<open>
  A worker registered while the workers are being closed is on neither list: its connection is
  collected and hung up, but the worker itself is never closed. One queue has a worker, the close
  of which is awaited; meanwhile a second worker is registered.
\<close>

definition one_worker :: registry_run where
  "one_worker = add_worker ''mail'' start_registry"

definition late_run :: shutdown_run where
  "late_run = (begin_shutdown one_worker new_events_registry [])\<lparr>sr_run := add_worker ''late'' one_worker\<rparr>"

definition late_collected :: shutdown_run where
  "late_collected = collect_connections ((close_next_worker 1 [] late_run)\<lparr>sr_stage := Closing_streams 0\<rparr>)"

definition late_stopped :: shutdown_run where
  "late_stopped = (hang_up_next 2 [] (hang_up_next 0 [2] late_collected))\<lparr>sr_stage := Stopped\<rparr>"

lemmas late_defs = one_worker_def late_run_def late_collected_def late_stopped_def begin_shutdown_def start_registry_def
  new_worker_registry_def new_events_registry_def add_worker_def close_next_worker_def collect_connections_def
  hang_up_next_def owned_connections_def worker_get_connections_def worker_get_all_def events_get_connections_def
  events_get_all_def jsmap_values_def

lemma one_worker_reachable: "(registry_step exclusive)\<^sup>*\<^sup>* start_registry one_worker"
proof -
  have "registry_step exclusive start_registry one_worker" unfolding one_worker_def
    by (rule registered) (simp add: start_registry_def new_worker_registry_def)
  then show ?thesis by blast
qed

lemma late_stopped_reachable: "(shutdown_step exclusive)\<^sup>*\<^sup>* (begin_shutdown one_worker new_events_registry []) late_stopped"
proof -
  let ?s0 = "begin_shutdown one_worker new_events_registry []"
  let ?s2 = "close_next_worker 1 [] late_run"
  let ?s3 = "?s2\<lparr>sr_stage := Closing_streams 0\<rparr>"
  let ?s5 = "hang_up_next 0 [2] late_collected"
  let ?s6 = "hang_up_next 2 [] ?s5"
  have "registry_step exclusive one_worker (add_worker ''late'' one_worker)"
    by (rule registered) (simp add: late_defs)
  then have 1: "shutdown_step exclusive ?s0 late_run"
    unfolding late_run_def by (intro worker_meanwhile) (simp add: begin_shutdown_def)
  have 2: "shutdown_step exclusive late_run ?s2" by (rule worker_done) (simp add: late_defs)
  have 3: "shutdown_step exclusive ?s2 ?s3" by (rule workers_drained) (simp add: late_defs)
  have 4: "shutdown_step exclusive ?s3 late_collected" unfolding late_collected_def
    by (rule streams_done [where p = 0]) (simp_all add: late_defs)
  have 5: "shutdown_step exclusive late_collected ?s5" by (rule connection_done) (simp add: late_defs)
  have 6: "shutdown_step exclusive ?s5 ?s6" by (rule connection_done) (simp add: late_defs)
  have 7: "shutdown_step exclusive ?s6 late_stopped" unfolding late_stopped_def by (rule hook_done) (simp add: late_defs)
  from 1 2 3 4 5 6 7 show ?thesis by (meson rtranclp.rtrancl_into_rtrancl rtranclp.rtrancl_refl)
qed

lemma late_worker_is_never_closed:
  "(shutdown_step exclusive)\<^sup>*\<^sup>* (begin_shutdown one_worker new_events_registry []) late_stopped
    \<and> sr_stage late_stopped = Stopped
    \<and> map_of (worker_get_all (rr_registry (sr_run late_stopped))) ''late'' = Some 3 \<and> 3 \<notin> set (sr_closed late_stopped)
    \<and> rr_open (sr_run late_stopped) = []"
  using late_stopped_reachable by (simp add: late_defs)

theorem shutdown_misses_only_late_comers_witness:
  "set (jsmap_values (worker_get_all (rr_registry one_worker))) = {1}
    \<and> {1} \<subseteq> set (sr_closed late_stopped)
    \<and> set (sr_open_streams late_stopped) \<union> set (rr_open (sr_run late_stopped)) \<subseteq> {4..}"
proof -
  have "streams_inv (begin_shutdown one_worker new_events_registry [])"
    by (simp add: streams_inv_def late_defs)
  moreover have "sr_stage late_stopped = Stopped" "sr_collected late_stopped = 4"
    "set (jsmap_values (worker_get_all (rr_registry one_worker))) = {1}" by (simp_all add: late_defs)
  ultimately show ?thesis
    using shutdown_misses_only_late_comers [OF one_worker_reachable [of True] _ late_stopped_reachable] by auto
qed

section \<open>The undisturbed hook\<close>

text \<open>
  If nothing comes between, the steps are the sequential hook of \<open>Lifecycle\<close>: the workers are closed
  in order, then the streams, then every owned connection is hung up.
\<close>

lemma undisturbed_workers:
  "(shutdown_step exclusive)\<^sup>*\<^sup>* (s\<lparr>sr_stage := Closing_workers hs\<rparr>)
    (s\<lparr>sr_stage := Closing_workers [], sr_closed := rev hs @ sr_closed s\<rparr>)"
proof (induction hs arbitrary: s)
  case (Cons h hs)
  let ?s = "s\<lparr>sr_stage := Closing_workers (h # hs)\<rparr>" and ?t = "s\<lparr>sr_closed := h # sr_closed s\<rparr>"
  have "shutdown_step exclusive ?s (close_next_worker h hs ?s)" by (rule worker_done) simp
  also have "close_next_worker h hs ?s = ?t\<lparr>sr_stage := Closing_workers hs\<rparr>" by (simp add: close_next_worker_def)
  finally have "shutdown_step exclusive ?s (?t\<lparr>sr_stage := Closing_workers hs\<rparr>)" .
  from converse_rtranclp_into_rtranclp [where r = "shutdown_step exclusive", OF this Cons.IH [of ?t]] show ?case by simp
qed simp

lemma undisturbed_connections:
  "\<exists>t. (shutdown_step exclusive)\<^sup>*\<^sup>* (s\<lparr>sr_stage := Hanging_up cs\<rparr>) t \<and> sr_stage t = Stopped \<and> sr_closed t = sr_closed s
    \<and> sr_collected t = sr_collected s
    \<and> set (sr_open_streams t) = set (sr_open_streams s) - set cs
    \<and> set (rr_open (sr_run t)) = set (rr_open (sr_run s)) - set cs"
proof (induction cs arbitrary: s)
  case Nil
  have "shutdown_step exclusive (s\<lparr>sr_stage := Hanging_up []\<rparr>) (s\<lparr>sr_stage := Hanging_up [], sr_stage := Stopped\<rparr>)"
    by (rule hook_done) simp
  then show ?case by (intro exI [of _ "s\<lparr>sr_stage := Stopped\<rparr>"]) auto
next
  case (Cons c cs)
  let ?s = "s\<lparr>sr_stage := Hanging_up (c # cs)\<rparr>" and ?u = "hang_up_next c cs s"
  have 1: "shutdown_step exclusive ?s (hang_up_next c cs ?s)" by (rule connection_done) simp
  have u: "hang_up_next c cs ?s = ?u\<lparr>sr_stage := Hanging_up cs\<rparr>" by (simp add: hang_up_next_def)
  obtain t where t: "(shutdown_step exclusive)\<^sup>*\<^sup>* (?u\<lparr>sr_stage := Hanging_up cs\<rparr>) t" "sr_stage t = Stopped" "sr_closed t = sr_closed ?u"
    "sr_collected t = sr_collected ?u"
    "set (sr_open_streams t) = set (sr_open_streams ?u) - set cs"
    "set (rr_open (sr_run t)) = set (rr_open (sr_run ?u)) - set cs"
    using Cons.IH [of ?u] by blast
  from converse_rtranclp_into_rtranclp [where r = "shutdown_step exclusive", OF 1 [unfolded u] t(1)] t(2-) show ?case
    by (intro exI [of _ t]) (auto simp: hang_up_next_def)
qed

lemma undisturbed_streams:
  assumes "p + length hs = length (ev_events (sr_events s))" and "hs = drop p (jsmap_values (ev_events (sr_events s)))"
  shows "(shutdown_step exclusive)\<^sup>*\<^sup>* (s\<lparr>sr_stage := Closing_streams p\<rparr>)
    (s\<lparr>sr_stage := Closing_streams (p + length hs), sr_closed := rev hs @ sr_closed s\<rparr>)"
  using assms
proof (induction hs arbitrary: s p)
  case (Cons h hs)
  let ?s = "s\<lparr>sr_stage := Closing_streams p\<rparr>" and ?t = "s\<lparr>sr_closed := h # sr_closed s\<rparr>"
  have p: "p < length (ev_events (sr_events s))" using Cons.prems(1) by simp
  have h: "snd (ev_events (sr_events s) ! p) = h" "hs = drop (Suc p) (jsmap_values (ev_events (sr_events s)))"
    using Cons.prems(2) p by (auto simp: jsmap_values_def Cons_nth_drop_Suc [symmetric])
  have "shutdown_step exclusive ?s (close_stream p ?s)" by (rule stream_done) (use p in \<open>simp_all add: events_get_all_def\<close>)
  moreover have "close_stream p ?s = ?t\<lparr>sr_stage := Closing_streams (Suc p)\<rparr>"
    using h(1) by (simp add: close_stream_def events_get_all_def)
  ultimately have 1: "shutdown_step exclusive ?s (?t\<lparr>sr_stage := Closing_streams (Suc p)\<rparr>)" by simp
  from Cons.IH [of "Suc p" ?t] Cons.prems(1) h(2)
  have "(shutdown_step exclusive)\<^sup>*\<^sup>* (?t\<lparr>sr_stage := Closing_streams (Suc p)\<rparr>)
      (?t\<lparr>sr_stage := Closing_streams (Suc p + length hs), sr_closed := rev hs @ sr_closed ?t\<rparr>)" by simp
  from converse_rtranclp_into_rtranclp [where r = "shutdown_step exclusive", OF 1 this] show ?case by simp
qed simp

lemma undisturbed_shutdown_stops:
  "\<exists>t. (shutdown_step exclusive)\<^sup>*\<^sup>* (begin_shutdown run ev streams) t \<and> sr_stage t = Stopped \<and> sr_collected t = rr_next run
    \<and> sr_closed t = rev (jsmap_values (worker_get_all (rr_registry run)) @ jsmap_values (events_get_all ev))
    \<and> set (sr_open_streams t) = set streams - set (owned_connections (rr_registry run) ev)
    \<and> set (rr_open (sr_run t)) = set (rr_open run) - set (owned_connections (rr_registry run) ev)"
proof -
  let ?hs = "jsmap_values (worker_get_all (rr_registry run))" and ?es = "jsmap_values (ev_events ev)"
  let ?s = "begin_shutdown run ev streams"
  let ?s1 = "?s\<lparr>sr_stage := Closing_workers [], sr_closed := rev ?hs\<rparr>"
  let ?s2 = "?s1\<lparr>sr_stage := Closing_streams 0\<rparr>"
  let ?s3 = "?s1\<lparr>sr_stage := Closing_streams (length ?es), sr_closed := rev ?es @ rev ?hs\<rparr>"
  let ?cs = "owned_connections (rr_registry run) ev"
  let ?c = "?s3\<lparr>sr_collected := rr_next run\<rparr>"
  have "?s = ?s\<lparr>sr_stage := Closing_workers ?hs\<rparr>" by (simp add: begin_shutdown_def)
  then have 1: "(shutdown_step exclusive)\<^sup>*\<^sup>* ?s ?s1"
    using undisturbed_workers [where s = ?s and hs = ?hs] by (simp add: begin_shutdown_def)
  have 2: "shutdown_step exclusive ?s1 ?s2" using workers_drained [of ?s1] by simp
  have 3: "(shutdown_step exclusive)\<^sup>*\<^sup>* ?s2 ?s3"
    using undisturbed_streams [where p = 0 and hs = ?es and s = ?s1] by (simp add: begin_shutdown_def jsmap_values_def)
  have "shutdown_step exclusive ?s3 (collect_connections ?s3)"
    by (rule streams_done [where p = "length ?es"]) (simp_all add: begin_shutdown_def events_get_all_def jsmap_values_def)
  then have 4: "shutdown_step exclusive ?s3 (?c\<lparr>sr_stage := Hanging_up ?cs\<rparr>)"
    by (simp add: collect_connections_def begin_shutdown_def)
  obtain t where t: "(shutdown_step exclusive)\<^sup>*\<^sup>* (?c\<lparr>sr_stage := Hanging_up ?cs\<rparr>) t" "sr_stage t = Stopped" "sr_closed t = sr_closed ?c" "sr_collected t = sr_collected ?c"
    "set (sr_open_streams t) = set (sr_open_streams ?c) - set ?cs"
    "set (rr_open (sr_run t)) = set (rr_open (sr_run ?c)) - set ?cs"
    using undisturbed_connections by blast
  from 1 2 3 4 t(1) have "(shutdown_step exclusive)\<^sup>*\<^sup>* ?s t" by (meson rtranclp.rtrancl_into_rtrancl rtranclp_trans)
  with t(2-) show ?thesis by (intro exI [of _ t]) (simp add: begin_shutdown_def events_get_all_def)
qed

text \<open>
  Without that discipline the hook can leave a connection behind that was open before it began: the
  worker that two overlapping removals lost is on none of its lists.
\<close>

lemma lost_worker_survives_the_shutdown:
  "\<exists>run s c. (registry_step False)\<^sup>*\<^sup>* start_registry run
    \<and> (shutdown_step False)\<^sup>*\<^sup>* (begin_shutdown run new_events_registry []) s \<and> sr_stage s = Stopped
    \<and> c \<in> set (rr_open run) \<and> c \<in> set (rr_open (sr_run s)) \<and> c < sr_collected s"
proof -
  obtain t where t: "(shutdown_step False)\<^sup>*\<^sup>* (begin_shutdown lost_worker new_events_registry []) t"
    "sr_stage t = Stopped" "sr_collected t = rr_next lost_worker"
    "set (rr_open (sr_run t)) = set (rr_open lost_worker) - set (owned_connections (rr_registry lost_worker) new_events_registry)"
    using undisturbed_shutdown_stops [of False lost_worker new_events_registry "[]"] by blast
  moreover have "rr_open lost_worker = [4]" "4 < rr_next lost_worker"
    "owned_connections (rr_registry lost_worker) new_events_registry = []"
    by (simp_all add: lost_worker_def race_defs late_defs)
  ultimately show ?thesis using lost_worker_reachable by fastforce
qed

end
