(* ===== verification/QueueClosing.thy ===== *)
theory QueueClosing
  imports Queues
begin

text \<open>
  \<open>closeAll\<close> when other operations run while it awaits
  (\<open>src/src/server/services/queue.service.ts\<close>). The loop iterates the live map: a queue created
  meanwhile goes to the end of the map and is visited too. The loop ends, and the cache is cleared,
  in the same turn in which the iterator finds nothing more.
\<close>

section \<open>State and steps\<close>

record closing_run =
  cr_cache :: "(string, nat) jsmap"
  cr_position :: nat
  cr_closed :: "nat list"
  cr_handed_out :: "nat list"
  cr_next :: nat
  cr_done :: bool

definition begin_closing :: "(string, nat) jsmap \<Rightarrow> nat \<Rightarrow> closing_run" where
  "begin_closing cache next_id =
    \<lparr>cr_cache = cache, cr_position = 0, cr_closed = [], cr_handed_out = [], cr_next = next_id, cr_done = False\<rparr>"

text \<open>One turn of the loop: the next queue of the live map, or the end of the loop.\<close>

definition visit_next :: "closing_run \<Rightarrow> closing_run" where
  "visit_next s =
    (if cr_done s then s
     else if cr_position s < length (cr_cache s)
       then s\<lparr>cr_closed := cr_closed s @ [snd (cr_cache s ! cr_position s)], cr_position := Suc (cr_position s)\<rparr>
     else s\<lparr>cr_cache := [], cr_done := True\<rparr>)"

text \<open>Meanwhile: \<open>getOrCreateQueue\<close> of any name.\<close>

definition lookup_meanwhile :: "string \<Rightarrow> closing_run \<Rightarrow> closing_run" where
  "lookup_meanwhile n s =
    (case map_of (cr_cache s) n of
       Some h \<Rightarrow> s\<lparr>cr_handed_out := cr_handed_out s @ [h]\<rparr>
     | None \<Rightarrow> s\<lparr>cr_cache := AList.update n (cr_next s) (cr_cache s),
                 cr_handed_out := cr_handed_out s @ [cr_next s], cr_next := Suc (cr_next s)\<rparr>)"

datatype closing_op = VisitNext | LookupMeanwhile string

fun closing_step :: "closing_op \<Rightarrow> closing_run \<Rightarrow> closing_run" where
  "closing_step VisitNext s = visit_next s"
| "closing_step (LookupMeanwhile n) s = lookup_meanwhile n s"

definition closing_run_of :: "closing_op list \<Rightarrow> closing_run \<Rightarrow> closing_run" where
  "closing_run_of ops s = fold closing_step ops s"

section \<open>Properties\<close>

text \<open>While the loop runs, the closed queues are the visited part of the cache.\<close>

definition closing_inv :: "closing_run \<Rightarrow> bool" where
  "closing_inv s \<longleftrightarrow> \<not> cr_done s \<longrightarrow>
     cr_position s \<le> length (cr_cache s) \<and> cr_closed s = map snd (take (cr_position s) (cr_cache s))
   \<and> set (cr_handed_out s) \<subseteq> set (jsmap_values (cr_cache s))"

lemma closing_inv_visit: "closing_inv s \<Longrightarrow> closing_inv (visit_next s)"
  by (auto simp: closing_inv_def visit_next_def take_Suc_conv_app_nth)

lemma closing_inv_lookup: "closing_inv s \<Longrightarrow> closing_inv (lookup_meanwhile n s)"
  by (auto simp: closing_inv_def lookup_meanwhile_def update_absent jsmap_values_def split: option.splits
      dest!: map_of_SomeD) force

lemma closing_inv_step: "closing_inv s \<Longrightarrow> closing_inv (closing_step opn s)"
  by (cases opn) (auto intro: closing_inv_visit closing_inv_lookup)

lemma closing_inv_run: "closing_inv s \<Longrightarrow> closing_inv (closing_run_of ops s)"
  unfolding closing_run_of_def by (rule fold_inv) (auto intro: closing_inv_step)

lemma begin_closing_inv: "closing_inv (begin_closing cache k)"
  by (simp add: closing_inv_def begin_closing_def)

text \<open>The cache only grows at its end until the loop is done.\<close>

lemma closing_keeps_prefix:
  "\<not> cr_done (closing_run_of ops s) \<Longrightarrow> \<exists>more. cr_cache (closing_run_of ops s) = cr_cache s @ more"
proof (induction ops rule: rev_induct)
  case (snoc opn ops)
  have stays: "cr_done t \<Longrightarrow> cr_done (closing_step opn t)" for t
    by (cases opn) (auto simp: visit_next_def lookup_meanwhile_def split: option.splits)
  have run: "closing_run_of (ops @ [opn]) s = closing_step opn (closing_run_of ops s)"
    by (simp add: closing_run_of_def)
  with snoc.prems stays have "\<not> cr_done (closing_run_of ops s)" by metis
  with snoc.IH obtain more where "cr_cache (closing_run_of ops s) = cr_cache s @ more" by blast
  then show ?case using snoc.prems unfolding run
    by (cases opn) (auto simp: visit_next_def lookup_meanwhile_def update_absent split: option.splits if_splits)
qed (simp add: closing_run_of_def)

text \<open>
  C21. \<open>closeAll\<close> misses no queue, whatever is created while it awaits: at the turn that empties the
  cache, exactly the cached queues, the ones that were there at the start first and the ones created
  meanwhile after them, have been closed, each once and in order, and every queue handed out
  meanwhile is among them.
\<close>

theorem closing_misses_no_queue:
  assumes "s = closing_run_of ops (begin_closing cache k)" and "\<not> cr_done s" and "cr_done (visit_next s)"
  shows "\<exists>more. cr_cache s = cache @ more
    \<and> cr_closed (visit_next s) = jsmap_values cache @ map snd more
    \<and> set (cr_handed_out s) \<subseteq> set (cr_closed (visit_next s)) \<and> cr_cache (visit_next s) = []"
proof -
  obtain more where more: "cr_cache s = cache @ more"
    using closing_keeps_prefix [of ops "begin_closing cache k"] assms(1,2) by (auto simp: begin_closing_def)
  have "closing_inv s" using closing_inv_run [OF begin_closing_inv] assms(1) by simp
  with assms(2,3) more show ?thesis
    by (auto simp: closing_inv_def visit_next_def jsmap_values_def split: if_splits)
qed

theorem closing_misses_no_queue_witness:
  "cr_closed (visit_next (closing_run_of [VisitNext, LookupMeanwhile ''b'', VisitNext] (begin_closing [(''a'', 1)] 5)))
    = [1, 5]"
proof -
  let ?s = "closing_run_of [VisitNext, LookupMeanwhile ''b'', VisitNext] (begin_closing [(''a'', 1)] 5)"
  have s: "\<not> cr_done ?s" "cr_done (visit_next ?s)" "cr_cache ?s = [(''a'', 1), (''b'', 5)]"
    by (simp_all add: closing_run_of_def begin_closing_def visit_next_def lookup_meanwhile_def)
  from closing_misses_no_queue [OF refl s(1,2)] s(3) show ?thesis by (auto simp: jsmap_values_def)
qed

end
