(* ===== verification/NestModule.thy ===== *)
theory NestModule
  imports Connection
begin

text \<open>
  The dynamic module (\<open>src/src/server/bymax-queue.module.ts\<close>): the two registration paths and the
  provider graph they hand to Nest. What Nest's configurable module builder contributes (the
  provider of the raw options, the imports of the asynchronous path) is an argument. A provider is
  its token, the tokens it injects, and what its factory does.
\<close>

section \<open>The provider graph\<close>

datatype token =
    OptionsToken | OptionsAlias | ResolvedToken | ClientToken | ModeToken | DiscoveryToken
  | ResolverToken | QueueToken | FlowToken | MetricsToken | WorkersToken | EventsToken
  | ProcessorsToken | LifecycleToken

datatype body =
    GivenOptions | SameAs token | GivenResolved resolved_options | ValidateAndResolve
  | OpenConnection | ReadClient | ReadMode | MakeFlow | MakeMetrics | MakeClass

record nest_provider =
  np_provide :: token
  np_inject :: "token list"
  np_body :: body

record dynamic_module =
  dm_imports :: "string list"
  dm_providers :: "nest_provider list"
  dm_exports :: "token list"
  dm_global :: bool

abbreviation provides :: "token \<Rightarrow> token list \<Rightarrow> body \<Rightarrow> nest_provider" where
  "provides t i b \<equiv> \<lparr>np_provide = t, np_inject = i, np_body = b\<rparr>"

definition build_core_providers :: "nest_provider list" where
  "build_core_providers =
    [provides OptionsAlias [OptionsToken] (SameAs OptionsToken),
     provides ResolverToken [OptionsAlias] OpenConnection,
     provides ClientToken [ResolverToken] ReadClient,
     provides ModeToken [ResolverToken] ReadMode,
     provides QueueToken [ResolverToken, ResolvedToken] MakeClass,
     provides WorkersToken [ResolverToken, ResolvedToken] MakeClass,
     provides EventsToken [ResolverToken, ResolvedToken] MakeClass,
     provides ProcessorsToken [DiscoveryToken, WorkersToken, EventsToken] MakeClass,
     provides LifecycleToken [WorkersToken, EventsToken, QueueToken, FlowToken, ResolverToken, ResolvedToken] MakeClass]"

definition build_exports :: "token list" where
  "build_exports = [QueueToken, FlowToken, MetricsToken, ResolverToken, WorkersToken, EventsToken,
     OptionsAlias, ResolvedToken, ClientToken, ModeToken]"

definition for_root ::
    "url_parser \<Rightarrow> nest_provider list \<Rightarrow> module_options \<Rightarrow> dynamic_module outcome" where
  "for_root parse base opts =
    (case validate_options parse opts of
       Throws x \<Rightarrow> Throws x
     | Hangs \<Rightarrow> Hangs
     | Returns _ \<Rightarrow> Returns
        \<lparr>dm_imports = [''DiscoveryModule''],
         dm_providers = base
           @ [provides ResolvedToken [] (GivenResolved (apply_defaults opts)),
              provides FlowToken [ResolverToken] MakeFlow,
              provides MetricsToken [QueueToken] MakeMetrics]
           @ build_core_providers,
         dm_exports = build_exports,
         dm_global = opt_default (mo_isGlobal opts) True\<rparr>)"

definition for_root_async :: "string list \<Rightarrow> nest_provider list \<Rightarrow> bool option \<Rightarrow> dynamic_module" where
  "for_root_async extra base isGlobal =
    \<lparr>dm_imports = ''DiscoveryModule'' # extra,
     dm_providers = base
       @ [provides ResolvedToken [OptionsToken] ValidateAndResolve,
          provides FlowToken [ResolverToken, ResolvedToken] MakeFlow,
          provides MetricsToken [QueueToken, ResolvedToken] MakeMetrics]
       @ build_core_providers,
     dm_exports = build_exports,
     dm_global = opt_default isGlobal True\<rparr>"

section \<open>Instantiation\<close>

text \<open>
  Nest creates a provider once everything it injects exists; beyond that the order is its own. The
  discovery service comes with the imported module.
\<close>

fun injectable :: "token list \<Rightarrow> nest_provider list \<Rightarrow> bool" where
  "injectable known [] = True"
| "injectable known (p # ps) = (set (np_inject p) \<subseteq> set known \<and> injectable (np_provide p # known) ps)"

definition creation_order :: "nest_provider list \<Rightarrow> nest_provider list \<Rightarrow> bool" where
  "creation_order ps order \<longleftrightarrow> distinct order \<and> set order = set ps \<and> injectable [DiscoveryToken] order"

text \<open>
  Creating the providers in an order, as far as it concerns the options and the connection: the
  state is the resolver, once there is one, and the world. The first failure ends the start of the
  application.
\<close>

definition create ::
    "env \<Rightarrow> url_parser \<Rightarrow> module_options \<Rightarrow> nest_provider \<Rightarrow> resolver option \<times> world
     \<Rightarrow> unit outcome \<times> resolver option \<times> world" where
  "create E parse opts p s =
    (case np_body p of
       ValidateAndResolve \<Rightarrow> (validate_options parse opts, s)
     | OpenConnection \<Rightarrow> (let (res, r, w) = init E opts (snd s) in (res, (Some r, w)))
     | _ \<Rightarrow> (Returns (), s))"

fun start_up ::
    "env \<Rightarrow> url_parser \<Rightarrow> module_options \<Rightarrow> nest_provider list \<Rightarrow> resolver option \<times> world
     \<Rightarrow> unit outcome \<times> resolver option \<times> world" where
  "start_up E parse opts [] s = (Returns (), s)"
| "start_up E parse opts (p # ps) s =
     andthen (create E parse opts p s) (\<lambda>_ s1. start_up E parse opts ps s1)"

section \<open>Properties\<close>

text \<open>
  The two registration paths give the same graph: the same tokens in the same order, the same
  exports and visibility, no token provided twice, every exported token provided, and every injected
  token provided in the module or (the discovery service) imported.
\<close>

lemma registration_paths_agree:
  assumes "for_root parse [provides OptionsToken [] GivenOptions] opts = Returns m"
    and "a = for_root_async extra [provides OptionsToken [] GivenOptions] (mo_isGlobal opts)"
  shows "map np_provide (dm_providers m) = map np_provide (dm_providers a)
    \<and> dm_exports m = dm_exports a \<and> dm_global m = dm_global a
    \<and> set (dm_exports m) \<subseteq> set (map np_provide (dm_providers m))
    \<and> distinct (map np_provide (dm_providers m))
    \<and> (\<forall>p \<in> set (dm_providers m) \<union> set (dm_providers a).
         set (np_inject p) \<subseteq> insert DiscoveryToken (set (map np_provide (dm_providers m))))"
proof -
  have m: "m = \<lparr>dm_imports = [''DiscoveryModule''],
      dm_providers = [provides OptionsToken [] GivenOptions]
        @ [provides ResolvedToken [] (GivenResolved (apply_defaults opts)),
           provides FlowToken [ResolverToken] MakeFlow, provides MetricsToken [QueueToken] MakeMetrics]
        @ build_core_providers,
      dm_exports = build_exports, dm_global = opt_default (mo_isGlobal opts) True\<rparr>"
    using assms(1) by (simp add: for_root_def split: result.splits)
  show ?thesis
    unfolding m assms(2) for_root_async_def build_core_providers_def build_exports_def by simp
qed

text \<open>
  In the synchronous path a rejected configuration stops everything: no module comes out, so
  no provider is ever created and no connection opened.
\<close>

lemma for_root_rejects_before_anything:
  "(\<exists>m. for_root parse base opts = Returns m) \<longleftrightarrow> validate_options parse opts = Returns ()"
  by (auto simp: for_root_def split: result.splits)

text \<open>The order of the asynchronous path in which the connection comes first.\<close>

definition connect_first :: "nest_provider list" where
  "connect_first =
    [provides OptionsToken [] GivenOptions, provides OptionsAlias [OptionsToken] (SameAs OptionsToken),
     provides ResolverToken [OptionsAlias] OpenConnection, provides ResolvedToken [OptionsToken] ValidateAndResolve,
     provides ClientToken [ResolverToken] ReadClient, provides ModeToken [ResolverToken] ReadMode,
     provides QueueToken [ResolverToken, ResolvedToken] MakeClass,
     provides FlowToken [ResolverToken, ResolvedToken] MakeFlow,
     provides MetricsToken [QueueToken, ResolvedToken] MakeMetrics,
     provides WorkersToken [ResolverToken, ResolvedToken] MakeClass,
     provides EventsToken [ResolverToken, ResolvedToken] MakeClass,
     provides ProcessorsToken [DiscoveryToken, WorkersToken, EventsToken] MakeClass,
     provides LifecycleToken [WorkersToken, EventsToken, QueueToken, FlowToken, ResolverToken, ResolvedToken] MakeClass]"

lemma connect_first_legal:
  "creation_order (dm_providers (for_root_async extra [provides OptionsToken [] GivenOptions] g)) connect_first"
  unfolding creation_order_def
proof (intro conjI)
  have "distinct (map np_provide connect_first)" by (simp add: connect_first_def)
  then show "distinct connect_first" by (simp add: distinct_map)
  show "set connect_first = set (dm_providers (for_root_async extra [provides OptionsToken [] GivenOptions] g))"
    unfolding connect_first_def for_root_async_def build_core_providers_def
      dynamic_module.select_convs append_Cons append_Nil list.set
    by (intro equalityI insert_subsetI empty_subsetI; simp only: insert_iff simp_thms)
  show "injectable [DiscoveryToken] connect_first" by (simp add: connect_first_def)
qed

definition empty_connection :: module_options where
  "empty_connection = (url_only [])\<lparr>mo_connection := Obj []\<rparr>"

text \<open>
  In the asynchronous path nothing makes the connection wait for the validation: the resolver
  does not depend, even indirectly, on the validated options, and there is an order in which Nest
  may create the providers where a configuration the validation rejects has already opened a
  client, which stays open when the start fails.
\<close>

lemma async_path_can_connect_before_validating:
  "\<exists>order x r w c. creation_order
       (dm_providers (for_root_async extra [provides OptionsToken [] GivenOptions] g)) order
     \<and> start_up quiet_env parse empty_connection order (None, start_world) = (Throws x, (Some r, w))
     \<and> exn_code x = Some (code_string INVALID_OPTIONS)
     \<and> r_client r = Some c \<and> (\<exists>u op. RedisNew c u op \<in> set (w_calls w)) \<and> c \<notin> released (w_calls w)"
proof -
  have run: "start_up quiet_env parse empty_connection connect_first (None, start_world) =
      (invalid_option ''connection must specify client | url | options'',
       (Some \<lparr>r_client = Some 1, r_mode = Some Mode_B_owned\<rparr>,
        \<lparr>w_now = 0, w_next = 2, w_calls = [RedisNew 1 Undef (owned_options Undef)], w_log = []\<rparr>))"
    by (simp add: connect_first_def create_def init_def open_owned_def empty_connection_def url_only_def
        has_key_def field_def wait_ready_def start_world_def Let_def log_call_def validate_options_def
        invalid_option_def raise_code_def)
  show ?thesis
    by (rule exI [of _ connect_first])
      (use run connect_first_legal in \<open>auto simp: invalid_option_def raise_code_def\<close>)
qed

lemma registration_paths_agree_witness:
  "\<exists>m. for_root (\<lambda>_. None) [provides OptionsToken [] GivenOptions]
        ((url_only [])\<lparr>mo_connection := Obj [(''client'', Ref 0)]\<rparr>) = Returns m
     \<and> dm_exports m = build_exports \<and> dm_global m"
proof -
  let ?opts = "(url_only [])\<lparr>mo_connection := Obj [(''client'', Ref 0)]\<rparr>"
  obtain m where run: "for_root (\<lambda>_. None) [provides OptionsToken [] GivenOptions] ?opts = Returns m"
    by (simp add: for_root_def validate_options_def url_only_def has_key_def field_def Let_def
        drain_timeout_of_def cache_ttl_of_def)
  from registration_paths_agree [OF run refl, of "[]"] run show ?thesis
    by (auto simp: for_root_async_def url_only_def)
qed

end
