(* ===== verification/JsText.thy ===== *)
theory JsText
  imports JsValues "HOL-Library.List_Lexorder" "HOL-Library.Char_ord"
begin

text \<open>
  The string operations of the language that the maintenance scripts (\<open>src/scripts/\<close>) use:
  \<open>slice\<close>, \<open>split\<close>, \<open>join\<close>, \<open>trim\<close>, \<open>toLowerCase\<close>, \<open>indexOf\<close>, \<open>String(n)\<close> and \<open>Number(s)\<close> of a
  digit string. Strings are ordered by code unit, the order of \<open>sort()\<close> without a comparator
  (the lexicographic instance of the library).
\<close>

section \<open>Splitting and joining\<close>

fun split_on :: "'a \<Rightarrow> 'a list \<Rightarrow> 'a list list" where
  "split_on c [] = [[]]"
| "split_on c (x # xs) =
    (if x = c then [] # split_on c xs
     else (x # hd (split_on c xs)) # tl (split_on c xs))"

fun join_with :: "'a list \<Rightarrow> 'a list list \<Rightarrow> 'a list" where
  "join_with sep [] = []"
| "join_with sep [l] = l"
| "join_with sep (l # k # ls) = l @ sep @ join_with sep (k # ls)"

abbreviation newline :: char where
  "newline \<equiv> CHR 0x0A"

abbreviation lines_of :: "string \<Rightarrow> string list" where
  "lines_of s \<equiv> split_on newline s"

abbreviation unlines :: "string list \<Rightarrow> string" where
  "unlines ls \<equiv> join_with [newline] ls"

lemma split_on_nonempty [simp]: "split_on c xs \<noteq> []"
  by (cases xs) auto

lemma length_split_on: "length (split_on c xs) = Suc (count_list xs c)"
  by (induction xs) auto

lemma split_on_pieces: "l \<in> set (split_on c xs) \<Longrightarrow> c \<notin> set l"
proof (induction xs arbitrary: l)
  case (Cons x xs)
  then show ?case
    by (cases "split_on c xs") (auto split: if_splits)
qed simp

lemma join_Cons_head: "join_with sep ((x # l) # ls) = x # join_with sep (l # ls)"
  by (cases ls) auto

lemma join_split [simp]: "join_with [c] (split_on c xs) = xs"
proof (induction xs)
  case (Cons x xs)
  obtain l ls where "split_on c xs = l # ls" by (cases "split_on c xs") auto
  with Cons show ?case by (auto simp: join_Cons_head)
qed simp

lemma split_no_sep: "c \<notin> set l \<Longrightarrow> split_on c l = [l]"
  by (induction l) auto

lemma split_append_sep: "c \<notin> set l \<Longrightarrow> split_on c (l @ c # xs) = l # split_on c xs"
  by (induction l) auto

lemma split_join:
  assumes "ls \<noteq> []" and "\<And>l. l \<in> set ls \<Longrightarrow> c \<notin> set l"
  shows "split_on c (join_with [c] ls) = ls"
  using assms by (induction "[c]" ls rule: join_with.induct) (auto simp: split_no_sep split_append_sep)

lemma join_with_inj:
  assumes "join_with [c] ls = join_with [c] ks" and "ls \<noteq> []" and "ks \<noteq> []"
    and "\<And>l. l \<in> set ls \<Longrightarrow> c \<notin> set l" and "\<And>l. l \<in> set ks \<Longrightarrow> c \<notin> set l"
  shows "ls = ks"
  by (metis assms split_join)

text \<open>A \<open>Set\<close> iterates in the order of first insertion.\<close>

definition to_set :: "'a list \<Rightarrow> 'a list" where
  "to_set xs = rev (remdups (rev xs))"

lemma set_to_set [simp]: "set (to_set xs) = set xs"
  by (simp add: to_set_def)

section \<open>Searching\<close>

fun find_index :: "('a \<Rightarrow> bool) \<Rightarrow> 'a list \<Rightarrow> nat option" where
  "find_index P [] = None"
| "find_index P (x # xs) = (if P x then Some 0 else map_option Suc (find_index P xs))"

lemma find_index_None: "find_index P xs = None \<longleftrightarrow> (\<forall>x\<in>set xs. \<not> P x)"
  by (induction xs) auto

lemma find_index_Some:
  "find_index P xs = Some i \<longleftrightarrow> i < length xs \<and> P (xs ! i) \<and> (\<forall>j<i. \<not> P (xs ! j))"
proof (induction xs arbitrary: i)
  case (Cons x xs)
  then show ?case by (cases i) (auto simp: less_Suc_eq_0_disj nth_Cons')
qed simp

lemma find_index_takeWhile:
  "find_index P xs = Some i \<Longrightarrow> takeWhile (\<lambda>x. \<not> P x) xs = take i xs"
  by (induction xs arbitrary: i) (auto split: if_splits)

definition ends_with :: "string \<Rightarrow> string \<Rightarrow> bool" where
  "ends_with p s \<longleftrightarrow> starts_with (rev p) (rev s)"

lemma ends_with_iff: "ends_with p s \<longleftrightarrow> (\<exists>r. s = r @ p)"
  unfolding ends_with_def starts_with_iff by (metis rev_append rev_rev_ident)

fun includes_text :: "string \<Rightarrow> string \<Rightarrow> bool" where
  "includes_text p [] = (p = [])"
| "includes_text p (c # s) = (starts_with p (c # s) \<or> includes_text p s)"

text \<open>\<open>s.slice(i, j)\<close> for non-negative bounds.\<close>

definition substring :: "nat \<Rightarrow> nat \<Rightarrow> 'a list \<Rightarrow> 'a list" where
  "substring i j s = take (j - i) (drop i s)"

lemma length_substring [simp]: "length (substring i j s) = min (j - i) (length s - i)"
  by (simp add: substring_def)

lemma substring_empty [simp]: "j \<le> i \<Longrightarrow> substring i j s = []"
  by (simp add: substring_def)

lemma substring_append:
  assumes "i \<le> j" and "j \<le> k"
  shows "substring i j s @ substring j k s = substring i k s"
proof -
  from assms obtain a b where "j = i + a" and "k = i + (a + b)"
    by (metis add.assoc le_Suc_ex)
  then show ?thesis by (simp add: substring_def take_add drop_drop add.commute)
qed

section \<open>White space and letters\<close>

definition trim_end :: "string \<Rightarrow> string" where
  "trim_end s = rev (dropWhile js_space (rev s))"

definition trim :: "string \<Rightarrow> string" where
  "trim s = trim_end (dropWhile js_space s)"

lemma trim_end_blank: "trim_end s = [] \<longleftrightarrow> blank s"
  by (simp add: trim_end_def blank_def list_all_iff)

lemma trim_empty_iff: "trim s = [] \<longleftrightarrow> blank s"
proof -
  have "blank (dropWhile js_space s) \<longleftrightarrow> blank s"
    by (induction s) (auto simp: blank_def)
  then show ?thesis by (simp add: trim_def trim_end_blank)
qed

lemma trim_end_split: "\<exists>t. s = trim_end s @ t \<and> blank t"
proof -
  have "s = trim_end s @ rev (takeWhile js_space (rev s))"
    unfolding trim_end_def by (metis rev_append rev_rev_ident takeWhile_dropWhile_id)
  moreover have "blank (rev (takeWhile js_space (rev s)))"
    by (auto simp: blank_def list_all_iff dest: set_takeWhileD)
  ultimately show ?thesis by blast
qed

definition lower_char :: "char \<Rightarrow> char" where
  "lower_char c =
    (let n = of_char c :: nat
     in if 65 \<le> n \<and> n \<le> 90 \<or> 192 \<le> n \<and> n \<le> 222 \<and> n \<noteq> 215 then char_of (n + 32) else c)"

definition to_lower :: "string \<Rightarrow> string" where
  "to_lower s = map lower_char s"

section \<open>Decimal numbers\<close>

definition is_digit :: "char \<Rightarrow> bool" where
  "is_digit c \<longleftrightarrow> CHR ''0'' \<le> c \<and> c \<le> CHR ''9''"

definition digit_value :: "char \<Rightarrow> nat" where
  "digit_value c = of_char c - 48"

definition digit_char :: "nat \<Rightarrow> char" where
  "digit_char d = char_of (d + 48)"

fun decimal :: "nat \<Rightarrow> string" where
  "decimal n = (if n < 10 then [digit_char n] else decimal (n div 10) @ [digit_char (n mod 10)])"

declare decimal.simps [simp del]

text \<open>\<open>Number(s)\<close> of a string of digits; leading zeros are allowed.\<close>

definition number_of :: "string \<Rightarrow> nat" where
  "number_of s = foldl (\<lambda>n c. 10 * n + digit_value c) 0 s"

lemma is_digit_code: "is_digit c \<longleftrightarrow> 48 \<le> (of_char c :: nat) \<and> (of_char c :: nat) \<le> 57"
  by (simp add: is_digit_def less_eq_char_def)

lemma digit_char_value [simp]: "d < 10 \<Longrightarrow> digit_value (digit_char d) = d"
  by (simp add: digit_value_def digit_char_def)

lemma digit_char_digit [simp]: "d < 10 \<Longrightarrow> is_digit (digit_char d)"
  by (simp add: is_digit_code digit_char_def)

lemma number_of_snoc: "number_of (s @ [c]) = 10 * number_of s + digit_value c"
  by (simp add: number_of_def)

lemma number_of_decimal [simp]: "number_of (decimal n) = n"
proof (induction n rule: decimal.induct)
  case (1 n)
  show ?case
  proof (cases "n < 10")
    case True
    then show ?thesis by (simp add: decimal.simps [of n] number_of_def)
  next
    case False
    with 1 show ?thesis by (simp add: decimal.simps [of n] number_of_snoc)
  qed
qed

lemma decimal_digits: "c \<in> set (decimal n) \<Longrightarrow> is_digit c"
proof (induction n rule: decimal.induct)
  case (1 n)
  then show ?case by (subst (asm) decimal.simps [of n]) (auto split: if_splits)
qed

lemma decimal_all_digits: "list_all is_digit (decimal n)"
  using decimal_digits by (auto simp: list_all_iff)

lemma decimal_nonempty [simp]: "decimal n \<noteq> []"
  by (subst decimal.simps) simp

lemma decimal_inj: "decimal m = decimal n \<longleftrightarrow> m = n"
  by (metis number_of_decimal)

end
