(* ===== verification/JsRegex.thy ===== *)
theory JsRegex
  imports JsText
begin

text \<open>
  The regular expressions of the language, as far as the maintenance scripts use them: an
  executable backtracking matcher in the order the language specifies (an alternative is tried
  before the next one, a greedy quantifier before giving up), and a declarative reading as sets
  of strings for the expressions without anchors or assertions, with the theorem that the
  matcher reaches exactly the positions the declarative reading allows.

  The expressions of the scripts are written as terms of \<open>regex\<close>; a character class is a
  predicate. The flag \<open>m\<close> is an argument of the matcher. The flag \<open>u\<close> makes no difference on
  code units below 256.
\<close>

datatype regex =
    Empty
  | Cls "char \<Rightarrow> bool"
  | Cat regex regex
  | Alt regex regex
  | Opt regex
  | Star bool regex
  | Group nat regex
  | LineStart
  | LineEnd
  | WordBoundary
  | NotAhead regex
  | BackRef nat

section \<open>Notation of the expressions\<close>

abbreviation chr :: "char \<Rightarrow> regex" where
  "chr c \<equiv> Cls (\<lambda>x. x = c)"

fun lit :: "string \<Rightarrow> regex" where
  "lit [] = Empty"
| "lit [c] = chr c"
| "lit (c # cs) = Cat (chr c) (lit cs)"

definition one_of :: "string \<Rightarrow> regex" where
  "one_of cs = Cls (\<lambda>x. x \<in> set cs)"

definition none_of :: "string \<Rightarrow> regex" where
  "none_of cs = Cls (\<lambda>x. x \<notin> set cs)"

fun cats :: "regex list \<Rightarrow> regex" where
  "cats [] = Empty"
| "cats [r] = r"
| "cats (r # rs) = Cat r (cats rs)"

fun alts :: "regex list \<Rightarrow> regex" where
  "alts [] = Cls (\<lambda>_. False)"
| "alts [r] = r"
| "alts (r # rs) = Alt r (alts rs)"

abbreviation many :: "regex \<Rightarrow> regex" where
  "many r \<equiv> Star True r"

abbreviation some :: "regex \<Rightarrow> regex" where
  "some r \<equiv> Cat r (Star True r)"

text \<open>\<open>r{1,n}\<close>, for \<open>n\<close> at least one.\<close>

fun upto_times :: "nat \<Rightarrow> regex \<Rightarrow> regex" where
  "upto_times (Suc (Suc n)) r = Cat r (Opt (upto_times (Suc n) r))"
| "upto_times n r = r"

definition digit :: regex where
  "digit = Cls is_digit"

definition word_char :: "char \<Rightarrow> bool" where
  "word_char c \<longleftrightarrow> is_digit c \<or> c = CHR ''_''
     \<or> list_ex (\<lambda>(first, last). first \<le> c \<and> c \<le> last) [(CHR ''a'', CHR ''z''), (CHR ''A'', CHR ''Z'')]"

definition space :: regex where
  "space = Cls js_space"

text \<open>\<open>.\<close> does not match the line terminators.\<close>

definition line_terminator :: "char \<Rightarrow> bool" where
  "line_terminator c \<longleftrightarrow> c = newline \<or> c = CHR 0x0D"

definition any_char :: regex where
  "any_char = Cls (\<lambda>c. \<not> line_terminator c)"

section \<open>The matcher\<close>

type_synonym captures = "(nat \<times> string) list"
type_synonym mstate = "nat \<times> captures"

primrec groups :: "regex \<Rightarrow> nat list" where
  "groups Empty = []"
| "groups (Cls P) = []"
| "groups (Cat r q) = groups r @ groups q"
| "groups (Alt r q) = groups r @ groups q"
| "groups (Opt r) = groups r"
| "groups (Star g r) = groups r"
| "groups (Group n r) = n # groups r"
| "groups LineStart = []"
| "groups LineEnd = []"
| "groups WordBoundary = []"
| "groups (NotAhead r) = groups r"
| "groups (BackRef n) = []"

text \<open>
  A quantifier: at most \<open>n\<close> more iterations of \<open>f\<close>, each of which has to consume something;
  before an iteration the captures inside the quantified expression are cleared.
\<close>

fun iterate :: "bool \<Rightarrow> (mstate \<Rightarrow> mstate list) \<Rightarrow> nat \<Rightarrow> mstate \<Rightarrow> mstate list" where
  "iterate greedy f 0 st = [st]"
| "iterate greedy f (Suc n) st =
    (let more = concat (map (iterate greedy f n) (filter (\<lambda>st'. fst st' \<noteq> fst st) (f st)))
     in if greedy then more @ [st] else st # more)"

definition cleared :: "regex \<Rightarrow> mstate \<Rightarrow> mstate" where
  "cleared r st = (fst st, filter (\<lambda>(n, _). n \<notin> set (groups r)) (snd st))"

definition at_line_start :: "bool \<Rightarrow> string \<Rightarrow> nat \<Rightarrow> bool" where
  "at_line_start multi s i \<longleftrightarrow> i = 0 \<or> multi \<and> line_terminator (s ! (i - 1))"

definition at_line_end :: "bool \<Rightarrow> string \<Rightarrow> nat \<Rightarrow> bool" where
  "at_line_end multi s i \<longleftrightarrow> i = length s \<or> multi \<and> i < length s \<and> line_terminator (s ! i)"

definition at_word_boundary :: "string \<Rightarrow> nat \<Rightarrow> bool" where
  "at_word_boundary s i \<longleftrightarrow>
    (0 < i \<and> word_char (s ! (i - 1))) \<noteq> (i < length s \<and> word_char (s ! i))"

definition captured :: "captures \<Rightarrow> nat \<Rightarrow> string" where
  "captured cs n = (case map_of cs n of None \<Rightarrow> [] | Some t \<Rightarrow> t)"

primrec successes :: "regex \<Rightarrow> bool \<Rightarrow> string \<Rightarrow> mstate \<Rightarrow> mstate list" where
  "successes Empty multi s st = [st]"
| "successes (Cls P) multi s st =
    (if fst st < length s \<and> P (s ! fst st) then [(Suc (fst st), snd st)] else [])"
| "successes (Cat r q) multi s st = concat (map (successes q multi s) (successes r multi s st))"
| "successes (Alt r q) multi s st = successes r multi s st @ successes q multi s st"
| "successes (Opt r) multi s st = iterate True (\<lambda>t. successes r multi s (cleared r t)) 1 st"
| "successes (Star greedy r) multi s st =
    iterate greedy (\<lambda>t. successes r multi s (cleared r t)) (length s - fst st) st"
| "successes (Group n r) multi s st =
    map (\<lambda>(j, cs). (j, (n, substring (fst st) j s) # cs)) (successes r multi s st)"
| "successes LineStart multi s st = (if at_line_start multi s (fst st) then [st] else [])"
| "successes LineEnd multi s st = (if at_line_end multi s (fst st) then [st] else [])"
| "successes WordBoundary multi s st = (if at_word_boundary s (fst st) then [st] else [])"
| "successes (NotAhead r) multi s st = (if successes r multi s st = [] then [st] else [])"
| "successes (BackRef n) multi s st =
    (if starts_with (captured (snd st) n) (drop (fst st) s)
     then [(fst st + length (captured (snd st) n), snd st)] else [])"

record match =
  m_start :: nat
  m_end :: nat
  m_captures :: captures

definition match_at :: "regex \<Rightarrow> bool \<Rightarrow> string \<Rightarrow> nat \<Rightarrow> match option" where
  "match_at r multi s i =
    (case successes r multi s (i, []) of [] \<Rightarrow> None
     | (j, cs) # _ \<Rightarrow> Some \<lparr>m_start = i, m_end = j, m_captures = cs\<rparr>)"

text \<open>The first match that starts at \<open>i\<close> or later: \<open>exec\<close> with \<open>lastIndex\<close> at \<open>i\<close>.\<close>

fun first_some :: "('a \<Rightarrow> 'b option) \<Rightarrow> 'a list \<Rightarrow> 'b option" where
  "first_some f [] = None"
| "first_some f (x # xs) = (case f x of None \<Rightarrow> first_some f xs | Some y \<Rightarrow> Some y)"

definition exec :: "regex \<Rightarrow> bool \<Rightarrow> string \<Rightarrow> nat \<Rightarrow> match option" where
  "exec r multi s i = first_some (match_at r multi s) [i..<Suc (length s)]"

text \<open>\<open>re.test(s)\<close>, \<open>match[0]\<close> and \<open>match[n]\<close>.\<close>

definition test :: "regex \<Rightarrow> bool \<Rightarrow> string \<Rightarrow> bool" where
  "test r multi s \<longleftrightarrow> exec r multi s 0 \<noteq> None"

definition matched :: "string \<Rightarrow> match \<Rightarrow> string" where
  "matched s m = substring (m_start m) (m_end m) s"

definition group :: "match \<Rightarrow> nat \<Rightarrow> string option" where
  "group m n = map_of (m_captures m) n"

definition the_group :: "match \<Rightarrow> nat \<Rightarrow> string" where
  "the_group m n = captured (m_captures m) n"

text \<open>
  \<open>s.matchAll(re)\<close> with the flag \<open>g\<close>: an empty match moves on by one position. Every match
  starts after the start of the one before, so \<open>length s + 1\<close> rounds reach the end.
\<close>

fun matches_from :: "nat \<Rightarrow> regex \<Rightarrow> bool \<Rightarrow> string \<Rightarrow> nat \<Rightarrow> match list" where
  "matches_from 0 r multi s i = []"
| "matches_from (Suc n) r multi s i =
    (case exec r multi s i of None \<Rightarrow> []
     | Some m \<Rightarrow> m # matches_from n r multi s (if m_end m = m_start m then Suc (m_end m) else m_end m))"

definition match_all :: "regex \<Rightarrow> bool \<Rightarrow> string \<Rightarrow> match list" where
  "match_all r multi s = matches_from (Suc (length s)) r multi s 0"

text \<open>\<open>s.replace(re, f)\<close> with and without the flag \<open>g\<close>.\<close>

fun splice :: "string \<Rightarrow> (match \<Rightarrow> string) \<Rightarrow> nat \<Rightarrow> match list \<Rightarrow> string" where
  "splice s f i [] = drop i s"
| "splice s f i (m # ms) = substring i (m_start m) s @ f m @ splice s f (m_end m) ms"

definition replace_all :: "regex \<Rightarrow> bool \<Rightarrow> (match \<Rightarrow> string) \<Rightarrow> string \<Rightarrow> string" where
  "replace_all r multi f s = splice s f 0 (match_all r multi s)"

definition replace_first :: "regex \<Rightarrow> bool \<Rightarrow> (match \<Rightarrow> string) \<Rightarrow> string \<Rightarrow> string" where
  "replace_first r multi f s = splice s f 0 (case exec r multi s 0 of None \<Rightarrow> [] | Some m \<Rightarrow> [m])"

section \<open>Declarative reading\<close>

inductive_set repeated :: "string set \<Rightarrow> string set" for A where
  repeated_Nil [simp, intro]: "[] \<in> repeated A"
| repeated_step [intro]: "u \<in> A \<Longrightarrow> v \<in> repeated A \<Longrightarrow> u @ v \<in> repeated A"

text \<open>The expressions whose matching does not look around and does not refer to a capture.\<close>

primrec plain :: "regex \<Rightarrow> bool" where
  "plain Empty = True"
| "plain (Cls P) = True"
| "plain (Cat r q) = (plain r \<and> plain q)"
| "plain (Alt r q) = (plain r \<and> plain q)"
| "plain (Opt r) = plain r"
| "plain (Star g r) = plain r"
| "plain (Group n r) = plain r"
| "plain LineStart = False"
| "plain LineEnd = False"
| "plain WordBoundary = False"
| "plain (NotAhead r) = False"
| "plain (BackRef n) = False"

primrec lang :: "regex \<Rightarrow> string set" where
  "lang Empty = {[]}"
| "lang (Cls P) = {[c] | c. P c}"
| "lang (Cat r q) = {u @ v | u v. u \<in> lang r \<and> v \<in> lang q}"
| "lang (Alt r q) = lang r \<union> lang q"
| "lang (Opt r) = insert [] (lang r)"
| "lang (Star g r) = repeated (lang r)"
| "lang (Group n r) = lang r"
| "lang LineStart = {}"
| "lang LineEnd = {}"
| "lang WordBoundary = {}"
| "lang (NotAhead r) = {}"
| "lang (BackRef n) = {}"

definition reaches :: "regex \<Rightarrow> string \<Rightarrow> nat \<Rightarrow> nat \<Rightarrow> bool" where
  "reaches r s i j \<longleftrightarrow> i \<le> j \<and> j \<le> length s \<and> substring i j s \<in> lang r"

lemma reaches_bounds: "reaches r s i j \<Longrightarrow> i \<le> j \<and> j \<le> length s"
  by (simp add: reaches_def)

lemma reaches_Cat: "reaches r s i k \<Longrightarrow> reaches q s k j \<Longrightarrow> reaches (Cat r q) s i j"
  unfolding reaches_def by (auto simp: substring_append [symmetric, of i k j])

lemma reaches_Star_step: "reaches r s i k \<Longrightarrow> reaches (Star g r) s k j \<Longrightarrow> reaches (Star g r) s i j"
  unfolding reaches_def by (auto simp: substring_append [symmetric, of i k j])

lemma reaches_Group: "reaches (Group n r) s i j = reaches r s i j"
  by (simp add: reaches_def)

lemma reaches_Star_refl: "i \<le> length s \<Longrightarrow> reaches (Star g r) s i i"
  by (simp add: reaches_def)

lemma substring_one: "i < length s \<Longrightarrow> substring i (Suc i) s = [s ! i]"
  by (simp add: substring_def take_Suc hd_drop_conv_nth)

lemma iterate_self: "st \<in> set (iterate g f n st)"
  by (cases n) (auto simp: Let_def)

lemma iterate_Suc_set:
  "set (iterate g f (Suc n) st) =
     insert st (\<Union>t \<in> {t \<in> set (f st). fst t \<noteq> fst st}. set (iterate g f n t))"
  by (auto simp: Let_def)

lemma iterate_sound:
  assumes step: "\<And>st t. fst st \<le> length s \<Longrightarrow> t \<in> set (f st) \<Longrightarrow> reaches r s (fst st) (fst t)"
    and "fst st \<le> length s" and "t \<in> set (iterate g f n st)"
  shows "reaches (Star g' r) s (fst st) (fst t)"
  using assms(2,3)
proof (induction n arbitrary: st)
  case 0
  then show ?case by (simp add: reaches_def)
next
  case (Suc n)
  from Suc.prems(2) consider "t = st"
    | u where "u \<in> set (f st)" "t \<in> set (iterate g f n u)"
    unfolding iterate_Suc_set by blast
  then show ?case
  proof cases
    case 1
    with Suc.prems(1) show ?thesis by (simp add: reaches_Star_refl)
  next
    case 2
    from step [OF Suc.prems(1) 2(1)] have u: "reaches r s (fst st) (fst u)" .
    with reaches_bounds [OF u] 2(2) have "reaches (Star g' r) s (fst u) (fst t)"
      by (intro Suc.IH) auto
    with u show ?thesis by (rule reaches_Star_step)
  qed
qed

lemma substring_split:
  assumes "substring i j s = u @ v" and "i \<le> j" and "j \<le> length s"
  shows "i + length u \<le> j \<and> substring i (i + length u) s = u \<and> substring (i + length u) j s = v"
proof -
  have len: "length u + length v = j - i"
    using assms by (metis diff_le_mono length_append length_substring min.absorb1)
  moreover have "substring i (i + length u) s @ substring (i + length u) j s = u @ v"
    using assms len by (simp add: substring_append)
  moreover have "length (substring i (i + length u) s) = length u"
    using assms len by simp
  ultimately show ?thesis using assms by auto
qed

lemma iterate_complete:
  assumes step: "\<And>st j. fst st \<le> length s \<Longrightarrow> reaches r s (fst st) j \<Longrightarrow> \<exists>t\<in>set (f st). fst t = j"
    and "w \<in> repeated (lang r)" and "w = substring (fst st) j s"
    and "fst st \<le> j" and "j \<le> length s" and "j - fst st \<le> n"
  shows "\<exists>t\<in>set (iterate g f n st). fst t = j"
  using assms(2-)
proof (induction w arbitrary: st n rule: repeated.induct)
  case repeated_Nil
  then have "fst st = j"
    by (metis diff_is_0_eq diff_le_mono le_antisym length_substring list.size(3) min.absorb1)
  with iterate_self show ?case by metis
next
  case (repeated_step u v)
  let ?k = "fst st + length u"
  from substring_split [OF repeated_step.prems(1) [symmetric] repeated_step.prems(2,3)]
  have k: "?k \<le> j" "substring (fst st) ?k s = u" "substring ?k j s = v" by auto
  show ?case
  proof (cases "u = []")
    case True
    with repeated_step k show ?thesis by simp
  next
    case False
    have "reaches r s (fst st) ?k"
      using k repeated_step.hyps(1) repeated_step.prems by (simp add: reaches_def)
    moreover have "fst st \<le> length s" using repeated_step.prems by simp
    ultimately obtain t where t: "t \<in> set (f st)" "fst t = ?k" using step by blast
    from False have "length u > 0" by simp
    with repeated_step.prems(4) k(1) have "n = Suc (n - 1)" "j - ?k \<le> n - 1" by linarith+
    then obtain n' where n: "n = Suc n'" "j - ?k \<le> n'" by blast
    have "\<exists>t'\<in>set (iterate g f n' t). fst t' = j"
      by (rule repeated_step.IH) (use t k n repeated_step.prems in auto)
    moreover have "fst t \<noteq> fst st" using t False by simp
    ultimately show ?thesis using t(1) unfolding n(1) iterate_Suc_set by blast
  qed
qed

text \<open>
  The matcher reaches from \<open>i\<close> exactly the ends \<open>j\<close> for which the text between them is in the
  language of the expression.
\<close>

lemma successes_sound:
  "plain r \<Longrightarrow> fst st \<le> length s \<Longrightarrow> t \<in> set (successes r multi s st) \<Longrightarrow> reaches r s (fst st) (fst t)"
proof (induction r arbitrary: st t)
  case (Cls P)
  then have "fst st < length s" "P (s ! fst st)" "t = (Suc (fst st), snd st)"
    by (auto split: if_splits)
  then show ?case by (simp add: reaches_def substring_one)
next
  case (Cat r q)
  then obtain u where "u \<in> set (successes r multi s st)" "t \<in> set (successes q multi s u)" by auto
  moreover have r: "reaches r s (fst st) (fst u)" using Cat calculation by simp
  moreover have "reaches q s (fst u) (fst t)" using Cat calculation reaches_bounds [OF r] by simp
  ultimately show ?case by (auto intro: reaches_Cat)
next
  case (Opt r)
  let ?f = "\<lambda>t. successes r multi s (cleared r t)"
  from Opt.prems(3) have "t = st \<or> t \<in> set (?f st)"
    by (auto simp: iterate_Suc_set)
  then show ?case
  proof
    assume "t \<in> set (?f st)"
    then have "reaches r s (fst (cleared r st)) (fst t)"
      using Opt.IH [of "cleared r st" t] Opt.prems(1,2) by (simp add: cleared_def)
    then show ?thesis by (auto simp: reaches_def cleared_def)
  qed (use Opt.prems in \<open>auto simp: reaches_def\<close>)
next
  case (Star g r)
  show ?case
  proof (rule iterate_sound)
    fix st' t' assume "fst st' \<le> length s" "t' \<in> set (successes r multi s (cleared r st'))"
    then show "reaches r s (fst st') (fst t')"
      using Star.IH [of "cleared r st'" t'] Star.prems(1) by (simp add: cleared_def)
  next
    show "t \<in> set (iterate g (\<lambda>t. successes r multi s (cleared r t)) (length s - fst st) st)"
      using Star.prems(3) by simp
  qed (rule Star.prems(2))
next
  case (Group n r)
  then obtain j cs where "(j, cs) \<in> set (successes r multi s st)" "fst t = j" by auto
  with Group.IH [of st "(j, cs)"] Group.prems(1,2) show ?case by (simp add: reaches_Group)
next
  case Empty
  then show ?case by (simp add: reaches_def)
next
  case (Alt r q)
  have "reaches r s (fst st) (fst t) \<or> reaches q s (fst st) (fst t)"
    using Alt.IH(1) [of st t] Alt.IH(2) [of st t] Alt.prems by auto
  then show ?case by (auto simp: reaches_def)
qed simp_all

lemma successes_complete:
  "plain r \<Longrightarrow> reaches r s (fst st) j \<Longrightarrow> \<exists>t\<in>set (successes r multi s st). fst t = j"
proof (induction r arbitrary: st j)
  case Empty
  then have "fst st = j"
    by (simp add: reaches_def substring_def) (metis diff_is_0_eq le_antisym le_trans nat_le_linear)
  then show ?case by simp
next
  case (Cls P)
  then obtain c where c: "substring (fst st) j s = [c]" "P c" "j \<le> length s" "fst st \<le> j"
    by (auto simp: reaches_def)
  then have "length (substring (fst st) j s) = 1" by simp
  then have j: "j = Suc (fst st)" using c(3,4) by (simp add: min_def split: if_splits)
  with c have "s ! fst st = c" "fst st < length s" using substring_one [of "fst st" s] by auto
  with j c show ?case by simp
next
  case (Cat r q)
  then obtain u v where uv: "substring (fst st) j s = u @ v" "u \<in> lang r" "v \<in> lang q"
    by (auto simp: reaches_def)
  have le: "fst st \<le> j" "j \<le> length s" using Cat.prems(2) by (auto simp: reaches_def)
  let ?k = "fst st + length u"
  from substring_split [OF uv(1) le] uv le
  have "reaches r s (fst st) ?k" "reaches q s ?k j" by (auto simp: reaches_def)
  moreover obtain t where t: "t \<in> set (successes r multi s st)" "fst t = ?k"
    using Cat.IH(1) [of st ?k] Cat.prems(1) calculation(1) by auto
  ultimately obtain u where "u \<in> set (successes q multi s t)" "fst u = j"
    using Cat.IH(2) [of t j] Cat.prems(1) by auto
  with t(1) show ?case by auto
next
  case (Alt r q)
  then have "reaches r s (fst st) j \<or> reaches q s (fst st) j" by (auto simp: reaches_def)
  then show ?case using Alt.IH [of st j] Alt.prems(1) by auto
next
  case (Opt r)
  show ?case
  proof (cases "fst st = j")
    case True
    then show ?thesis using iterate_self by (metis successes.simps(5))
  next
    case False
    with Opt.prems have "substring (fst st) j s \<noteq> []" by (simp add: reaches_def substring_def)
    with Opt.prems have "reaches r s (fst (cleared r st)) j" by (auto simp: reaches_def cleared_def)
    then obtain t where "t \<in> set (successes r multi s (cleared r st))" "fst t = j"
      using Opt.IH [of "cleared r st" j] Opt.prems(1) by auto
    with False show ?thesis by (intro bexI [of _ t]) (auto simp: iterate_Suc_set)
  qed
next
  case (Star g r)
  have "\<exists>t\<in>set (successes r multi s (cleared r st')). fst t = j'"
    if "reaches r s (fst st') j'" for st' j'
    using Star.IH [of "cleared r st'" j'] Star.prems(1) that by (simp add: cleared_def)
  then show ?case using Star.prems(2)
    by (auto simp: reaches_def intro!: iterate_complete [where r = r and s = s])
next
  case (Group n r)
  obtain t where "t \<in> set (successes r multi s st)" "fst t = j"
    using Group.IH [of st j] Group.prems by (auto simp: reaches_Group)
  then show ?case
    by (intro bexI [of _ "(fst t, (n, substring (fst st) (fst t) s) # snd t)"])
      (auto intro: image_eqI [where x = t] split: prod.split)
qed simp_all

lemma successes_ends:
  assumes "plain r" and "fst st \<le> length s"
  shows "fst ` set (successes r multi s st) = {j. reaches r s (fst st) j}"
proof (intro set_eqI iffI)
  fix j assume "j \<in> fst ` set (successes r multi s st)"
  then obtain t where "t \<in> set (successes r multi s st)" "j = fst t" by (rule imageE)
  with successes_sound [OF assms] show "j \<in> {j. reaches r s (fst st) j}" by simp
next
  fix j assume "j \<in> {j. reaches r s (fst st) j}"
  then obtain t where "t \<in> set (successes r multi s st)" "fst t = j"
    using successes_complete [OF assms(1)] by (metis mem_Collect_eq)
  then show "j \<in> fst ` set (successes r multi s st)" by (rule image_eqI [OF sym, rotated])
qed

text \<open>Runs of one class, and expressions without groups, which leave the captures alone.\<close>

lemma repeated_class: "repeated {[c] |c. P c} = {s. list_all P s}"
proof (intro set_eqI iffI)
  fix s assume "s \<in> repeated {[c] |c. P c}"
  then show "s \<in> {s. list_all P s}" by induction auto
next
  fix s assume "s \<in> {s. list_all P s}"
  then show "s \<in> repeated {[c] |c. P c}"
  proof (induction s)
    case (Cons c s)
    then have "[c] @ s \<in> repeated {[c] |c. P c}" by (intro repeated_step) auto
    then show ?case by simp
  qed simp
qed

lemma lang_some_class: "lang (some (Cls P)) = {s. s \<noteq> [] \<and> list_all P s}"
proof -
  have "(\<exists>u v. s = u @ v \<and> (\<exists>c. u = [c] \<and> P c) \<and> list_all P v) \<longleftrightarrow> s \<noteq> [] \<and> list_all P s" for s
  proof (cases s)
    case (Cons c cs)
    then have "s = [c] @ cs" by simp
    then have "P c \<and> list_all P cs \<Longrightarrow> \<exists>u v. s = u @ v \<and> (\<exists>c. u = [c] \<and> P c) \<and> list_all P v" by blast
    with Cons show ?thesis by auto
  qed simp
  then show ?thesis by (simp add: repeated_class)
qed

lemma iterate_captures:
  assumes "\<And>st t. t \<in> set (f st) \<Longrightarrow> snd t = snd st"
  shows "t \<in> set (iterate g f n st) \<Longrightarrow> snd t = snd st"
proof (induction n arbitrary: st)
  case (Suc n)
  then consider "t = st" | u where "u \<in> set (f st)" "t \<in> set (iterate g f n u)"
    unfolding iterate_Suc_set by blast
  then show ?case using Suc.IH assms by cases auto
qed simp

lemma cleared_no_groups: "groups r = [] \<Longrightarrow> cleared r st = st"
  by (simp add: cleared_def)

lemma successes_captures:
  "groups r = [] \<Longrightarrow> t \<in> set (successes r multi s st) \<Longrightarrow> snd t = snd st"
proof (induction r arbitrary: st t)
  case (Cat r q)
  then obtain u where "u \<in> set (successes r multi s st)" "t \<in> set (successes q multi s u)" by auto
  with Cat.IH(1) [of u st] Cat.IH(2) [of t u] Cat.prems(1) show ?case by simp
next
  case (Alt r q)
  show ?case using Alt.IH(1) [of t st] Alt.IH(2) [of t st] Alt.prems by auto
next
  case (Opt r)
  have "snd t' = snd st'" if "t' \<in> set (successes r multi s (cleared r st'))" for st' t'
    using Opt.IH [of t' st'] Opt.prems(1) that by (simp add: cleared_no_groups)
  from iterate_captures [where f = "\<lambda>t. successes r multi s (cleared r t)", OF this
      Opt.prems(2) [unfolded successes.simps]] show ?case .
next
  case (Star g r)
  have "snd t' = snd st'" if "t' \<in> set (successes r multi s (cleared r st'))" for st' t'
    using Star.IH [of t' st'] Star.prems(1) that by (simp add: cleared_no_groups)
  from iterate_captures [where f = "\<lambda>t. successes r multi s (cleared r t)", OF this
      Star.prems(2) [unfolded successes.simps]] show ?case .
qed (auto split: if_splits)

lemma successes_group_plain:
  assumes "plain r" and "groups r = []" and "fst st \<le> length s"
  shows "t \<in> set (successes (Group n r) multi s st) \<longleftrightarrow>
    reaches r s (fst st) (fst t) \<and> snd t = (n, substring (fst st) (fst t) s) # snd st"
  (is "?L \<longleftrightarrow> ?R")
proof
  assume ?L
  then obtain j cs where j: "(j, cs) \<in> set (successes r multi s st)"
    "t = (j, (n, substring (fst st) j s) # cs)" by auto
  with successes_sound [OF assms(1,3) j(1)] successes_captures [OF assms(2) j(1)] show ?R by simp
next
  assume R: ?R
  then obtain u where u: "u \<in> set (successes r multi s st)" "fst u = fst t"
    using successes_complete [OF assms(1)] by blast
  with successes_captures [OF assms(2) u(1)] R show ?L
    by (auto intro!: image_eqI [where x = u] simp: prod_eq_iff split: prod.split)
qed

lemma exec_anchored:
  assumes "successes r False s (0, []) \<noteq> []"
  shows "\<exists>j cs. (j, cs) \<in> set (successes r False s (0, []))
     \<and> exec r False s 0 = Some \<lparr>m_start = 0, m_end = j, m_captures = cs\<rparr>"
proof -
  obtain j cs rest where "successes r False s (0, []) = (j, cs) # rest"
    using assms by (cases "successes r False s (0, [])") auto
  moreover have "[0..<Suc (length s)] = 0 # [1..<Suc (length s)]"
    by (subst upt_conv_Cons) simp_all
  ultimately show ?thesis by (auto simp: exec_def match_at_def)
qed

lemma first_some_None: "(\<And>x. x \<in> set xs \<Longrightarrow> f x = None) \<Longrightarrow> first_some f xs = None"
  by (induction xs) auto

lemma exec_line_start: "exec (Cat LineStart r) False s 0 = match_at (Cat LineStart r) False s 0"
proof -
  have "first_some (match_at (Cat LineStart r) False s) [Suc 0..<Suc (length s)] = None"
    by (rule first_some_None) (auto simp: match_at_def at_line_start_def)
  moreover have "[0..<Suc (length s)] = 0 # [Suc 0..<Suc (length s)]"
    by (subst upt_conv_Cons) simp_all
  ultimately show ?thesis unfolding exec_def by (simp only: first_some.simps option.case_eq_if) auto
qed

lemma successes_lit:
  "successes (lit p) multi s (i, cs) =
    (if starts_with p (drop i s) then [(i + length p, cs)] else [])"
proof (induction p arbitrary: i rule: lit.induct)
  case (2 c)
  show ?case
  proof (cases "i < length s")
    case True
    then have "drop i s = s ! i # drop (Suc i) s" by (simp add: Cons_nth_drop_Suc)
    with True show ?thesis by (simp add: eq_commute)
  qed simp
next
  case (3 c d cs')
  show ?case
  proof (cases "i < length s")
    case True
    then have "drop i s = s ! i # drop (Suc i) s" by (simp add: Cons_nth_drop_Suc)
    with True 3 show ?thesis by (auto simp del: lit.simps(2) simp: lit.simps(3))
  qed simp
qed simp

text \<open>\<open>/^literal/.test(s)\<close>.\<close>

lemma test_literal_start: "test (Cat LineStart (lit p)) False s \<longleftrightarrow> starts_with p s"
  unfolding test_def exec_line_start by (simp add: match_at_def at_line_start_def successes_lit)

section \<open>Runs of digits\<close>

lemma digit_plain [simp]: "plain digit" "groups digit = []"
  by (simp_all add: digit_def)

lemma reaches_digits:
  "reaches (some digit) s i j \<longleftrightarrow> i < j \<and> j \<le> length s \<and> list_all is_digit (substring i j s)"
  (is "?L \<longleftrightarrow> ?R")
proof -
  have "?L \<longleftrightarrow> i \<le> j \<and> j \<le> length s \<and> substring i j s \<noteq> [] \<and> list_all is_digit (substring i j s)"
    unfolding reaches_def digit_def lang_some_class by simp
  moreover have "substring i j s \<noteq> [] \<longleftrightarrow> i < j" if "j \<le> length s"
    using that by (auto simp: substring_def)
  ultimately show ?thesis by auto
qed

lemma digits_group_successes:
  "(j, cs') \<in> set (successes (Group n (some digit)) multi s (i, cs)) \<longleftrightarrow>
     i < j \<and> j \<le> length s \<and> list_all is_digit (substring i j s) \<and> cs' = (n, substring i j s) # cs"
proof (cases "i \<le> length s")
  case True
  then show ?thesis by (subst successes_group_plain) (auto simp: reaches_digits)
next
  case False
  then show ?thesis by (auto simp: digit_def)
qed

lemma cat_successes:
  "t \<in> set (successes (Cat r q) multi s st) \<longleftrightarrow>
     (\<exists>i cs. (i, cs) \<in> set (successes r multi s st) \<and> t \<in> set (successes q multi s (i, cs)))"
  by auto

lemma chr_successes:
  "(j, cs') \<in> set (successes (chr c) multi s (i, cs)) \<longleftrightarrow> i < length s \<and> s ! i = c \<and> j = Suc i \<and> cs' = cs"
  by auto

lemma line_start_successes:
  "(j, cs') \<in> set (successes LineStart False s (i, cs)) \<longleftrightarrow> i = 0 \<and> j = i \<and> cs' = cs"
  by (auto simp: at_line_start_def)

lemma line_end_successes:
  "(j, cs') \<in> set (successes LineEnd False s (i, cs)) \<longleftrightarrow> i = length s \<and> j = i \<and> cs' = cs"
  by (auto simp: at_line_end_def)

lemmas step_successes = cat_successes digits_group_successes chr_successes line_start_successes line_end_successes

lemma dot_not_digit: "\<not> is_digit CHR ''.''"
  by (simp add: is_digit_code)

text \<open>The end of a run of digits that is followed by a character that is no digit.\<close>

lemma digits_end_unique:
  assumes run: "list_all is_digit (substring i j s)" and "i \<le> j" and "j \<le> length s"
    and s: "s = pre @ ds @ rest" and ds: "list_all is_digit ds" and i: "i = length pre"
    and stop: "j = length s \<or> \<not> is_digit (s ! j)" and rest: "rest = [] \<or> \<not> is_digit (hd rest)"
  shows "j = i + length ds"
proof (rule ccontr)
  assume "j \<noteq> i + length ds"
  then consider "j < i + length ds" | "i + length ds < j" by linarith
  then show False
  proof cases
    case 1
    then have "j - i < length ds" using \<open>i \<le> j\<close> by linarith
    then have "s ! j = ds ! (j - i)" using s i \<open>i \<le> j\<close> by (simp add: nth_append)
    moreover have "j < length s" using 1 s i by simp
    ultimately have "\<not> is_digit (ds ! (j - i))" using stop by auto
    with ds 1 \<open>i \<le> j\<close> show False by (auto simp: list_all_length)
  next
    case 2
    then have "substring i j s ! length ds = s ! (i + length ds)"
      using \<open>j \<le> length s\<close> by (simp add: substring_def)
    moreover have "length ds < length (substring i j s)" using 2 \<open>j \<le> length s\<close> by simp
    ultimately have "is_digit (s ! (i + length ds))" using run by (metis list_all_length)
    moreover have "rest \<noteq> []" using 2 \<open>j \<le> length s\<close> s i by auto
    ultimately show False using rest s i by (auto simp: nth_append hd_conv_nth)
  qed
qed

section \<open>The first success\<close>

text \<open>
  What a matcher returns is the first success. The rules below follow an expression along a text
  that is known up to the pieces it is made of; \<open>drop i s\<close> is what is left of it.
\<close>

definition first_match :: "regex \<Rightarrow> bool \<Rightarrow> string \<Rightarrow> mstate \<Rightarrow> mstate \<Rightarrow> bool" where
  "first_match r multi s st t \<longleftrightarrow> (\<exists>rest. successes r multi s st = t # rest)"

lemma first_match_at:
  "first_match r multi s (i, []) (j, cs) \<Longrightarrow> match_at r multi s i = Some \<lparr>m_start = i, m_end = j, m_captures = cs\<rparr>"
  by (auto simp: first_match_def match_at_def)

lemma first_Cat: "first_match r multi s st u \<Longrightarrow> first_match q multi s u t \<Longrightarrow> first_match (Cat r q) multi s st t"
  by (auto simp: first_match_def)

lemma first_Alt: "first_match r multi s st t \<Longrightarrow> first_match (Alt r q) multi s st t"
  by (auto simp: first_match_def)

lemma first_Alt_second:
  "successes r multi s st = [] \<Longrightarrow> first_match q multi s st t \<Longrightarrow> first_match (Alt r q) multi s st t"
  by (auto simp: first_match_def)

lemma first_Group:
  "first_match r multi s (i, cs) (j, cs') \<Longrightarrow> t = substring i j s \<Longrightarrow>
   first_match (Group n r) multi s (i, cs) (j, (n, t) # cs')"
  by (auto simp: first_match_def)

lemma first_Opt:
  "first_match r multi s (cleared r st) t \<Longrightarrow> fst t \<noteq> fst st \<Longrightarrow> first_match (Opt r) multi s st t"
  by (auto simp: first_match_def Let_def)

lemma first_Opt_skipped: "successes r multi s (cleared r st) = [] \<Longrightarrow> first_match (Opt r) multi s st st"
  by (auto simp: first_match_def Let_def)

lemma first_lit: "drop i s = p @ rest \<Longrightarrow> j = i + length p \<Longrightarrow> first_match (lit p) multi s (i, cs) (j, cs)"
  by (simp add: first_match_def successes_lit starts_with_iff)

lemma first_Cls: "drop i s = c # rest \<Longrightarrow> P c \<Longrightarrow> first_match (Cls P) multi s (i, cs) (Suc i, cs)"
proof -
  assume d: "drop i s = c # rest" and "P c"
  then have "i < length s" by (metis drop_all leI list.distinct(1))
  with d \<open>P c\<close> show ?thesis by (simp add: first_match_def) (metis Cons_nth_drop_Suc list.inject)
qed

lemma drop_piece: "drop i s = p @ rest \<Longrightarrow> drop (i + length p) s = rest"
  by (metis add.commute append_eq_conv_conj drop_drop)

lemma substring_piece: "drop i s = p @ rest \<Longrightarrow> j = i + length p \<Longrightarrow> substring i j s = p"
  by (simp add: substring_def)

lemma iterate_class:
  assumes "drop i s = p @ rest" and "list_all P p" and "rest = [] \<or> \<not> P (hd rest)" and "length p \<le> n"
  shows "\<exists>more. iterate True (successes (Cls P) multi s) n (i, cs) = (i + length p, cs) # more"
  using assms
proof (induction p arbitrary: i n)
  case Nil
  have "successes (Cls P) multi s (i, cs) = []"
    using Nil by (cases "i < length s") (auto simp: hd_drop_conv_nth)
  then show ?case by (cases n) (auto simp: Let_def)
next
  case (Cons c p)
  then obtain n' where n: "n = Suc n'" by (cases n) auto
  have "drop (Suc i) s = p @ rest" using Cons.prems(1) by (metis append_Cons drop_Suc list.sel(3) tl_drop)
  then have "\<exists>more. iterate True (successes (Cls P) multi s) n' (Suc i, cs) = (Suc i + length p, cs) # more"
    by (rule Cons.IH) (use Cons.prems n in auto)
  then obtain more where
    "iterate True (successes (Cls P) multi s) n' (Suc i, cs) = (Suc i + length p, cs) # more" ..
  moreover have "successes (Cls P) multi s (i, cs) = [(Suc i, cs)]"
  proof -
    have "i < length s" using Cons.prems(1) by (metis append_Cons drop_all leI list.distinct(1))
    moreover have "s ! i = c" using Cons.prems(1) \<open>i < length s\<close> by (metis append_Cons Cons_nth_drop_Suc list.inject)
    ultimately show ?thesis using Cons.prems(2) by simp
  qed
  ultimately show ?case by (simp add: n del: successes.simps)
qed

lemma first_many:
  assumes "drop i s = p @ rest" and "list_all P p" and "rest = [] \<or> \<not> P (hd rest)"
  shows "first_match (many (Cls P)) multi s (i, cs) (i + length p, cs)"
proof -
  have "length p \<le> length s - i" using arg_cong [OF assms(1), of length] by simp
  from iterate_class [OF assms this] show ?thesis
    by (simp add: first_match_def cleared_no_groups del: successes.simps(2))
qed

lemma first_some:
  assumes "drop i s = p @ rest" and "p \<noteq> []" and "list_all P p" and "rest = [] \<or> \<not> P (hd rest)"
  shows "first_match (some (Cls P)) multi s (i, cs) (i + length p, cs)"
proof -
  obtain c q where p: "p = c # q" using assms(2) by (cases p) auto
  have "first_match (Cls P) multi s (i, cs) (Suc i, cs)"
    by (rule first_Cls) (use assms(1,3) p in auto)
  moreover have "drop (Suc i) s = q @ rest" using assms(1) p by (metis append_Cons drop_Suc list.sel(3) tl_drop)
  then have "first_match (many (Cls P)) multi s (Suc i, cs) (Suc i + length q, cs)"
    by (rule first_many) (use assms(3,4) p in auto)
  ultimately show ?thesis using first_Cat p by fastforce
qed

end
