(* ===== verification/SmokeTest.thy ===== *)
theory SmokeTest
  imports NestModule JsRegex
begin

text \<open>
  The public entry points (\<open>src/src/server/index.ts\<close>, \<open>src/src/shared/index.ts\<close>) and the smoke
  test of the built package (\<open>src/scripts/dogfood-smoke-test.mjs\<close>). What the script runs or reads
  (the file system, the imported bundles, \<open>npm\<close>, \<open>pnpm\<close> and \<open>node\<close> as child processes) is its input;
  the texts of its messages are constructors.
\<close>

section \<open>Entry points\<close>

datatype public_name = Value string | Type string

definition server_index :: "public_name list" where
  "server_index =
    [Value ''BymaxQueueModule'',
     Value ''BYMAX_QUEUE_OPTIONS'', Value ''BYMAX_QUEUE_REDIS_CLIENT'', Value ''BYMAX_QUEUE_CONNECTION_MODE'',
     Value ''BYMAX_QUEUE_RESOLVED_OPTIONS'',
     Value ''QueueService'', Value ''FlowService'', Value ''MetricsService'', Value ''ConnectionResolver'',
     Value ''WorkerRegistry'', Type ''ProgrammaticWorkerConfig'', Type ''SandboxedWorkerConfig'',
     Value ''QueueEventsRegistry'',
     Type ''QueueLifecycle'',
     Value ''Processor'', Value ''Process'', Value ''OnWorkerEvent'', Type ''WorkerEventName'',
     Value ''OnQueueEvent'', Type ''QueueEventName'',
     Type ''BymaxQueueModuleOptions'', Type ''BymaxQueueModuleAsyncOptions'', Type ''BymaxQueueOptionsFactory'',
     Type ''QueueConnectionConfig'', Type ''QueueConnectionMode'',
     Type ''WorkerOptions'',
     Type ''ProcessorMetadata'', Type ''ProcessHandlerMetadata'', Type ''QueueEventListenerMetadata'',
     Type ''BulkJob'',
     Value ''QueueException'', Value ''QUEUE_ERROR_CODES'', Value ''QUEUE_ERROR_MESSAGES'', Type ''QueueErrorCode'',
     Value ''DEFAULT_WORKER_CONCURRENCY'', Value ''MAX_WORKER_CONCURRENCY'', Value ''DEFAULT_JOB_OPTIONS'',
     Value ''DEFAULT_METRICS_CACHE_TTL_MS'', Value ''DEFAULT_SHUTDOWN_DRAIN_TIMEOUT_MS'',
     Type ''Job'', Type ''JobsOptions'', Type ''Queue'', Type ''Worker'', Type ''QueueEvents'', Type ''FlowProducer'',
     Type ''FlowJob'', Type ''JobNode'', Type ''JobSchedulerJson'', Type ''Telemetry'', Type ''SandboxedJob'',
     Type ''JobStatus'', Type ''QueueMetrics'', Type ''JobSchedulerRepeatOptions'', Value ''JOB_STATUS'']"

definition shared_index :: "public_name list" where
  "shared_index =
    [Type ''JobStatus'', Type ''QueueMetrics'', Type ''JobSchedulerRepeatOptions'', Value ''JOB_STATUS'',
     Value ''QUEUE_ERROR_CODES'', Type ''QueueErrorCode'']"

text \<open>The internal barrels of the constants and the interfaces.\<close>

definition constants_index :: "public_name list" where
  "constants_index =
    [Value ''DEFAULT_WORKER_CONCURRENCY'', Value ''DEFAULT_JOB_OPTIONS'', Value ''DEFAULT_CONNECTION_READY_TIMEOUT_MS'',
     Value ''DEFAULT_METRICS_CACHE_TTL_MS'', Value ''DEFAULT_SHUTDOWN_DRAIN_TIMEOUT_MS'',
     Value ''QUEUE_ERROR_CODES'', Value ''QUEUE_ERROR_MESSAGES'', Type ''QueueErrorCode'']"

definition interfaces_index :: "public_name list" where
  "interfaces_index =
    [Type ''QueueConnectionConfig'', Type ''QueueConnectionMode'', Type ''WorkerOptions'',
     Type ''ProcessorMetadata'', Type ''ProcessHandlerMetadata'', Type ''QueueEventListenerMetadata'',
     Type ''BulkJob'',
     Type ''BymaxQueueModuleOptions'', Type ''BymaxQueueModuleAsyncOptions'', Type ''BymaxQueueOptionsFactory'']"

text \<open>What is left of an entry point at run time.\<close>

fun runtime_names :: "public_name list \<Rightarrow> string list" where
  "runtime_names [] = []"
| "runtime_names (Value n # ns) = n # runtime_names ns"
| "runtime_names (Type _ # ns) = runtime_names ns"

section \<open>What the script expects\<close>

definition SUBPATHS :: "string list" where
  "SUBPATHS = [''server'', ''shared'']"

definition ARTIFACT_EXTENSIONS :: "string list" where
  "ARTIFACT_EXTENSIONS = [''mjs'', ''cjs'', ''d.ts'', ''d.cts'']"

definition EXPECTED_SERVER_EXPORTS :: "string list" where
  "EXPECTED_SERVER_EXPORTS =
    [''BymaxQueueModule'', ''BYMAX_QUEUE_OPTIONS'', ''BYMAX_QUEUE_REDIS_CLIENT'', ''BYMAX_QUEUE_CONNECTION_MODE'',
     ''BYMAX_QUEUE_RESOLVED_OPTIONS'', ''QueueService'', ''FlowService'', ''MetricsService'', ''ConnectionResolver'',
     ''WorkerRegistry'', ''QueueEventsRegistry'', ''Processor'', ''Process'', ''OnWorkerEvent'', ''OnQueueEvent'',
     ''QueueException'', ''QUEUE_ERROR_CODES'', ''QUEUE_ERROR_MESSAGES'', ''JOB_STATUS'',
     ''DEFAULT_WORKER_CONCURRENCY'', ''MAX_WORKER_CONCURRENCY'', ''DEFAULT_JOB_OPTIONS'',
     ''DEFAULT_METRICS_CACHE_TTL_MS'', ''DEFAULT_SHUTDOWN_DRAIN_TIMEOUT_MS'']"

definition EXPECTED_SHARED_EXPORTS :: "string list" where
  "EXPECTED_SHARED_EXPORTS = [''JOB_STATUS'', ''QUEUE_ERROR_CODES'']"

definition ALLOWED_TARBALL_PATHS :: "string list" where
  "ALLOWED_TARBALL_PATHS = [''package.json'', ''README.md'', ''CHANGELOG.md'', ''LICENSE'', ''dist/'']"

section \<open>Inputs\<close>

text \<open>What \<open>spawnSync\<close> returns, and a thrown value as the script renders it.\<close>

record spawned =
  sp_status :: "nat option"
  sp_signal :: "string option"
  sp_error :: "string option"
  sp_stdout :: "string option"
  sp_stderr :: "string option"

datatype thrown_value = Error_thrown string | Other_thrown string

fun thrown_text :: "thrown_value \<Rightarrow> string" where
  "thrown_text (Error_thrown message) = message"
| "thrown_text (Other_thrown rendered) = rendered"

text \<open>
  The consumer: whether its directory was created, what setting it up threw, and what \<open>spawnSync\<close>
  returns there for a command and its arguments.
\<close>

record consumer =
  cn_created :: bool
  cn_threw :: "thrown_value option"
  cn_spawn :: "string \<Rightarrow> string list \<Rightarrow> spawned"

record built_package =
  pk_files :: "string list"
  pk_server_esm :: "string list"
  pk_shared_esm :: "string list"
  pk_server_cjs :: "string list"
  pk_shared_cjs :: "string list"
  pk_pack :: "thrown_value + string"
  pk_manifest :: obj
  pk_consumer :: consumer
  pk_for_root :: "module_options \<Rightarrow> dynamic_module outcome"
  pk_own_module :: bool

section \<open>Lines of the report\<close>

datatype claim =
    Artifact string | Server_export string | Shared_export string | Cjs_server string | Cjs_shared string
  | Only_allowed_files nat | License_packed | No_dependencies | Installed | Esm_resolves | Cjs_resolves
  | Module_wired | Guard_throws

datatype problem =
    Export_missing string | Cjs_export_missing string | Cjs_shared_missing string
  | Unexpected_file string | License_missing | Pack_failed string
  | Dependencies_unstated | Dependencies_no_object jsval | Dependencies_declared "string list"
  | Install_failed string | Esm_failed spawned | Cjs_failed spawned | Scaffolding_failed string
  | Not_wired | Guard_gone "exn option" | Behaviour_threw exn

datatype smoke_line = Pass claim | Fail problem

definition judged :: "bool \<Rightarrow> claim \<Rightarrow> problem \<Rightarrow> smoke_line" where
  "judged ok c p = (if ok then Pass c else Fail p)"

fun is_failure :: "smoke_line \<Rightarrow> bool" where
  "is_failure (Pass _) = False"
| "is_failure (Fail _) = True"

text \<open>\<open>describeFailure\<close>: the status, the signal and the error if there are any, and the two streams.\<close>

definition describe_failure :: "spawned \<Rightarrow> string" where
  "describe_failure r = join_with [newline] (filter (\<lambda>part. part \<noteq> [])
    [''status '' @ (case sp_status r of None \<Rightarrow> ''null'' | Some n \<Rightarrow> decimal n),
     (case sp_signal r of None \<Rightarrow> [] | Some s \<Rightarrow> if s = [] then [] else ''signal '' @ s),
     (case sp_error r of None \<Rightarrow> [] | Some message \<Rightarrow> ''spawn error: '' @ message),
     ''--- stdout ---'' @ [newline] @ opt_default (sp_stdout r) [],
     ''--- stderr ---'' @ [newline] @ opt_default (sp_stderr r) []])"

section \<open>The sections\<close>

definition artifact_files :: "string list" where
  "artifact_files =
    concat (map (\<lambda>subpath. map (\<lambda>ext. ''dist/'' @ subpath @ ''/index.'' @ ext) ARTIFACT_EXTENSIONS) SUBPATHS)"

text \<open>The first artifact that is missing ends the script.\<close>

fun check_artifacts :: "string list \<Rightarrow> string list \<Rightarrow> smoke_line list \<times> string option" where
  "check_artifacts present [] = ([], None)"
| "check_artifacts present (f # fs) =
    (if f \<notin> set present then ([], Some f)
     else let (ls, missing) = check_artifacts present fs in (Pass (Artifact f) # ls, missing))"

definition check_exports :: "string list \<Rightarrow> string list \<Rightarrow> (string \<Rightarrow> claim) \<Rightarrow> (string \<Rightarrow> problem) \<Rightarrow> smoke_line list" where
  "check_exports expected names c p = map (\<lambda>n. judged (n \<in> set names) (c n) (p n)) expected"

definition unit_re :: regex where
  "unit_re = alts [Cat (one_of ''Mm'') (one_of ''Bb''), Cat (one_of ''Kk'') (Opt (one_of ''Bb'')), one_of ''Bb'']"

definition size_number :: regex where
  "size_number = some (Cls (\<lambda>c. is_digit c \<or> c = CHR ''.''))"

definition SIZE_RE :: regex where
  "SIZE_RE = cats [some space, size_number, many space, unit_re, some space, some (Cls (\<lambda>c. \<not> js_space c))]"

definition SIZE_STRIP_RE :: regex where
  "SIZE_STRIP_RE = cats [many any_char, lit ''npm notice'', some space, size_number, many space, unit_re, some space]"

definition SHA_RE :: regex where
  "SHA_RE = cats [LineStart, one_of ''sS'', one_of ''hH'', one_of ''aA'', some digit, chr CHR '':'']"

definition content_lines :: "string \<Rightarrow> string list" where
  "content_lines pack_out =
    filter (\<lambda>l. l \<noteq> [] \<and> \<not> starts_with ''npm notice'' l \<and> \<not> test SHA_RE False l)
      (map (\<lambda>l. trim (replace_first SIZE_STRIP_RE False (\<lambda>_. []) l))
        (filter (\<lambda>l. includes_text ''npm notice'' l \<and> test SIZE_RE False l) (lines_of pack_out)))"

definition allowed_in_tarball :: "string \<Rightarrow> bool" where
  "allowed_in_tarball f =
    list_ex (\<lambda>entry. f = entry \<or> ends_with ''/'' entry \<and> starts_with entry f) ALLOWED_TARBALL_PATHS"

definition check_tarball :: "thrown_value + string \<Rightarrow> smoke_line list" where
  "check_tarball packed =
    (case packed of
       Inl e \<Rightarrow> [Fail (Pack_failed (thrown_text e))]
     | Inr pack_out \<Rightarrow>
         (let ls = content_lines pack_out;
              unexpected = filter (\<lambda>f. \<not> allowed_in_tarball f) ls
          in (if unexpected = [] then [Pass (Only_allowed_files (length ls))]
              else map (\<lambda>f. Fail (Unexpected_file f)) unexpected)
             @ [judged (''LICENSE'' \<in> set ls) License_packed License_missing]))"

definition check_dependencies :: "obj \<Rightarrow> smoke_line list" where
  "check_dependencies manifest =
    (let declared = (if has_key ''dependencies'' manifest then field manifest ''dependencies'' else Undef)
     in case declared of
          Undef \<Rightarrow> [Fail Dependencies_unstated]
        | Obj ds \<Rightarrow> [judged (ds = []) No_dependencies (Dependencies_declared (map fst ds))]
        | v \<Rightarrow> [Fail (Dependencies_no_object v)])"

definition in_quotes :: "string \<Rightarrow> string" where
  "in_quotes s = [CHR 0x27] @ s @ [CHR 0x27]"

definition consumer_manifest :: "string \<Rightarrow> obj" where
  "consumer_manifest repository =
    [(''name'', Str ''dogfood-consumer''), (''version'', Str ''0.0.1''), (''type'', Str ''module''),
     (''dependencies'', Obj
       [(''@bymax-one/nest-queue'', Str (''file:'' @ repository)),
        (''@nestjs/common'', Str ''^11.0.0''), (''@nestjs/core'', Str ''^11.0.0''),
        (''bullmq'', Str ''^5.16.0''), (''ioredis'', Str ''^5.0.0''),
        (''reflect-metadata'', Str ''^0.2.0''), (''rxjs'', Str ''^7.8.0'')])]"

definition install_arguments :: "string list" where
  "install_arguments = [''install'', ''--no-frozen-lockfile'', ''--ignore-scripts'']"

definition esm_probe :: string where
  "esm_probe = concat
    [''import '' @ in_quotes ''reflect-metadata'' @ '';'',
     ''const m = await import('' @ in_quotes ''@bymax-one/nest-queue'' @ '');'',
     ''if (!('' @ in_quotes ''BymaxQueueModule'' @ '' in m)) process.exit(3);'',
     ''const s = await import('' @ in_quotes ''@bymax-one/nest-queue/shared'' @ '');'',
     ''if (!('' @ in_quotes ''JOB_STATUS'' @ '' in s)) process.exit(4);'']"

definition cjs_probe :: string where
  "cjs_probe = concat
    [''require('' @ in_quotes ''reflect-metadata'' @ '');'',
     ''const m = require('' @ in_quotes ''@bymax-one/nest-queue'' @ '');'',
     ''if (!('' @ in_quotes ''BymaxQueueModule'' @ '' in m)) process.exit(3);'',
     ''const s = require('' @ in_quotes ''@bymax-one/nest-queue/shared'' @ '');'',
     ''if (!('' @ in_quotes ''JOB_STATUS'' @ '' in s)) process.exit(4);'']"

definition run_install :: "consumer \<Rightarrow> spawned" where
  "run_install c = cn_spawn c ''pnpm'' install_arguments"

definition run_esm_probe :: "consumer \<Rightarrow> spawned" where
  "run_esm_probe c = cn_spawn c ''node'' [''--input-type=module'', ''-e'', esm_probe]"

definition run_cjs_probe :: "consumer \<Rightarrow> spawned" where
  "run_cjs_probe c = cn_spawn c ''node'' [''--input-type=commonjs'', ''-e'', cjs_probe]"

text \<open>The consumer section; its directory, if it was created, is removed in the end.\<close>

definition check_consumer :: "consumer \<Rightarrow> smoke_line list" where
  "check_consumer c =
    (case cn_threw c of
       Some e \<Rightarrow> [Fail (Scaffolding_failed (thrown_text e))]
     | None \<Rightarrow>
         if sp_status (run_install c) \<noteq> Some 0 then [Fail (Install_failed (describe_failure (run_install c)))]
         else [Pass Installed,
               judged (sp_status (run_esm_probe c) = Some 0) Esm_resolves (Esm_failed (run_esm_probe c)),
               judged (sp_status (run_cjs_probe c) = Some 0) Cjs_resolves (Cjs_failed (run_cjs_probe c))])"

definition response_code :: "exn \<Rightarrow> jsval" where
  "response_code x =
    (case x of QueueExn e \<Rightarrow> field (props (field (props (get_response e)) ''error'')) ''code'' | _ \<Rightarrow> Undef)"

definition local_url :: module_options where
  "local_url = url_only ''redis://localhost:6379''"

definition no_options :: module_options where
  "no_options = (url_only [])\<lparr>mo_connection := Undef\<rparr>"

definition check_behaviour :: "bool \<Rightarrow> (module_options \<Rightarrow> dynamic_module outcome) \<Rightarrow> smoke_line list" where
  "check_behaviour own forRoot =
    (case forRoot local_url of
       Throws x \<Rightarrow> [Fail (Behaviour_threw x)]
     | Hangs \<Rightarrow> []
     | Returns m \<Rightarrow>
        [judged (own \<and> dm_providers m \<noteq> []) Module_wired Not_wired,
         (let threw = (case forRoot no_options of Throws x \<Rightarrow> Some x | _ \<Rightarrow> None);
              code = (case threw of None \<Rightarrow> Undef | Some x \<Rightarrow> response_code x)
          in judged (code = Str (code_string INVALID_OPTIONS)) Guard_throws (Guard_gone threw))])"

section \<open>The run\<close>

record smoke_run =
  sm_lines :: "smoke_line list"
  sm_removed_consumer :: bool
  sm_exit :: nat

definition smoke_test :: "built_package \<Rightarrow> smoke_run" where
  "smoke_test pk =
    (case check_artifacts (pk_files pk) artifact_files of
       (ls, Some _) \<Rightarrow> \<lparr>sm_lines = ls, sm_removed_consumer = False, sm_exit = 2\<rparr>
     | (ls, None) \<Rightarrow>
         let report = ls
           @ check_exports EXPECTED_SERVER_EXPORTS (pk_server_esm pk) Server_export Export_missing
           @ check_exports EXPECTED_SHARED_EXPORTS (pk_shared_esm pk) Shared_export Export_missing
           @ check_exports EXPECTED_SERVER_EXPORTS (pk_server_cjs pk) Cjs_server Cjs_export_missing
           @ check_exports EXPECTED_SHARED_EXPORTS (pk_shared_cjs pk) Cjs_shared Cjs_shared_missing
           @ check_tarball (pk_pack pk)
           @ check_dependencies (pk_manifest pk)
           @ check_consumer (pk_consumer pk)
           @ check_behaviour (pk_own_module pk) (pk_for_root pk);
             failures = length (filter is_failure report)
         in \<lparr>sm_lines = report, sm_removed_consumer = cn_created (pk_consumer pk),
             sm_exit = (if failures = 0 then 0 else 1)\<rparr>)"

section \<open>What a passing run shows\<close>

lemma no_failures_iff: "length (filter is_failure ls) = 0 \<longleftrightarrow> (\<forall>l \<in> set ls. \<not> is_failure l)"
  by (simp add: filter_empty_conv)

lemma judged_ok: "\<not> is_failure (judged ok c p) \<longleftrightarrow> ok"
  by (simp add: judged_def)

lemma check_artifacts_passes:
  "snd (check_artifacts present fs) = None \<longleftrightarrow> set fs \<subseteq> set present"
  by (induction fs) (auto split: prod.splits)

lemma artifact_lines_pass: "l \<in> set (fst (check_artifacts present fs)) \<Longrightarrow> \<not> is_failure l"
  by (induction fs) (auto split: prod.splits if_splits)

lemma check_exports_passes:
  "(\<forall>l \<in> set (check_exports expected names c p). \<not> is_failure l) \<longleftrightarrow> set expected \<subseteq> set names"
  by (auto simp: check_exports_def judged_ok)

lemma check_tarball_passes:
  "(\<forall>l \<in> set (check_tarball packed). \<not> is_failure l) \<longleftrightarrow>
    (\<exists>pack_out. packed = Inr pack_out \<and> list_all allowed_in_tarball (content_lines pack_out)
      \<and> ''LICENSE'' \<in> set (content_lines pack_out))"
  by (cases packed) (auto simp: check_tarball_def Let_def judged_ok filter_empty_conv list_all_iff split: if_splits)

lemma check_dependencies_passes:
  "(\<forall>l \<in> set (check_dependencies manifest). \<not> is_failure l) \<longleftrightarrow> map_of manifest ''dependencies'' = Some (Obj [])"
proof (cases "map_of manifest ''dependencies''")
  case None
  then show ?thesis by (simp add: check_dependencies_def Let_def field_def)
next
  case (Some v)
  then have "has_key ''dependencies'' manifest" by (force simp: has_key_def dest: map_of_SomeD)
  with Some show ?thesis by (cases v) (auto simp: check_dependencies_def field_def judged_ok)
qed

definition consumer_resolves :: "consumer \<Rightarrow> bool" where
  "consumer_resolves c \<longleftrightarrow> cn_threw c = None \<and>
     list_all (\<lambda>r. sp_status r = Some 0) [run_install c, run_esm_probe c, run_cjs_probe c]"

lemma check_consumer_passes:
  "(\<forall>l \<in> set (check_consumer c). \<not> is_failure l) \<longleftrightarrow> consumer_resolves c"
  by (auto simp: check_consumer_def consumer_resolves_def judged_ok split: option.split)

definition guarded_module :: "bool \<Rightarrow> (module_options \<Rightarrow> dynamic_module outcome) \<Rightarrow> bool" where
  "guarded_module own forRoot \<longleftrightarrow>
     (\<exists>m. forRoot local_url = Returns m \<and> own \<and> dm_providers m \<noteq> [])
   \<and> (\<exists>x. forRoot no_options = Throws x \<and> response_code x = Str (code_string INVALID_OPTIONS))"

lemma check_behaviour_passes:
  "forRoot local_url \<noteq> Hangs \<Longrightarrow>
    (\<forall>l \<in> set (check_behaviour own forRoot). \<not> is_failure l) \<longleftrightarrow> guarded_module own forRoot"
  by (auto simp: check_behaviour_def guarded_module_def Let_def judged_ok split: result.splits)

text \<open>
  The smoke test exits with 0 exactly if every artifact is built, all four bundles have the
  names they should, the tarball holds nothing but what may be published and the licence, the
  manifest has an empty \<open>dependencies\<close> object of its own, the consumer installs and resolves both
  subpaths both ways, and \<open>forRoot\<close> wires a module and refuses an empty configuration with
  \<open>INVALID_OPTIONS\<close>. A missing artifact is the only way to exit with 2.
\<close>

lemma smoke_test_passes_iff:
  assumes "pk_for_root pk local_url \<noteq> Hangs"
  shows "(sm_exit (smoke_test pk) = 0 \<longleftrightarrow>
      set artifact_files \<subseteq> set (pk_files pk)
    \<and> set EXPECTED_SERVER_EXPORTS \<subseteq> set (pk_server_esm pk) \<inter> set (pk_server_cjs pk)
    \<and> set EXPECTED_SHARED_EXPORTS \<subseteq> set (pk_shared_esm pk) \<inter> set (pk_shared_cjs pk)
    \<and> (\<exists>pack_out. pk_pack pk = Inr pack_out \<and> list_all allowed_in_tarball (content_lines pack_out)
         \<and> ''LICENSE'' \<in> set (content_lines pack_out))
    \<and> map_of (pk_manifest pk) ''dependencies'' = Some (Obj [])
    \<and> consumer_resolves (pk_consumer pk)
    \<and> guarded_module (pk_own_module pk) (pk_for_root pk))
   \<and> (sm_exit (smoke_test pk) = 2 \<longleftrightarrow> \<not> set artifact_files \<subseteq> set (pk_files pk))"
proof (cases "check_artifacts (pk_files pk) artifact_files")
  case (Pair ls missing)
  note artifacts = check_artifacts_passes [of "pk_files pk" artifact_files]
    artifact_lines_pass [of _ "pk_files pk" artifact_files]
  show ?thesis
  proof (cases missing)
    case (Some f)
    with Pair artifacts(1) have "\<not> set artifact_files \<subseteq> set (pk_files pk)" by simp
    with Pair Some show ?thesis by (simp add: smoke_test_def)
  next
    case None
    with Pair artifacts(1) have all: "set artifact_files \<subseteq> set (pk_files pk)" by simp
    have ls: "\<forall>l \<in> set ls. \<not> is_failure l" using Pair artifacts(2) by simp
    let ?rest = "check_exports EXPECTED_SERVER_EXPORTS (pk_server_esm pk) Server_export Export_missing
      @ check_exports EXPECTED_SHARED_EXPORTS (pk_shared_esm pk) Shared_export Export_missing
      @ check_exports EXPECTED_SERVER_EXPORTS (pk_server_cjs pk) Cjs_server Cjs_export_missing
      @ check_exports EXPECTED_SHARED_EXPORTS (pk_shared_cjs pk) Cjs_shared Cjs_shared_missing
      @ check_tarball (pk_pack pk) @ check_dependencies (pk_manifest pk) @ check_consumer (pk_consumer pk)
      @ check_behaviour (pk_own_module pk) (pk_for_root pk)"
    have "sm_exit (smoke_test pk) = (if length (filter is_failure (ls @ ?rest)) = 0 then 0 else 1)"
      unfolding smoke_test_def Pair None by (simp add: Let_def)
    moreover have "length (filter is_failure (ls @ ?rest)) = 0 \<longleftrightarrow>
        set EXPECTED_SERVER_EXPORTS \<subseteq> set (pk_server_esm pk) \<inter> set (pk_server_cjs pk)
      \<and> set EXPECTED_SHARED_EXPORTS \<subseteq> set (pk_shared_esm pk) \<inter> set (pk_shared_cjs pk)
      \<and> (\<exists>pack_out. pk_pack pk = Inr pack_out \<and> list_all allowed_in_tarball (content_lines pack_out)
           \<and> ''LICENSE'' \<in> set (content_lines pack_out))
      \<and> map_of (pk_manifest pk) ''dependencies'' = Some (Obj [])
      \<and> consumer_resolves (pk_consumer pk)
      \<and> guarded_module (pk_own_module pk) (pk_for_root pk)"
      using ls unfolding no_failures_iff set_append ball_Un check_exports_passes check_tarball_passes
        check_dependencies_passes check_consumer_passes check_behaviour_passes [of "pk_for_root pk", OF assms]
      by blast
    ultimately show ?thesis using all by simp
  qed
qed

section \<open>The library passes\<close>

lemma runtime_exports:
  "set (runtime_names server_index) = set EXPECTED_SERVER_EXPORTS"
  "set (runtime_names shared_index) = set EXPECTED_SHARED_EXPORTS"
  by (auto simp: server_index_def EXPECTED_SERVER_EXPORTS_def shared_index_def EXPECTED_SHARED_EXPORTS_def)

lemma interfaces_are_public: "set interfaces_index \<subseteq> set server_index"
  by (simp add: interfaces_index_def server_index_def)

lemma local_url_valid:
  assumes "parse ''redis://localhost:6379'' = Some ([], [])"
  shows "validate_options parse local_url = Returns ()"
proof -
  have "candidate_url ''redis://localhost:6379'' = ''redis://localhost:6379''"
    by (simp add: candidate_url_def redis_scheme_def ascii_lower_def Let_def)
  then have "is_parseable_url parse ''redis://localhost:6379''"
    by (simp add: is_parseable_url_def assms decodable_no_percent)
  then show ?thesis
    by (simp add: validate_options_def local_url_def url_only_def Let_def has_key_def field_def blank_def js_space_def
        drain_timeout_of_def cache_ttl_of_def)
qed

lemma local_model_guarded:
  assumes "parse ''redis://localhost:6379'' = Some ([], [])"
  shows "guarded_module True (for_root parse base)"
proof -
  have empty: "validate_options parse no_options = invalid_option ''connection is required''"
    by (simp add: validate_options_def no_options_def url_only_def)
  have "\<exists>m. for_root parse base local_url = Returns m \<and> dm_providers m \<noteq> []"
    using local_url_valid [where parse = parse] assms by (simp add: for_root_def)
  moreover have "\<exists>x. for_root parse base no_options = Throws x \<and> response_code x = Str (code_string INVALID_OPTIONS)"
    using empty by (simp add: for_root_def invalid_option_def raise_code_def response_code_def get_response_def
        field_def queue_error_def new_queue_exception_def)
  ultimately show ?thesis by (simp add: guarded_module_def)
qed

text \<open>
  The library's own source passes the smoke test: what its entry points export at run time are
  the names the test expects, no more and no fewer, and its \<open>forRoot\<close> (for a parser that accepts the
  test's URL) wires a module and refuses the empty configuration with the right code.
\<close>

lemma library_passes_its_smoke_test:
  assumes "parse ''redis://localhost:6379'' = Some ([], [])"
  shows "set (runtime_names server_index) = set EXPECTED_SERVER_EXPORTS
    \<and> distinct (runtime_names server_index)
    \<and> set (runtime_names shared_index) = set EXPECTED_SHARED_EXPORTS
    \<and> check_behaviour True (for_root parse base) = [Pass Module_wired, Pass Guard_throws]"
proof -
  have "check_behaviour True (for_root parse base) = [Pass Module_wired, Pass Guard_throws]"
    using local_model_guarded [where parse = parse and base = base] assms
    by (auto simp: guarded_module_def check_behaviour_def judged_def)
  moreover have "distinct (runtime_names server_index)" by (simp add: server_index_def)
  ultimately show ?thesis using runtime_exports by (simp only: simp_thms)
qed

definition local_parser :: url_parser where
  "local_parser u = (if u = ''redis://localhost:6379'' then Some ([], []) else None)"

lemma library_passes_its_smoke_test_witness:
  "check_behaviour True (for_root local_parser []) = [Pass Module_wired, Pass Guard_throws]"
  using library_passes_its_smoke_test [where parse = local_parser and base = "[]"] by (simp add: local_parser_def)

definition exited_well :: spawned where
  "exited_well = \<lparr>sp_status = Some 0, sp_signal = None, sp_error = None, sp_stdout = None, sp_stderr = None\<rparr>"

definition good_package :: built_package where
  "good_package = \<lparr>pk_files = artifact_files,
     pk_server_esm = EXPECTED_SERVER_EXPORTS, pk_shared_esm = EXPECTED_SHARED_EXPORTS,
     pk_server_cjs = EXPECTED_SERVER_EXPORTS, pk_shared_cjs = EXPECTED_SHARED_EXPORTS,
     pk_pack = Inr ''npm notice 1B LICENSE'', pk_manifest = [(''dependencies'', Obj [])],
     pk_consumer = \<lparr>cn_created = True, cn_threw = None, cn_spawn = (\<lambda>_ _. exited_well)\<rparr>,
     pk_for_root = for_root local_parser [], pk_own_module = True\<rparr>"

lemma good_tarball: "content_lines ''npm notice 1B LICENSE'' = [''LICENSE'']"
proof -
  have "lines_of ''npm notice 1B LICENSE'' = [''npm notice 1B LICENSE'']" by (rule split_no_sep) simp
  moreover have "includes_text ''npm notice'' ''npm notice 1B LICENSE''" by code_simp
  moreover have "test SIZE_RE False ''npm notice 1B LICENSE''" by code_simp
  moreover have "replace_first SIZE_STRIP_RE False (\<lambda>_. []) ''npm notice 1B LICENSE'' = ''LICENSE''" by code_simp
  moreover have "trim ''LICENSE'' = ''LICENSE''" by code_simp
  moreover have "\<not> test SHA_RE False ''LICENSE''" by code_simp
  moreover have "\<not> starts_with ''npm notice'' ''LICENSE''" by simp
  ultimately show ?thesis by (simp only: content_lines_def filter.simps list.map simp_thms if_True list.distinct)
qed

lemma smoke_test_passes_iff_witness: "sm_exit (smoke_test good_package) = 0"
proof -
  have parse: "local_parser ''redis://localhost:6379'' = Some ([], [])" by (simp add: local_parser_def)
  have behaviour: "guarded_module True (for_root local_parser [])"
    by (rule local_model_guarded [where parse = local_parser, OF parse])
  then have "for_root local_parser [] local_url \<noteq> Hangs" by (auto simp: guarded_module_def)
  moreover have "allowed_in_tarball ''LICENSE''" by code_simp
  moreover note behaviour
  ultimately show ?thesis
    by (subst conjunct1 [OF smoke_test_passes_iff])
      (simp_all add: good_package_def good_tarball consumer_resolves_def exited_well_def run_install_def
        run_esm_probe_def run_cjs_probe_def)
qed

section \<open>Bundle sizes\<close>

text \<open>
  The size gate (\<open>src/scripts/check-size.mjs\<close>). Reading a file may fail; the compressed length is
  an argument.
\<close>

definition BUDGETS :: "(string \<times> nat) list" where
  "BUDGETS = [(''dist/server/index.mjs'', 9200), (''dist/shared/index.mjs'', 440)]"

datatype size_line = Bundle_missing string | Bundle_measured string nat nat bool | Budget_exceeded | All_within_budget

text \<open>The loop: the lines printed and whether a bundle failed.\<close>

fun measure_bundles ::
    "(string \<Rightarrow> 'b option) \<Rightarrow> ('b \<Rightarrow> nat) \<Rightarrow> (string \<times> nat) list \<Rightarrow> bool \<Rightarrow> size_line list \<times> bool" where
  "measure_bundles read compressed [] failed = ([], failed)"
| "measure_bundles read compressed ((bundle, budget) # bs) failed =
    (case read bundle of
       None \<Rightarrow> (let (ls, f) = measure_bundles read compressed bs True in (Bundle_missing bundle # ls, f))
     | Some raw \<Rightarrow>
        (let size = compressed raw;
             (ls, f) = measure_bundles read compressed bs (failed \<or> budget < size)
         in (Bundle_measured bundle size budget (size \<le> budget) # ls, f)))"

definition check_size :: "(string \<Rightarrow> 'b option) \<Rightarrow> ('b \<Rightarrow> nat) \<Rightarrow> size_line list \<times> nat" where
  "check_size read compressed =
    (let (ls, failed) = measure_bundles read compressed BUDGETS False
     in if failed then (ls @ [Budget_exceeded], 1) else (ls @ [All_within_budget], 0))"

fun over_budget :: "(string \<Rightarrow> 'b option) \<Rightarrow> ('b \<Rightarrow> nat) \<Rightarrow> string \<times> nat \<Rightarrow> bool" where
  "over_budget read compressed (bundle, budget) =
    (case read bundle of None \<Rightarrow> True | Some raw \<Rightarrow> budget < compressed raw)"

lemma measure_bundles_failed:
  "snd (measure_bundles read compressed bs failed) \<longleftrightarrow> failed \<or> list_ex (over_budget read compressed) bs"
proof (induction bs arbitrary: failed)
  case (Cons b bs)
  obtain target budget where "b = (target, budget)" by (cases b)
  with Cons show ?case by (cases "read target") (simp_all add: Let_def split_beta)
qed simp

text \<open>The gate passes exactly if both bundles exist and neither is larger than its budget.\<close>

lemma check_size_iff:
  "snd (check_size read compressed) = 0 \<longleftrightarrow>
    (\<exists>server shared. read ''dist/server/index.mjs'' = Some server \<and> compressed server \<le> 9200
      \<and> read ''dist/shared/index.mjs'' = Some shared \<and> compressed shared \<le> 440)"
  using measure_bundles_failed [of read compressed BUDGETS False]
  by (auto simp: check_size_def BUDGETS_def split: prod.splits option.splits)

end
