(* ===== verification/NodePath.thy ===== *)
theory NodePath
  imports Paths JsText "HOL-Library.Sublist"
begin

text \<open>
  What the maintenance scripts use of \<open>node:path\<close> on POSIX beyond the extension of a path:
  \<open>resolve\<close>, \<open>join\<close> and \<open>relative\<close> on the segments of a path, and the fact the confinement of
  links rests on: a resolved path that starts with the root and a slash lies below the root.
\<close>

definition add_segment :: "string list \<Rightarrow> string \<Rightarrow> string list" where
  "add_segment acc seg =
    (if seg = [] \<or> seg = ''.'' then acc else if seg = ''..'' then butlast acc else acc @ [seg])"

definition path_segments :: "string \<Rightarrow> string list" where
  "path_segments p = foldl add_segment [] (split_on (CHR ''/'') p)"

definition path_of :: "string list \<Rightarrow> string" where
  "path_of segs = CHR ''/'' # join_with ''/'' segs"

text \<open>\<open>resolve\<close> against an absolute directory, \<open>join\<close> onto one, and \<open>relative\<close> between two.\<close>

definition resolve_path :: "string \<Rightarrow> string \<Rightarrow> string" where
  "resolve_path dir p = path_of (path_segments (if is_absolute p then p else dir @ ''/'' @ p))"

definition join_path :: "string \<Rightarrow> string \<Rightarrow> string" where
  "join_path dir p = path_of (path_segments (dir @ ''/'' @ p))"

definition relative_path :: "string \<Rightarrow> string \<Rightarrow> string" where
  "relative_path dir p =
    (let f = path_segments dir; t = path_segments p; k = length (longest_common_prefix f t)
     in join_with ''/'' (replicate (length f - k) ''..'' @ drop k t))"

section \<open>Resolved paths\<close>

definition plain_segment :: "string \<Rightarrow> bool" where
  "plain_segment seg \<longleftrightarrow> seg \<noteq> [] \<and> seg \<noteq> ''.'' \<and> seg \<noteq> ''..'' \<and> CHR ''/'' \<notin> set seg"

lemma foldl_add_segment:
  "list_all plain_segment acc \<Longrightarrow> (\<And>seg. seg \<in> set segs \<Longrightarrow> CHR ''/'' \<notin> set seg) \<Longrightarrow>
     list_all plain_segment (foldl add_segment acc segs)"
proof (induction segs arbitrary: acc)
  case (Cons seg segs)
  have "list_all plain_segment (add_segment acc seg)"
    using Cons.prems by (auto simp: add_segment_def plain_segment_def list_all_iff dest: in_set_butlastD)
  with Cons show ?case by simp
qed simp

lemma path_segments_plain: "list_all plain_segment (path_segments p)"
  unfolding path_segments_def by (rule foldl_add_segment) (auto dest: split_on_pieces)

lemma foldl_plain: "list_all plain_segment segs \<Longrightarrow> foldl add_segment acc segs = acc @ segs"
  by (induction segs arbitrary: acc) (auto simp: add_segment_def plain_segment_def)

text \<open>Resolving is idempotent: the segments of a normalized path are the ones it was made of.\<close>

lemma path_segments_path_of:
  assumes "list_all plain_segment segs"
  shows "path_segments (path_of segs) = segs"
proof (cases "segs = []")
  case True
  then show ?thesis by (simp add: path_of_def path_segments_def add_segment_def)
next
  case False
  with assms have "split_on (CHR ''/'') (join_with ''/'' segs) = segs"
    by (intro split_join) (auto simp: list_all_iff plain_segment_def)
  then have "split_on (CHR ''/'') (path_of segs) = [] # segs" by (simp add: path_of_def)
  with assms show ?thesis by (simp add: path_segments_def add_segment_def foldl_plain)
qed

lemma path_segments_resolve:
  "path_segments (resolve_path dir p) = path_segments (if is_absolute p then p else dir @ ''/'' @ p)"
  unfolding resolve_path_def by (rule path_segments_path_of) (rule path_segments_plain)

lemma join_append_sep:
  "xs \<noteq> [] \<Longrightarrow> ys \<noteq> [] \<Longrightarrow> join_with sep (xs @ ys) = join_with sep xs @ sep @ join_with sep ys"
proof (induction sep xs rule: join_with.induct)
  case (2 sep l)
  then show ?case by (cases ys) auto
qed auto

lemma split_append: "split_on c (xs @ c # ys) = split_on c xs @ split_on c ys"
proof (induction xs)
  case (Cons x xs)
  obtain l ls where "split_on c xs = l # ls" by (cases "split_on c xs") auto
  with Cons show ?case by auto
qed simp

text \<open>A normalized path that extends a normalized root by a slash lies strictly below it.\<close>

lemma below_root:
  assumes "starts_with (path_of root_segs @ ''/'') (path_of segs)" and "list_all plain_segment root_segs"
    and "list_all plain_segment segs"
  shows "prefix root_segs segs"
proof -
  from assms(1) obtain r where r: "path_of segs = path_of root_segs @ CHR ''/'' # r"
    by (auto simp: starts_with_iff)
  have split: "split_on (CHR ''/'') (path_of xs) = [] # (if xs = [] then [[]] else xs)"
    if "list_all plain_segment xs" for xs
  proof (cases "xs = []")
    case False
    with that have "split_on (CHR ''/'') (join_with ''/'' xs) = xs"
      by (intro split_join) (auto simp: list_all_iff plain_segment_def)
    with False show ?thesis by (simp add: path_of_def)
  qed (simp add: path_of_def)
  have "[] # (if segs = [] then [[]] else segs) =
      ([] # (if root_segs = [] then [[]] else root_segs)) @ split_on (CHR ''/'') r"
    using arg_cong [OF r, of "split_on (CHR ''/'')"] split assms(2,3) by (simp add: split_append)
  with assms(3) show ?thesis
    by (cases root_segs) (auto simp: prefix_def plain_segment_def split: if_splits)
qed

end
