(* ===== verification/FileLength.thy ===== *)
theory FileLength
  imports JsRegex NodePath
begin

text \<open>
  The file-length gate (\<open>src/scripts/check-file-length.mjs\<close>): every tracked source file stays
  within the limit unless a frozen baseline lists it with its exact length, and with \<open>--base\<close> the
  baseline may only lose or lower entries.

  \<open>git\<close>, the file system and \<open>JSON.parse\<close> are the fields of \<open>repository\<close>; a field that can fail
  returns an option. A parsed object lists its properties in the order of \<open>Object.entries\<close>.
\<close>

section \<open>The script\<close>

record repository =
  cwd :: string
  ls_files :: "string \<Rightarrow> string option"
  read_file :: "string \<Rightarrow> string option"
  is_revision :: "string \<Rightarrow> string \<Rightarrow> bool"
  file_at :: "string \<Rightarrow> string \<Rightarrow> string option"
  json_parse :: "string \<Rightarrow> jsval option"

datatype length_error =
    Command_failed
  | Unreadable string
  | Not_json string
  | Not_a_baseline string
  | Bad_entry string string jsval
  | Not_a_revision string

definition LIMIT :: nat where
  "LIMIT = 800"

definition SOURCE_EXTENSION :: regex where
  "SOURCE_EXTENSION = cats
    [chr CHR ''.'',
     alts [cats [Opt (one_of ''cm''), one_of ''jt'', chr CHR ''s''], cats [one_of ''jt'', lit ''sx'']],
     LineEnd]"

definition option_value :: "string list \<Rightarrow> string \<Rightarrow> string option \<Rightarrow> string option" where
  "option_value argv name fallback =
    (case find_index (\<lambda>a. a = name) argv of None \<Rightarrow> fallback
     | Some i \<Rightarrow> if i + 1 < length argv then Some (argv ! (i + 1)) else fallback)"

definition line_count :: "string \<Rightarrow> nat" where
  "line_count text =
    (if text = [] then 0
     else let feeds = length (lines_of text) - 1
          in if ends_with [newline] text then feeds else feeds + 1)"

definition tracked_sources :: "repository \<Rightarrow> string \<Rightarrow> (length_error, string list) result" where
  "tracked_sources E repo =
    (case ls_files E repo of None \<Rightarrow> Throws Command_failed
     | Some listing \<Rightarrow>
         Returns (filter (\<lambda>path. path \<noteq> [] \<and> test SOURCE_EXTENSION False path)
           (split_on (CHR 0x00) listing)))"

fun oversize_of :: "repository \<Rightarrow> string \<Rightarrow> string list \<Rightarrow> (string, nat) jsmap
    \<Rightarrow> (length_error, (string, nat) jsmap) result" where
  "oversize_of E repo [] lengths = Returns lengths"
| "oversize_of E repo (path # paths) lengths =
    (case read_file E (join_path repo path) of None \<Rightarrow> Throws (Unreadable path)
     | Some text \<Rightarrow>
         (let len = line_count text
          in oversize_of E repo paths
               (if len > LIMIT then AList.update path len lengths else lengths)))"

definition oversize :: "repository \<Rightarrow> string \<Rightarrow> (length_error, (string, nat) jsmap) result" where
  "oversize E repo =
    (case tracked_sources E repo of Returns paths \<Rightarrow> oversize_of E repo paths []
     | Throws e \<Rightarrow> Throws e | Hangs \<Rightarrow> Hangs)"

definition entries_map :: "('k \<times> 'v) list \<Rightarrow> ('k, 'v) jsmap" where
  "entries_map ps = fold (\<lambda>(k, v) m. AList.update k v m) ps []"

text \<open>\<open>Number.isInteger(length) && length > LIMIT\<close>, and the length it records.\<close>

fun recorded_length :: "jsval \<Rightarrow> nat option" where
  "recorded_length (Num (Fin q)) =
    (if is_integer (Fin q) \<and> q > of_nat LIMIT then Some (nat \<lfloor>q\<rfloor>) else None)"
| "recorded_length _ = None"

fun checked_entries :: "string \<Rightarrow> (string, jsval) jsmap \<Rightarrow> (length_error, (string, nat) jsmap) result" where
  "checked_entries path [] = Returns []"
| "checked_entries path ((file, v) # rest) =
    (case recorded_length v of None \<Rightarrow> Throws (Bad_entry path file v)
     | Some n \<Rightarrow> (case checked_entries path rest of Returns t \<Rightarrow> Returns ((file, n) # t)
         | Throws e \<Rightarrow> Throws e | Hangs \<Rightarrow> Hangs))"

definition parse_baseline :: "repository \<Rightarrow> string \<Rightarrow> string \<Rightarrow> (length_error, (string, nat) jsmap) result" where
  "parse_baseline E text path =
    (case json_parse E text of None \<Rightarrow> Throws (Not_json path)
     | Some parsed \<Rightarrow>
         (case field (props parsed) ''files'' of
            Obj files \<Rightarrow> checked_entries path (entries_map files)
          | _ \<Rightarrow> Throws (Not_a_baseline path)))"

definition baseline_at :: "repository \<Rightarrow> string \<Rightarrow> string \<Rightarrow> string
    \<Rightarrow> (length_error, (string, nat) jsmap option) result" where
  "baseline_at E repo ref path =
    (if \<not> is_revision E repo ref then Throws (Not_a_revision ref)
     else let spec = ref @ '':'' @ join_with ''/'' (split_on (CHR 0x5C) (relative_path repo path))
          in case file_at E repo spec of None \<Rightarrow> Returns None
             | Some text \<Rightarrow>
                 (case parse_baseline E text spec of Returns t \<Rightarrow> Returns (Some t)
                  | Throws e \<Rightarrow> Throws e | Hangs \<Rightarrow> Hangs))"

datatype length_problem =
    New_entry string
  | Raised_entry string nat nat
  | Over_limit string nat
  | Grew string nat nat
  | Shrank string nat nat
  | Stale_entry string

definition widening :: "(string, nat) jsmap \<Rightarrow> (string, nat) jsmap \<Rightarrow> length_problem list" where
  "widening baseline base = concat (map (\<lambda>(file, len).
     (case map_of base file of None \<Rightarrow> [New_entry file]
      | Some inBase \<Rightarrow> if len > inBase then [Raised_entry file len inBase] else [])) baseline)"

definition over_problems :: "(string, nat) jsmap \<Rightarrow> (string, nat) jsmap \<Rightarrow> length_problem list" where
  "over_problems over baseline = concat (map (\<lambda>(file, len).
     (case map_of baseline file of None \<Rightarrow> [Over_limit file len]
      | Some recorded \<Rightarrow>
          if len > recorded then [Grew file recorded len]
          else if len < recorded then [Shrank file len recorded] else [])) over)"

definition problems_of :: "(string, nat) jsmap \<Rightarrow> (string, nat) jsmap \<Rightarrow> length_problem list" where
  "problems_of over baseline = over_problems over baseline
     @ map Stale_entry (filter (\<lambda>file. map_of over file = None) (jsmap_keys baseline))"

fun problem_text :: "length_problem \<Rightarrow> string" where
  "problem_text (New_entry file) = file
     @ '' is on the baseline but the base revision does not have it. A new offender is split, not listed.''"
| "problem_text (Raised_entry file len inBase) = file @ '' is recorded at '' @ decimal len
     @ '' lines, above '' @ decimal inBase @ '' on the base revision.''"
| "problem_text (Over_limit file len) = file @ '' has '' @ decimal len @ '' lines, over the limit of ''
     @ decimal LIMIT @ ''. Split it by responsibility.''"
| "problem_text (Grew file recorded len) = file @ '' grew from '' @ decimal recorded @ '' to ''
     @ decimal len @ '' lines. A baselined file may only shrink.''"
| "problem_text (Shrank file len recorded) = file @ '' shrank to '' @ decimal len
     @ '' lines. Lower its baseline entry from '' @ decimal recorded @ '' to '' @ decimal len @ ''.''"
| "problem_text (Stale_entry file) = file @ '' is on the baseline but is no longer over '' @ decimal LIMIT
     @ '' lines or tracked. Remove its entry.''"

text \<open>
  The run: the baseline, the baseline of the base revision when one is given, then the problems.
  Any value that is not \<open>Returns []\<close> ends the process with exit code 1 (an uncaught error too).
\<close>

definition root_of :: "repository \<Rightarrow> string list \<Rightarrow> string" where
  "root_of E argv = resolve_path (cwd E) (case option_value argv ''--root'' None of None \<Rightarrow> cwd E | Some r \<Rightarrow> r)"

definition baseline_path :: "repository \<Rightarrow> string list \<Rightarrow> string" where
  "baseline_path E argv = resolve_path (cwd E)
    (case option_value argv ''--baseline'' None of
       None \<Rightarrow> join_path (root_of E argv) ''scripts/file-length-baseline.json'' | Some p \<Rightarrow> p)"

definition read_baseline :: "repository \<Rightarrow> string list \<Rightarrow> (length_error, (string, nat) jsmap) result" where
  "read_baseline E argv =
    (case read_file E (baseline_path E argv) of None \<Rightarrow> Throws (Unreadable (baseline_path E argv))
     | Some text \<Rightarrow> parse_baseline E text (baseline_path E argv))"

definition base_of :: "repository \<Rightarrow> string list \<Rightarrow> (length_error, (string, nat) jsmap option) result" where
  "base_of E argv =
    (case option_value argv ''--base'' None of None \<Rightarrow> Returns None
     | Some ref \<Rightarrow> baseline_at E (root_of E argv) ref (baseline_path E argv))"

definition file_length_gate :: "repository \<Rightarrow> string list \<Rightarrow> (length_error, length_problem list) result" where
  "file_length_gate E argv =
    fst (andthen (read_baseline E argv, ()) (\<lambda>baseline _.
      andthen (base_of E argv, ()) (\<lambda>base _.
        andthen (oversize E (root_of E argv), ()) (\<lambda>over _.
          (Returns (problems_of over baseline
             @ (case base of None \<Rightarrow> [] | Some b \<Rightarrow> widening baseline b)), ())))))"

definition exit_code :: "(length_error, length_problem list) result \<Rightarrow> nat" where
  "exit_code r = (if r = Returns [] then 0 else 1)"

section \<open>The length of a file\<close>

lemma lines_of_terminated:
  assumes "\<And>l. l \<in> set ls \<Longrightarrow> newline \<notin> set l"
  shows "lines_of (concat (map (\<lambda>l. l @ [newline]) ls) @ rest) = ls @ lines_of rest"
  using assms by (induction ls) (auto simp: split_append_sep)

lemma ends_with_newline: "ends_with [newline] s \<longleftrightarrow> s \<noteq> [] \<and> last s = newline"
  unfolding ends_with_iff by (metis append_butlast_last_id last_snoc snoc_eq_iff_butlast)

text \<open>A file of terminated lines and an unterminated rest has as many lines as it shows.\<close>

lemma line_count_shape:
  assumes ls: "\<And>l. l \<in> set ls \<Longrightarrow> newline \<notin> set l" and rest: "newline \<notin> set rest"
  shows "line_count (concat (map (\<lambda>l. l @ [newline]) ls) @ rest) = length ls + (if rest = [] then 0 else 1)"
proof (cases "rest = []")
  case True
  let ?t = "concat (map (\<lambda>l. l @ [newline]) ls)"
  have "lines_of ?t = ls @ [[]]" using lines_of_terminated [where rest = "[]", OF ls] by simp
  moreover have "?t = [] \<longleftrightarrow> ls = []" by (cases ls) auto
  moreover have "last ?t = newline" if "ls \<noteq> []"
    using that by (cases ls rule: rev_cases) auto
  ultimately show ?thesis using True by (auto simp: line_count_def ends_with_newline)
next
  case False
  then have "last rest \<noteq> newline" using rest by (metis last_in_set)
  with False show ?thesis
    by (simp add: line_count_def lines_of_terminated [OF ls] split_no_sep [OF rest] ends_with_newline)
qed

section \<open>What the gate accepts\<close>

lemma over_problems_none:
  "over_problems over baseline = [] \<longleftrightarrow> (\<forall>(file, len) \<in> set over. map_of baseline file = Some len)"
  by (auto simp: over_problems_def split: option.splits if_splits)

lemma widening_none:
  "widening baseline base = [] \<longleftrightarrow>
     (\<forall>(file, len) \<in> set baseline. \<exists>b. map_of base file = Some b \<and> len \<le> b)"
  by (fastforce simp: widening_def split: option.splits if_splits)

lemma problems_none_maps:
  assumes "jsmap_wf over"
  shows "problems_of over baseline = [] \<longleftrightarrow> map_of over = map_of baseline"
proof
  assume "problems_of over baseline = []"
  then have over: "\<And>f n. (f, n) \<in> set over \<Longrightarrow> map_of baseline f = Some n"
    and stale: "\<And>f. f \<in> fst ` set baseline \<Longrightarrow> map_of over f \<noteq> None"
    by (auto simp: problems_of_def over_problems_none jsmap_keys_def filter_empty_conv)
  show "map_of over = map_of baseline"
  proof
    fix f
    show "map_of over f = map_of baseline f"
    proof (cases "map_of over f")
      case None
      with stale [of f] show ?thesis by (metis map_of_eq_None_iff)
    next
      case (Some n)
      with over map_of_in_set show ?thesis by metis
    qed
  qed
next
  assume eq: "map_of over = map_of baseline"
  have "over_problems over baseline = []"
    unfolding over_problems_none using assms eq
    by (auto simp: jsmap_wf_def) (metis map_of_eq_Some_iff)
  moreover have "filter (\<lambda>f. map_of over f = None) (jsmap_keys baseline) = []"
    by (auto simp: eq jsmap_keys_def filter_empty_conv map_of_eq_None_iff)
  ultimately show "problems_of over baseline = []" by (simp add: problems_of_def)
qed

lemma jsmap_wf_entries_map: "jsmap_wf (entries_map ps)"
  unfolding entries_map_def
  by (rule fold_inv) (auto simp: jsmap_wf_def intro: jm.wf_put [unfolded jsmap_wf_def] split: prod.split)

text \<open>The lengths the gate looks at, as a function of the path.\<close>

definition content_of :: "repository \<Rightarrow> string \<Rightarrow> string \<Rightarrow> string option" where
  "content_of E repo path = read_file E (join_path repo path)"

definition over_limit :: "repository \<Rightarrow> string \<Rightarrow> string list \<Rightarrow> string \<Rightarrow> nat option" where
  "over_limit E repo paths path =
    (case content_of E repo path of None \<Rightarrow> None
     | Some text \<Rightarrow> if path \<in> set paths \<and> line_count text > LIMIT then Some (line_count text) else None)"

lemma oversize_of_readable:
  assumes "None \<notin> content_of E repo ` set paths"
  shows "\<exists>over. oversize_of E repo paths acc = Returns over \<and> (jsmap_wf acc \<longrightarrow> jsmap_wf over)
     \<and> map_of over = map_of acc ++ over_limit E repo paths"
  using assms
proof (induction paths arbitrary: acc)
  case Nil
  then show ?case by (auto simp: over_limit_def fun_eq_iff map_add_def split: option.split)
next
  case (Cons p ps)
  then obtain content where rd: "content_of E repo p = Some content" by (cases "content_of E repo p") auto
  let ?acc = "if line_count content > LIMIT then AList.update p (line_count content) acc else acc"
  from Cons obtain over where over: "oversize_of E repo ps ?acc = Returns over"
    "jsmap_wf ?acc \<longrightarrow> jsmap_wf over" "map_of over = map_of ?acc ++ over_limit E repo ps" by fastforce
  have "map_of ?acc ++ over_limit E repo ps = map_of acc ++ over_limit E repo (p # ps)"
    using rd by (auto simp: fun_eq_iff map_add_def over_limit_def update_conv' split: option.split)
  moreover have "jsmap_wf acc \<longrightarrow> jsmap_wf ?acc" by (simp add: jm.wf_put)
  ultimately show ?case using over rd by (auto simp: content_of_def Let_def)
qed

lemma oversize_of_unreadable:
  assumes "None \<in> content_of E repo ` set paths"
  shows "\<exists>p. oversize_of E repo paths acc = Throws (Unreadable p)"
  using assms by (induction paths arbitrary: acc) (auto simp: content_of_def Let_def split: option.split)

text \<open>\<open>Some t\<close> when every entry of the baseline is within the one of the base revision.\<close>

definition within_base :: "(string, nat) jsmap option \<Rightarrow> (string, nat) jsmap \<Rightarrow> bool" where
  "within_base base baseline \<longleftrightarrow>
    (case base of None \<Rightarrow> True
     | Some b \<Rightarrow> (\<forall>(file, len) \<in> set baseline. \<exists>n. map_of b file = Some n \<and> len \<le> n))"

text \<open>
  C25. The gate ends with exit code 0 exactly when everything it needs can be read, the baseline
  lists precisely the tracked source files over the limit with their present lengths, and the
  baseline of the base revision, when asked for, allows every entry.
\<close>

theorem file_length_gate_iff:
  "exit_code (file_length_gate E argv) = 0 \<longleftrightarrow>
     (\<exists>paths baseline base.
        tracked_sources E (root_of E argv) = Returns paths
      \<and> None \<notin> content_of E (root_of E argv) ` set paths
      \<and> read_baseline E argv = Returns baseline \<and> base_of E argv = Returns base
      \<and> map_of baseline = over_limit E (root_of E argv) paths
      \<and> within_base base baseline)"
  (is "_ \<longleftrightarrow> ?R")
proof (cases "read_baseline E argv")
  case (Returns baseline)
  note b = Returns
  show ?thesis
  proof (cases "base_of E argv")
    case (Returns base)
    note base = Returns
    show ?thesis
    proof (cases "tracked_sources E (root_of E argv)")
      case (Returns paths)
      show ?thesis
      proof (cases "None \<in> content_of E (root_of E argv) ` set paths")
        case True
        then obtain p where "oversize_of E (root_of E argv) paths [] = Throws (Unreadable p)"
          using oversize_of_unreadable by blast
        with True b base Returns show ?thesis
          by (simp add: exit_code_def file_length_gate_def oversize_def)
      next
        case False
        from oversize_of_readable [OF this, of "[]"] obtain over where
          over: "oversize_of E (root_of E argv) paths [] = Returns over" "jsmap_wf over"
            "map_of over = over_limit E (root_of E argv) paths"
          by (auto simp: jsmap_wf_def)
        have "exit_code (file_length_gate E argv) = 0 \<longleftrightarrow>
            problems_of over baseline = [] \<and> within_base base baseline"
          using b base Returns over(1)
          by (auto simp: exit_code_def file_length_gate_def oversize_def within_base_def widening_none
              split: option.splits)
        also have "\<dots> \<longleftrightarrow> ?R"
          using False b base Returns by (auto simp: problems_none_maps [OF over(2)] over(3))
        finally show ?thesis .
      qed
    qed (use b base in \<open>auto simp: exit_code_def file_length_gate_def oversize_def\<close>)
  qed (use b in \<open>auto simp: exit_code_def file_length_gate_def\<close>)
qed (auto simp: exit_code_def file_length_gate_def)

section \<open>The ratchet\<close>

text \<open>
  A revision as the gate sees it: the files over the limit and the baseline. A change is accepted
  when the gate, run on the new revision with the old one as its base, finds no problem.
\<close>

type_synonym revision = "(string, nat) jsmap \<times> (string, nat) jsmap"

definition accepted_change :: "revision \<Rightarrow> revision \<Rightarrow> bool" where
  "accepted_change old new \<longleftrightarrow>
    problems_of (fst new) (snd new) @ widening (snd new) (snd old) = []"

lemma accepted_over_baseline:
  "problems_of over baseline = [] \<Longrightarrow> map_of over f = Some n \<Longrightarrow> map_of baseline f = Some n"
  by (auto simp: problems_of_def over_problems_none dest: map_of_in_set)

lemma accepted_baseline_over:
  assumes "problems_of over baseline = []" and "map_of baseline f = Some n"
  shows "map_of over f = Some n"
proof -
  from assms(1) have "\<forall>g \<in> fst ` set baseline. map_of over g \<noteq> None"
    by (auto simp: problems_of_def jsmap_keys_def filter_empty_conv)
  moreover have "f \<in> fst ` set baseline" using map_of_in_set [OF assms(2)] by force
  ultimately have "map_of over f \<noteq> None" by blast
  with assms accepted_over_baseline show ?thesis by fastforce
qed

text \<open>
  C26. The baseline is a ratchet: along any history of accepted changes, a file that is over the
  limit at the end was over the limit at the start, and with at least as many lines.
\<close>

theorem baseline_ratchet:
  assumes "problems_of (fst start) (snd start) = []"
    and "accepted_change\<^sup>*\<^sup>* start now"
    and "map_of (fst now) file = Some n"
  shows "\<exists>m. map_of (fst start) file = Some m \<and> n \<le> m"
  using assms(2,3)
proof (induction arbitrary: n rule: rtranclp_induct)
  case base
  then show ?case by auto
next
  case (step mid new)
  then have new: "problems_of (fst new) (snd new) = []" "widening (snd new) (snd mid) = []"
    by (auto simp: accepted_change_def)
  have "problems_of (fst mid) (snd mid) = []"
    using step.hyps(1) assms(1) by (cases rule: rtranclp.cases) (auto simp: accepted_change_def)
  moreover obtain b where "map_of (snd mid) file = Some b" "n \<le> b"
    using accepted_over_baseline [OF new(1) step.prems] new(2)
    by (fastforce simp: widening_none dest: map_of_in_set)
  ultimately show ?case using accepted_baseline_over step.IH le_trans by blast
qed

theorem baseline_ratchet_witness:
  "\<exists>m. map_of [(''a.ts'', 900), (''b.ts'', 850)] ''a.ts'' = Some m \<and> (870::nat) \<le> m"
proof -
  let ?r0 = "([(''a.ts'', 900), (''b.ts'', 850)], [(''b.ts'', 850), (''a.ts'', 900)]) :: revision"
  let ?r1 = "([(''a.ts'', 870)], [(''a.ts'', 870)]) :: revision"
  have "accepted_change ?r0 ?r1"
    by (simp add: accepted_change_def problems_of_def over_problems_def widening_def jsmap_keys_def)
  then have "accepted_change\<^sup>*\<^sup>* ?r0 ?r1" by simp
  then show ?thesis
    using baseline_ratchet [of ?r0 ?r1 "''a.ts''" 870]
    by (simp add: problems_of_def over_problems_def jsmap_keys_def)
qed

end
