(* ===== verification/LinkGuard.thy ===== *)
theory LinkGuard
  imports JsRegex "HOL-Library.Sublist"
begin

text \<open>
  The network half of the published-surface gate (\<open>src/scripts/check-published-surface.mjs\<close>):
  which addresses and URLs a documentation link may reach, the redirect chain followed by hand,
  and the probe of one link. What is sent out and what is validated is recorded in a trace.

  The outside is \<open>network\<close>: WHATWG URL parsing, name resolution (no answer when it fails or
  takes longer than its five seconds) and \<open>fetch\<close> with its redirects switched off (a transport
  error when it rejects, the ten-second signal included). What resolution and \<open>fetch\<close> answer
  may depend on everything that happened before.
\<close>

datatype http_method = HEAD | GET

datatype event =
    Checked string "string option"
  | Requested http_method string

type_synonym trace = "event list"

record web_url =
  url_protocol :: string
  url_hostname :: string
  url_href :: string

datatype fetched = Response nat "string option" | Transport_error string

record network =
  parse_url :: "string \<Rightarrow> string option \<Rightarrow> web_url option"
  dns_lookup :: "trace \<Rightarrow> string \<Rightarrow> string list option"
  fetch_once :: "trace \<Rightarrow> http_method \<Rightarrow> string \<Rightarrow> fetched"

section \<open>Addresses\<close>

definition octet :: regex where
  "octet = upto_times 3 digit"

definition IPV4_RE :: regex where
  "IPV4_RE = cats
    [LineStart, Group 1 octet, chr CHR ''.'', Group 2 octet, chr CHR ''.'', Group 3 octet,
     chr CHR ''.'', Group 4 octet, LineEnd]"

definition ipv4_reason :: "nat \<Rightarrow> nat \<Rightarrow> string option" where
  "ipv4_reason a b =
    (if a = 127 then Some ''a loopback address''
     else if a = 0 then Some ''in the unspecified network (0.0.0.0/8)''
     else if a = 10 \<or> (a = 172 \<and> b \<ge> 16 \<and> b \<le> 31) \<or> (a = 192 \<and> b = 168)
       then Some ''a private address''
     else if a = 169 \<and> b = 254 then Some ''a link-local address (cloud metadata range)''
     else None)"

definition unique_local_start :: regex where
  "unique_local_start = cats [LineStart, chr CHR ''f'', one_of ''cd'']"

definition link_local_start :: regex where
  "link_local_start = cats [LineStart, lit ''fe'', one_of ''89ab'']"

function private_address_reason :: "string \<Rightarrow> string option" where
  "private_address_reason ip =
    (let h = to_lower ip
     in case exec IPV4_RE False h 0 of
          Some v4 \<Rightarrow> ipv4_reason (number_of (the_group v4 1)) (number_of (the_group v4 2))
        | None \<Rightarrow>
            if h = ''::1'' then Some ''a loopback address''
            else if h = ''::'' then Some ''the unspecified address''
            else if starts_with ''::ffff:'' h then private_address_reason (drop 7 h)
            else if test unique_local_start False h then Some ''a unique-local address''
            else if test link_local_start False h then Some ''a link-local address''
            else None)"
  by pat_completeness auto
termination
  by (relation "measure length") (auto simp: to_lower_def starts_with_iff)

declare private_address_reason.simps [simp del]

section \<open>URLs\<close>

definition trailing_dot :: regex where
  "trailing_dot = cats [chr CHR ''.'', LineEnd]"

definition IPV4_LITERAL_RE :: regex where
  "IPV4_LITERAL_RE = (let part = Cat (chr CHR ''.'') octet
    in cats [LineStart, octet, part, part, part, LineEnd])"

definition literal_reason :: "string \<Rightarrow> string \<Rightarrow> string" where
  "literal_reason address kind =
    (case private_address_reason address of Some reason \<Rightarrow> ''is '' @ reason
     | None \<Rightarrow> ''is an '' @ kind @ '' literal, not a hostname'')"

fun first_private :: "string list \<Rightarrow> string option" where
  "first_private [] = None"
| "first_private (address # rest) =
    (case private_address_reason address of
       Some reason \<Rightarrow> Some (''resolves to '' @ address @ '', which is '' @ reason)
     | None \<Rightarrow> first_private rest)"

definition unroutable_reason :: "network \<Rightarrow> trace \<Rightarrow> string \<Rightarrow> string option" where
  "unroutable_reason E tr url =
    (case parse_url E url None of
       None \<Rightarrow> Some ''is not a valid URL''
     | Some u \<Rightarrow>
         if url_protocol u \<noteq> ''https:''
         then Some (''uses '' @ replace_first (chr CHR '':'') False (\<lambda>_. []) (url_protocol u) @ '', not https'')
         else let h = replace_first trailing_dot False (\<lambda>_. []) (to_lower (url_hostname u))
           in if h = ''localhost'' \<or> ends_with ''.localhost'' h then Some ''is a loopback name''
              else if ends_with ''.local'' h then Some ''is an mDNS name, resolvable only on the local link''
              else if starts_with ''['' h then Some (literal_reason (butlast (tl h)) ''IPv6'')
              else if test IPV4_LITERAL_RE False h then Some (literal_reason h ''IPv4'')
              else (case dns_lookup E tr h of None \<Rightarrow> None | Some addresses \<Rightarrow> first_private addresses))"

section \<open>The redirect chain\<close>

definition REDIRECT_STATUSES :: "nat list" where
  "REDIRECT_STATUSES = [301, 302, 303, 307, 308]"

datatype fetch_outcome = Answer nat | Refused string | Broken string

function fetch_checked ::
    "network \<Rightarrow> http_method \<Rightarrow> trace \<Rightarrow> string \<Rightarrow> nat \<Rightarrow> fetch_outcome \<times> trace" where
  "fetch_checked E verb tr url hops =
    (if hops > 5 then (Refused ''follows more than 5 redirects'', tr)
     else
       let tr1 = tr @ [Requested verb url]
       in case fetch_once E tr verb url of
            Transport_error m \<Rightarrow> (Broken m, tr1)
          | Response status location \<Rightarrow>
              if status \<notin> set REDIRECT_STATUSES then (Answer status, tr1)
              else case location of
                None \<Rightarrow> (Answer status, tr1)
              | Some l \<Rightarrow>
                  if l = [] then (Answer status, tr1)
                  else case parse_url E l (Some url) of
                    None \<Rightarrow> (Refused (''redirects to an unparsable location: '' @ l), tr1)
                  | Some u \<Rightarrow>
                      let reason = unroutable_reason E tr1 (url_href u);
                          tr2 = tr1 @ [Checked (url_href u) reason]
                      in case reason of
                           Some r \<Rightarrow> (Refused (''redirects to '' @ url_href u @ '', which '' @ r), tr2)
                         | None \<Rightarrow> fetch_checked E verb tr2 (url_href u) (hops + 1))"
  by pat_completeness auto
termination
  by (relation "measure (\<lambda>(_, _, _, _, hops). 6 - hops)") auto

declare fetch_checked.simps [simp del]

section \<open>One link\<close>

text \<open>\<open>encodeURIComponent\<close>; a code unit above 127 is two bytes of UTF-8.\<close>

definition unreserved :: "char \<Rightarrow> bool" where
  "unreserved c \<longleftrightarrow> word_char c \<or> c \<in> set ''-.!~*()'' \<or> c = CHR 0x27"

definition percent_byte :: "nat \<Rightarrow> string" where
  "percent_byte n = (let hex = (\<lambda>d. if d < 10 then char_of (d + 48) else char_of (d + 55))
    in [CHR 0x25, hex (n div 16), hex (n mod 16)])"

definition encode_char :: "char \<Rightarrow> string" where
  "encode_char c =
    (let n = of_char c :: nat
     in if unreserved c then [c] else if n < 128 then percent_byte n
        else percent_byte (192 + n div 64) @ percent_byte (128 + n mod 64))"

definition encode_uri_component :: "string \<Rightarrow> string" where
  "encode_uri_component s = concat (map encode_char s)"

definition npm_package_page :: regex where
  "npm_package_page = cats
    [LineStart, lit ''https://www.npmjs.com/package/'', Group 1 (some any_char), LineEnd]"

definition probe_of :: "string \<Rightarrow> string" where
  "probe_of url = replace_first npm_package_page False
    (\<lambda>m. ''https://registry.npmjs.org/'' @ encode_uri_component (the_group m 1)) url"

text \<open>\<open>' \<rightarrow> '\<close> and the dash of a message, as their three bytes of UTF-8.\<close>

definition dash :: string where
  "dash = [CHR 0xE2, CHR 0x80, CHR 0x94]"

definition arrow :: string where
  "arrow = [CHR '' '', CHR 0xE2, CHR 0x86, CHR 0x92, CHR '' '']"

text \<open>What the check of a link comes to: nothing, a note, or a finding that fails the gate.\<close>

datatype verdict = Fine | Note string | Finding string

definition retry_statuses :: "nat list" where
  "retry_statuses = [405, 403, 429]"

definition judge :: "string \<Rightarrow> string \<Rightarrow> fetch_outcome \<Rightarrow> verdict" where
  "judge url probe res =
    (case res of
       Answer status \<Rightarrow>
         if 200 \<le> status \<and> status \<le> 299 then Fine
         else if status = 404 \<and> probe \<noteq> url
           then Note (url @ '' is not live yet '' @ dash @ '' expected until the first publish'')
         else Finding (url @ arrow @ ''HTTP '' @ decimal status)
     | Refused r \<Rightarrow> Finding (url @ arrow @ r)
     | Broken m \<Rightarrow> Note (url @ '' could not be reached ('' @ m @ '')''))"

definition probe_link :: "network \<Rightarrow> trace \<Rightarrow> string \<Rightarrow> string \<Rightarrow> verdict \<times> trace" where
  "probe_link E tr url probe =
    (case fetch_checked E HEAD tr probe 0 of
       (Answer status, tr1) \<Rightarrow>
         if status \<in> set retry_statuses
         then (case fetch_checked E GET tr1 probe 0 of (res, tr2) \<Rightarrow> (judge url probe res, tr2))
         else (judge url probe (Answer status), tr1)
     | (res, tr1) \<Rightarrow> (judge url probe res, tr1))"

definition check_link :: "network \<Rightarrow> trace \<Rightarrow> string \<Rightarrow> verdict \<times> trace" where
  "check_link E tr url =
    (let unroutable = unroutable_reason E tr url; tr1 = tr @ [Checked url unroutable]
     in case unroutable of
          Some r \<Rightarrow> (Finding (url @ arrow @ r), tr1)
        | None \<Rightarrow>
            (let probe = probe_of url
             in if probe = url then probe_link E tr1 url probe
                else
                  let rewritten = unroutable_reason E tr1 probe; tr2 = tr1 @ [Checked probe rewritten]
                  in case rewritten of
                       Some r \<Rightarrow> (Finding (url @ arrow @ ''rewritten to '' @ probe @ '', which '' @ r), tr2)
                     | None \<Rightarrow> probe_link E tr2 url probe))"

section \<open>What is requested has been validated\<close>

fun event_ok :: "network \<Rightarrow> trace \<Rightarrow> event \<Rightarrow> bool" where
  "event_ok E before (Checked u r) = (unroutable_reason E before u = r)"
| "event_ok E before (Requested m u) = (Checked u None \<in> set before)"

text \<open>
  A trace is validated when each recorded check is what the guard answered at that moment, and
  each request comes after a check of the same URL that found nothing against it.
\<close>

definition validated :: "network \<Rightarrow> trace \<Rightarrow> bool" where
  "validated E tr \<longleftrightarrow> (\<forall>k < length tr. event_ok E (take k tr) (tr ! k))"

lemma validated_Nil [simp]: "validated E []"
  by (simp add: validated_def)

lemma validated_snoc: "validated E (tr @ [ev]) \<longleftrightarrow> validated E tr \<and> event_ok E tr ev"
proof -
  have "(\<forall>k < Suc n. P k) \<longleftrightarrow> (\<forall>k < n. P k) \<and> P n" for n and P :: "nat \<Rightarrow> bool"
    using less_Suc_eq by auto
  then show ?thesis by (auto simp: validated_def nth_append)
qed

text \<open>One round of the chain: it ends, or it goes on to a validated target with one hop more.\<close>

lemma fetch_checked_round:
  obtains (full) "hops > 5" "snd (fetch_checked E verb tr url hops) = tr"
  | (last) "hops \<le> 5" "snd (fetch_checked E verb tr url hops) = tr @ [Requested verb url]"
  | (refused) u r where "hops \<le> 5" "unroutable_reason E (tr @ [Requested verb url]) u = Some r"
      "snd (fetch_checked E verb tr url hops) = (tr @ [Requested verb url]) @ [Checked u (Some r)]"
  | (hop) u where "hops \<le> 5" "unroutable_reason E (tr @ [Requested verb url]) u = None"
      "fetch_checked E verb tr url hops =
        fetch_checked E verb ((tr @ [Requested verb url]) @ [Checked u None]) u (Suc hops)"
proof (cases "hops > 5")
  case True
  then show ?thesis using full by (simp add: fetch_checked.simps [of E verb tr url hops])
next
  case False
  note unfold = fetch_checked.simps [of E verb tr url hops]
  show ?thesis
  proof (cases "fetch_once E tr verb url")
    case (Transport_error m)
    with False show ?thesis by (intro last) (simp_all add: unfold)
  next
    case (Response status location)
    show ?thesis
    proof (cases "status \<in> set REDIRECT_STATUSES \<and> location \<noteq> None \<and> location \<noteq> Some []")
      case True
      then obtain l where l: "location = Some l" "l \<noteq> []" by auto
      show ?thesis
      proof (cases "parse_url E l (Some url)")
        case None
        with False True Response l show ?thesis by (intro last) (simp_all add: unfold)
      next
        case (Some u)
        show ?thesis
        proof (cases "unroutable_reason E (tr @ [Requested verb url]) (url_href u)")
          case None
          with False True Response l Some show ?thesis
            by (intro hop [of "url_href u"]) (simp_all add: unfold Let_def)
        next
          case (Some r)
          with False True Response l \<open>parse_url E l (Some url) = Some u\<close> show ?thesis
            by (intro refused [of "url_href u" r]) (simp_all add: unfold Let_def)
        qed
      qed
    next
      case nothing: False
      with False Response show ?thesis
        by (intro last) (auto simp: unfold Let_def split: option.split)
    qed
  qed
qed

lemma fetch_checked_validated:
  "validated E tr \<Longrightarrow> Checked url None \<in> set tr \<Longrightarrow>
     validated E (snd (fetch_checked E verb tr url hops))
   \<and> set tr \<subseteq> set (snd (fetch_checked E verb tr url hops))"
proof (induction "6 - hops" arbitrary: tr url hops rule: less_induct)
  case less
  then have sent: "validated E (tr @ [Requested verb url])" by (simp add: validated_snoc)
  show ?case
  proof (cases rule: fetch_checked_round [of hops E verb tr url])
    case full
    with less.prems show ?thesis by simp
  next
    case last
    with sent show ?thesis by auto
  next
    case (refused u r)
    then have "validated E ((tr @ [Requested verb url]) @ [Checked u (Some r)])"
      using sent by (simp only: validated_snoc [of E "tr @ [Requested verb url]"] event_ok.simps simp_thms)
    with refused(3) show ?thesis by auto
  next
    case (hop u)
    let ?tr2 = "(tr @ [Requested verb url]) @ [Checked u None]"
    have "validated E ?tr2"
      using sent hop(2)
      by (simp only: validated_snoc [of E "tr @ [Requested verb url]"] event_ok.simps simp_thms)
    from less.hyps [of "Suc hops", OF _ this, of u] hop(1) show ?thesis unfolding hop(3) by auto
  qed
qed

fun requests :: "trace \<Rightarrow> nat" where
  "requests [] = 0"
| "requests (Requested m u # tr) = Suc (requests tr)"
| "requests (Checked u r # tr) = requests tr"

lemma requests_append [simp]: "requests (tr @ ts) = requests tr + requests ts"
  by (induction tr rule: requests.induct) auto

lemma fetch_checked_requests:
  "requests (snd (fetch_checked E verb tr url hops)) \<le> requests tr + (6 - hops)"
proof (induction "6 - hops" arbitrary: tr url hops rule: less_induct)
  case less
  show ?case
  proof (cases rule: fetch_checked_round [of hops E verb tr url])
    case (hop u)
    from less.hyps [of "Suc hops" "(tr @ [Requested verb url]) @ [Checked u None]" u] hop(1)
    show ?thesis unfolding hop(3) by simp linarith
  qed auto
qed

lemma probe_link_validated:
  assumes "validated E tr" and "Checked probe None \<in> set tr"
  shows "validated E (snd (probe_link E tr url probe))"
proof -
  obtain res tr1 where f: "fetch_checked E HEAD tr probe 0 = (res, tr1)" by (metis surj_pair)
  with fetch_checked_validated [OF assms, of HEAD 0] assms(2)
  have tr1: "validated E tr1" "Checked probe None \<in> set tr1" by auto
  obtain res2 tr2 where g: "fetch_checked E GET tr1 probe 0 = (res2, tr2)" by (metis surj_pair)
  with fetch_checked_validated [OF tr1, of GET 0] have "validated E tr2" by auto
  with f g tr1 show ?thesis by (cases res) (auto simp: probe_link_def)
qed

lemma probe_link_requests: "requests (snd (probe_link E tr url probe)) \<le> requests tr + 12"
proof -
  obtain res tr1 where f: "fetch_checked E HEAD tr probe 0 = (res, tr1)" by (metis surj_pair)
  obtain res2 tr2 where g: "fetch_checked E GET tr1 probe 0 = (res2, tr2)" by (metis surj_pair)
  show ?thesis
    using fetch_checked_requests [of E HEAD tr probe 0] fetch_checked_requests [of E GET tr1 probe 0] f g
    by (cases res) (auto simp: probe_link_def)
qed

lemma check_link_validated: "validated E (snd (check_link E [] url))"
proof -
  have one: "validated E [Checked url (unroutable_reason E [] url)]"
    using validated_snoc [of E "[]"] by simp
  have two: "validated E ([Checked url None] @ [Checked (probe_of url)
      (unroutable_reason E [Checked url None] (probe_of url))])"
    if "unroutable_reason E [] url = None"
    using one [unfolded that] by (simp only: validated_snoc event_ok.simps simp_thms)
  show ?thesis
    using one two probe_link_validated [of E "[Checked url None]" url url]
      probe_link_validated [of E "[Checked url None, Checked (probe_of url) None]" "probe_of url" url]
    by (auto simp: check_link_def Let_def split: option.split)
qed

section \<open>Public hosts\<close>

text \<open>
  The hosts the guard lets through: a URL that parses, over https, whose host is neither a local
  name nor an IP literal, and of which no address the resolver gave is a private one.
\<close>

definition host_of :: "web_url \<Rightarrow> string" where
  "host_of u = replace_first trailing_dot False (\<lambda>_. []) (to_lower (url_hostname u))"

definition public_url :: "network \<Rightarrow> trace \<Rightarrow> string \<Rightarrow> bool" where
  "public_url E tr url \<longleftrightarrow>
    (\<exists>u. parse_url E url None = Some u \<and> url_protocol u = ''https:''
       \<and> host_of u \<noteq> ''localhost'' \<and> \<not> ends_with ''.localhost'' (host_of u)
       \<and> \<not> ends_with ''.local'' (host_of u) \<and> \<not> starts_with ''['' (host_of u)
       \<and> \<not> test IPV4_LITERAL_RE False (host_of u)
       \<and> (case dns_lookup E tr (host_of u) of None \<Rightarrow> True
          | Some addresses \<Rightarrow> list_all (\<lambda>a. private_address_reason a = None) addresses))"

lemma first_private_None: "first_private as = None \<longleftrightarrow> list_all (\<lambda>a. private_address_reason a = None) as"
  by (induction as) (auto split: option.split)

lemma routable_iff: "unroutable_reason E tr url = None \<longleftrightarrow> public_url E tr url"
  by (auto simp: unroutable_reason_def public_url_def host_of_def Let_def first_private_None
      split: option.splits)

text \<open>
  C30. Nothing is requested unchecked: whatever the resolver and the servers answer, every request
  made while a link is checked, redirect hops and the rewritten npm address included, is for a
  URL that the guard examined earlier and found public at that moment.
\<close>

theorem requests_are_validated:
  assumes "snd (check_link E [] url) = pre @ Requested m u # post"
  shows "\<exists>before. Checked u None \<in> set pre \<and> prefix (before @ [Checked u None]) pre \<and> public_url E before u"
proof -
  let ?tr = "snd (check_link E [] url)"
  have v: "validated E ?tr" by (rule check_link_validated)
  have "event_ok E pre (Requested m u)"
    using v assms by (auto simp: validated_def dest: spec [of _ "length pre"])
  then have "Checked u None \<in> set pre" by simp
  then obtain before rest where pre: "pre = before @ Checked u None # rest"
    by (meson split_list)
  have "event_ok E before (Checked u None)"
    using v assms pre by (auto simp: validated_def dest: spec [of _ "length before"])
  then have "public_url E before u" by (simp add: routable_iff)
  with pre show ?thesis by (auto simp: prefix_def)
qed

text \<open>
  Checking a link sends at most twelve requests: six hops for \<open>HEAD\<close> and six for \<open>GET\<close>.
\<close>

lemma link_check_is_bounded: "requests (snd (check_link E [] url)) \<le> 12"
proof -
  show ?thesis
    using probe_link_requests [of E "[Checked url None]" url url]
      probe_link_requests [of E "[Checked url None, Checked (probe_of url) None]" url "probe_of url"]
    by (auto simp: check_link_def Let_def split: option.split)
qed

section \<open>IPv4 addresses\<close>

lemma octet_plain: "plain octet" "groups octet = []"
  by (simp_all add: octet_def eval_nat_numeral digit_def)

lemma lang_Cat_class:
  "s \<in> lang (Cat (Cls P) q) \<longleftrightarrow> (\<exists>c v. s = c # v \<and> P c \<and> v \<in> lang q)"
proof
  assume "s \<in> lang (Cat (Cls P) q)"
  then show "\<exists>c v. s = c # v \<and> P c \<and> v \<in> lang q" by auto
next
  assume "\<exists>c v. s = c # v \<and> P c \<and> v \<in> lang q"
  then obtain c v where "s = [c] @ v" "P c" "v \<in> lang q" by auto
  then show "s \<in> lang (Cat (Cls P) q)" unfolding lang.simps by blast
qed

lemma octet_unfold: "octet = Cat digit (Opt (Cat digit (Opt digit)))"
  by (simp add: octet_def eval_nat_numeral)

lemma lang_octet: "lang octet = {s. 1 \<le> length s \<and> length s \<le> 3 \<and> list_all is_digit s}"
proof -
  have "s \<in> lang octet \<longleftrightarrow> 1 \<le> length s \<and> length s \<le> 3 \<and> list_all is_digit s" for s
  proof -
    have "s \<in> lang octet \<longleftrightarrow> (\<exists>a. s = [a] \<and> is_digit a)
        \<or> (\<exists>a b. s = [a, b] \<and> is_digit a \<and> is_digit b)
        \<or> (\<exists>a b c. s = [a, b, c] \<and> is_digit a \<and> is_digit b \<and> is_digit c)"
      unfolding octet_unfold digit_def lang_Cat_class lang.simps(5) insert_iff by auto
    also have "\<dots> \<longleftrightarrow> 1 \<le> length s \<and> length s \<le> 3 \<and> list_all is_digit s"
      by (auto simp: le_Suc_eq length_Suc_conv eval_nat_numeral)
    finally show ?thesis .
  qed
  then show ?thesis by blast
qed

lemma octet_group_successes:
  "(j, cs') \<in> set (successes (Group n octet) multi s (i, cs)) \<longleftrightarrow>
     i < j \<and> j \<le> i + 3 \<and> j \<le> length s \<and> list_all is_digit (substring i j s)
   \<and> cs' = (n, substring i j s) # cs"
proof (cases "i \<le> length s")
  case True
  then show ?thesis
    by (subst successes_group_plain [OF octet_plain]) (auto simp: reaches_def lang_octet)
next
  case False
  then show ?thesis by (auto simp: octet_unfold digit_def)
qed

lemma ipv4_successes:
  "(j, cs) \<in> set (successes IPV4_RE False s (0, [])) \<longleftrightarrow> (\<exists>i1 i2 i3.
      0 < i1 \<and> i1 \<le> 3 \<and> i1 < length s \<and> s ! i1 = CHR ''.'' \<and> list_all is_digit (substring 0 i1 s)
    \<and> Suc i1 < i2 \<and> i2 \<le> i1 + 4 \<and> i2 < length s \<and> s ! i2 = CHR ''.'' \<and> list_all is_digit (substring (Suc i1) i2 s)
    \<and> Suc i2 < i3 \<and> i3 \<le> i2 + 4 \<and> i3 < length s \<and> s ! i3 = CHR ''.'' \<and> list_all is_digit (substring (Suc i2) i3 s)
    \<and> Suc i3 < j \<and> j \<le> i3 + 4 \<and> j = length s \<and> list_all is_digit (substring (Suc i3) j s)
    \<and> cs = [(4, substring (Suc i3) j s), (3, substring (Suc i2) i3 s), (2, substring (Suc i1) i2 s),
            (1, substring 0 i1 s)])"
  unfolding IPV4_RE_def cats.simps cat_successes octet_group_successes chr_successes
    line_start_successes line_end_successes by fastforce

lemma decimal_short: "n < 1000 \<Longrightarrow> length (decimal n) \<le> 3"
  by (subst decimal.simps, subst decimal.simps, subst decimal.simps) simp

definition quad_text :: "nat \<Rightarrow> nat \<Rightarrow> nat \<Rightarrow> nat \<Rightarrow> string" where
  "quad_text a b c d = decimal a @ CHR ''.'' # decimal b @ CHR ''.'' # decimal c @ CHR ''.'' # decimal d"

lemma exec_quad:
  assumes "a < 1000" and "b < 1000" and "c < 1000" and "d < 1000"
  shows "\<exists>m. exec IPV4_RE False (quad_text a b c d) 0 = Some m
     \<and> the_group m 1 = decimal a \<and> the_group m 2 = decimal b"
proof -
  define s where "s = quad_text a b c d"
  let ?i = "length (decimal a)" let ?j = "Suc ?i + length (decimal b)"
  let ?k = "Suc ?j + length (decimal c)" let ?l = "Suc ?k + length (decimal d)"
  have s: "s = decimal a @ CHR ''.'' # decimal b @ CHR ''.'' # decimal c @ CHR ''.'' # decimal d"
    by (simp add: s_def quad_text_def)
  have bounds: "?i < length s" "?j < length s" "?k < length s" "?l = length s" "s ! ?i = CHR ''.''"
    "s ! ?j = CHR ''.''" "s ! ?k = CHR ''.''" "0 < ?i" "Suc ?i < ?j" "Suc ?j < ?k" "Suc ?k < ?l"
    by (simp_all add: s nth_append)
  have parts: "substring 0 ?i s = decimal a" "substring (Suc ?i) ?j s = decimal b"
    "substring (Suc ?j) ?k s = decimal c" "substring (Suc ?k) ?l s = decimal d"
    by (simp_all add: s substring_def eval_nat_numeral)
  have short: "?i \<le> 3" "?j \<le> ?i + 4" "?k \<le> ?j + 4" "?l \<le> ?k + 4"
    using decimal_short assms by simp_all
  let ?S = "set (successes IPV4_RE False s (0, []))"
  have "(?l, [(4, decimal d), (3, decimal c), (2, decimal b), (1, decimal a)]) \<in> ?S"
    unfolding ipv4_successes
    by (intro exI [of _ ?i] exI [of _ ?j] exI [of _ ?k] conjI bounds short)
      (use parts decimal_all_digits in simp_all)
  then obtain j cs where jcs: "(j, cs) \<in> ?S"
    "exec IPV4_RE False s 0 = Some \<lparr>m_start = 0, m_end = j, m_captures = cs\<rparr>"
    using exec_anchored by (metis empty_iff empty_set)
  then obtain i1 i2 i3 where i:
    "0 < i1" "i1 < length s" "s ! i1 = CHR ''.''" "list_all is_digit (substring 0 i1 s)"
    "Suc i1 < i2" "i2 < length s" "s ! i2 = CHR ''.''" "list_all is_digit (substring (Suc i1) i2 s)"
    "cs = [(4, substring (Suc i3) j s), (3, substring (Suc i2) i3 s), (2, substring (Suc i1) i2 s),
            (1, substring 0 i1 s)]"
    unfolding ipv4_successes by blast
  have "i1 = ?i"
    using digits_end_unique [of 0 i1 s "[]" "decimal a"
        "CHR ''.'' # decimal b @ CHR ''.'' # decimal c @ CHR ''.'' # decimal d"] i s
      decimal_all_digits dot_not_digit by simp
  moreover from this have "i2 = ?j"
    using digits_end_unique [of "Suc i1" i2 s "decimal a @ [CHR ''.'']" "decimal b"
        "CHR ''.'' # decimal c @ CHR ''.'' # decimal d"] i s
      decimal_all_digits dot_not_digit by simp
  ultimately have "the_group \<lparr>m_start = 0, m_end = j, m_captures = cs\<rparr> 1 = decimal a"
    "the_group \<lparr>m_start = 0, m_end = j, m_captures = cs\<rparr> 2 = decimal b"
    using i(9) parts by (simp_all add: the_group_def captured_def)
  with jcs(2) show ?thesis unfolding s_def by blast
qed

lemma lower_quad: "to_lower (quad_text a b c d) = quad_text a b c d"
proof -
  have "lower_char x = x" if "is_digit x \<or> x = CHR ''.''" for x
    using that by (auto simp: lower_char_def is_digit_code Let_def)
  then show ?thesis
    using decimal_digits by (auto simp: to_lower_def quad_text_def map_idI)
qed

lemma quad_reason:
  assumes "a < 1000" and "b < 1000" and "c < 1000" and "d < 1000"
  shows "private_address_reason (quad_text a b c d) = ipv4_reason a b"
  using exec_quad [OF assms] by (subst private_address_reason.simps) (auto simp: lower_quad Let_def)

text \<open>
  An IPv4 address is refused exactly when it lies in a loopback, unspecified, private or
  link-local range, whether it is written as a dotted quad or mapped into IPv6.
\<close>

lemma private_ipv4_iff:
  assumes "a < 1000" and "b < 1000" and "c < 1000" and "d < 1000"
  shows "(private_address_reason (quad_text a b c d) \<noteq> None \<longleftrightarrow>
      a \<in> {0, 10, 127} \<or> a = 172 \<and> b \<in> {16..31} \<or> a = 192 \<and> b = 168 \<or> a = 169 \<and> b = 254)
    \<and> private_address_reason (''::ffff:'' @ quad_text a b c d) = private_address_reason (quad_text a b c d)"
proof -
  let ?t = "''::ffff:'' @ quad_text a b c d"
  have "successes IPV4_RE False ?t (0, []) = []"
  proof (rule ccontr)
    assume "successes IPV4_RE False ?t (0, []) \<noteq> []"
    then obtain j cs where "(j, cs) \<in> set (successes IPV4_RE False ?t (0, []))"
      by (metis list.set_intros(1) neq_Nil_conv surj_pair)
    then obtain i where "0 < i" "list_all is_digit (substring 0 i ?t)"
      unfolding ipv4_successes by blast
    then have "is_digit CHR '':''" by (cases i) (auto simp: substring_def)
    then show False by (simp add: is_digit_code)
  qed
  then have "exec IPV4_RE False ?t 0 = None"
    unfolding IPV4_RE_def cats.simps exec_line_start by (simp only: match_at_def list.case)
  moreover have "to_lower (''::ffff:'' @ quad_text a b c d) = ''::ffff:'' @ quad_text a b c d"
    using lower_quad [of a b c d] by (simp add: to_lower_def lower_char_def)
  ultimately have "private_address_reason (''::ffff:'' @ quad_text a b c d) = private_address_reason (quad_text a b c d)"
    by (subst private_address_reason.simps) (simp add: Let_def quad_text_def)
  then show ?thesis by (auto simp: quad_reason [OF assms] ipv4_reason_def)
qed

lemma private_ipv4_iff_witness:
  "private_address_reason (quad_text 172 20 0 1) \<noteq> None
   \<and> private_address_reason (''::ffff:'' @ quad_text 8 8 8 8) = None"
  using private_ipv4_iff [of 172 20 0 1] private_ipv4_iff [of 8 8 8 8] by simp

section \<open>A sample run\<close>

definition sample_network :: network where
  "sample_network = \<lparr>
     parse_url = (\<lambda>u base. if u = ''https://a.b/''
       then Some \<lparr>url_protocol = ''https:'', url_hostname = ''a.b'', url_href = ''https://a.b/''\<rparr> else None),
     dns_lookup = (\<lambda>tr h. None), fetch_once = (\<lambda>tr m u. Response 200 None)\<rparr>"

lemma sample_run:
  "snd (check_link sample_network [] ''https://a.b/'') =
     [Checked ''https://a.b/'' None, Requested HEAD ''https://a.b/'']"
  by code_simp

theorem requests_are_validated_witness:
  "\<exists>before. prefix (before @ [Checked ''https://a.b/'' None]) [Checked ''https://a.b/'' None]
     \<and> public_url sample_network before ''https://a.b/''"
proof -
  have "snd (check_link sample_network [] ''https://a.b/'') =
      [Checked ''https://a.b/'' None] @ Requested HEAD ''https://a.b/'' # []"
    by (simp add: sample_run)
  from requests_are_validated [OF this] show ?thesis by blast
qed

end
