(* ===== verification/LineDiff.thy ===== *)
theory LineDiff
  imports JsText "HOL-Library.Sublist"
begin

text \<open>
  The line diff of the public-declaration gate (\<open>lineDiff\<close> of
  \<open>src/scripts/check-api-surface.mjs\<close>): a table of the lengths of longest common subsequences of
  the suffixes, filled from the end, and a walk that prints the lines on one side only. The
  table refines the recursive definition \<open>lcs_len\<close>, and the diff is a smallest one.
\<close>

section \<open>The line diff\<close>

type_synonym lcs_table = "nat \<times> nat \<Rightarrow> nat option"

definition lcs_at :: "lcs_table \<Rightarrow> nat \<Rightarrow> nat \<Rightarrow> nat" where
  "lcs_at common i j = (case common (i, j) of None \<Rightarrow> 0 | Some n \<Rightarrow> n)"

definition fill_cell :: "string list \<Rightarrow> string list \<Rightarrow> nat \<Rightarrow> nat \<Rightarrow> lcs_table \<Rightarrow> lcs_table" where
  "fill_cell a b i j common = common((i, j) \<mapsto>
    (if a ! i = b ! j then lcs_at common (i + 1) (j + 1) + 1
     else max (lcs_at common (i + 1) j) (lcs_at common i (j + 1))))"

definition fill_row :: "string list \<Rightarrow> string list \<Rightarrow> nat \<Rightarrow> lcs_table \<Rightarrow> lcs_table" where
  "fill_row a b i = fold (fill_cell a b i) (rev [0..<length b])"

definition fill_table :: "string list \<Rightarrow> string list \<Rightarrow> lcs_table" where
  "fill_table a b = fold (fill_row a b) (rev [0..<length a]) Map.empty"

function diff_walk :: "string list \<Rightarrow> string list \<Rightarrow> lcs_table \<Rightarrow> nat \<Rightarrow> nat \<Rightarrow> string list" where
  "diff_walk a b common i j =
    (if i < length a \<or> j < length b
     then if i < length a \<and> j < length b \<and> a ! i = b ! j then diff_walk a b common (i + 1) (j + 1)
          else if j < length b \<and> (i \<ge> length a \<or> lcs_at common i (j + 1) \<ge> lcs_at common (i + 1) j)
            then (''+ '' @ b ! j) # diff_walk a b common i (j + 1)
          else (''- '' @ a ! i) # diff_walk a b common (i + 1) j
     else [])"
  by pat_completeness auto
termination
  by (relation "measure (\<lambda>(a, b, _, i, j). (length a - i) + (length b - j))") auto

declare diff_walk.simps [simp del]

definition diff_lines :: "string \<Rightarrow> string \<Rightarrow> string list" where
  "diff_lines left right =
    (let a = lines_of left; b = lines_of right in diff_walk a b (fill_table a b) 0 0)"

definition line_diff :: "string \<Rightarrow> string \<Rightarrow> string" where
  "line_diff left right = unlines (diff_lines left right)"

section \<open>The table refines the recursive length\<close>

fun lcs_len :: "'a list \<Rightarrow> 'a list \<Rightarrow> nat" where
  "lcs_len [] b = 0"
| "lcs_len a [] = 0"
| "lcs_len (x # a) (y # b) =
    (if x = y then lcs_len a b + 1 else max (lcs_len a (y # b)) (lcs_len (x # a) b))"

lemma lcs_len_Nil [simp]: "lcs_len a [] = 0"
  by (cases a) auto

text \<open>The cells from row \<open>i\<close>, column \<open>j\<close> on, in the order the loops fill them.\<close>

definition filled :: "string list \<Rightarrow> string list \<Rightarrow> nat \<Rightarrow> nat \<Rightarrow> lcs_table \<Rightarrow> bool" where
  "filled a b i j common \<longleftrightarrow>
    (\<forall>p q. i < p \<or> i = p \<and> j \<le> q \<or> length a \<le> p \<or> length b \<le> q \<longrightarrow>
       lcs_at common p q = lcs_len (drop p a) (drop q b))"

lemma filled_cell:
  assumes "filled a b i (Suc j) common" and "i < length a" and "j < length b"
  shows "filled a b i j (fill_cell a b i j common)"
proof -
  have here: "lcs_len (drop i a) (drop j b) =
      (if a ! i = b ! j then lcs_len (drop (Suc i) a) (drop (Suc j) b) + 1
       else max (lcs_len (drop (Suc i) a) (drop j b)) (lcs_len (drop i a) (drop (Suc j) b)))"
    using assms(2,3) by (simp add: Cons_nth_drop_Suc [symmetric])
  have "lcs_at common (Suc i) (Suc j) = lcs_len (drop (Suc i) a) (drop (Suc j) b)"
    "lcs_at common (Suc i) j = lcs_len (drop (Suc i) a) (drop j b)"
    "lcs_at common i (Suc j) = lcs_len (drop i a) (drop (Suc j) b)"
    using assms(1) by (simp_all add: filled_def)
  with here have "lcs_at (fill_cell a b i j common) i j = lcs_len (drop i a) (drop j b)"
    by (simp add: fill_cell_def lcs_at_def)
  moreover have "lcs_at (fill_cell a b i j common) p q = lcs_at common p q" if "(p, q) \<noteq> (i, j)" for p q
    using that by (auto simp: fill_cell_def lcs_at_def)
  ultimately show ?thesis
    using assms(1) unfolding filled_def by (metis Suc_leI le_neq_implies_less prod.inject)
qed

lemma filled_row:
  assumes "i < length a"
  shows "k \<le> length b \<Longrightarrow> filled a b i k common \<Longrightarrow>
    filled a b i 0 (fold (fill_cell a b i) (rev [0..<k]) common)"
proof (induction k arbitrary: common)
  case (Suc k)
  then have "filled a b i k (fill_cell a b i k common)" by (intro filled_cell assms) auto
  with Suc show ?case by simp
qed simp

lemma filled_next_row:
  "filled a b (Suc i) 0 common \<Longrightarrow> filled a b i (length b) common"
  unfolding filled_def
proof (intro allI impI)
  fix p q
  assume all: "\<forall>p q. Suc i < p \<or> Suc i = p \<and> 0 \<le> q \<or> length a \<le> p \<or> length b \<le> q \<longrightarrow>
      lcs_at common p q = lcs_len (drop p a) (drop q b)"
    and "i < p \<or> i = p \<and> length b \<le> q \<or> length a \<le> p \<or> length b \<le> q"
  then have "Suc i < p \<or> Suc i = p \<and> 0 \<le> q \<or> length a \<le> p \<or> length b \<le> q" by auto
  with all show "lcs_at common p q = lcs_len (drop p a) (drop q b)" by blast
qed

lemma filled_table:
  "k \<le> length a \<Longrightarrow> filled a b k 0 common \<Longrightarrow>
    filled a b 0 0 (fold (fill_row a b) (rev [0..<k]) common)"
proof (induction k arbitrary: common)
  case (Suc k)
  then have "filled a b k 0 (fill_row a b k common)"
    unfolding fill_row_def by (intro filled_row filled_next_row) auto
  with Suc show ?case by simp
qed simp

lemma lcs_table_refines: "lcs_at (fill_table a b) i j = lcs_len (drop i a) (drop j b)"
proof -
  have "filled a b (length a) 0 Map.empty" by (auto simp: filled_def lcs_at_def)
  from filled_table [OF order_refl this] have "filled a b 0 0 (fill_table a b)"
    by (simp add: fill_table_def)
  then show ?thesis unfolding filled_def by (cases i) blast+
qed

section \<open>The walk\<close>

fun diff_spec :: "string list \<Rightarrow> string list \<Rightarrow> string list" where
  "diff_spec [] [] = []"
| "diff_spec [] (y # b) = (''+ '' @ y) # diff_spec [] b"
| "diff_spec (x # a) [] = (''- '' @ x) # diff_spec a []"
| "diff_spec (x # a) (y # b) =
    (if x = y then diff_spec a b
     else if lcs_len (x # a) b \<ge> lcs_len a (y # b) then (''+ '' @ y) # diff_spec (x # a) b
     else (''- '' @ x) # diff_spec a (y # b))"

lemma walk_refines: "diff_walk a b (fill_table a b) i j = diff_spec (drop i a) (drop j b)"
proof (induction a b "fill_table a b" i j rule: diff_walk.induct)
  case (1 a b i j)
  consider "i < length a" "j < length b" | "i < length a" "length b \<le> j"
    | "length a \<le> i" "j < length b" | "length a \<le> i" "length b \<le> j" by linarith
  then show ?case
  proof cases
    case 1
    then have "drop i a = a ! i # drop (Suc i) a" "drop j b = b ! j # drop (Suc j) b"
      by (simp_all add: Cons_nth_drop_Suc)
    with 1 "1.hyps" show ?thesis
      by (subst diff_walk.simps) (auto simp: lcs_table_refines)
  next
    case 2
    then have "drop i a = a ! i # drop (Suc i) a" "drop j b = []"
      by (simp_all add: Cons_nth_drop_Suc)
    with 2 "1.hyps" show ?thesis by (subst diff_walk.simps) auto
  next
    case 3
    then have "drop j b = b ! j # drop (Suc j) b" "drop i a = []"
      by (simp_all add: Cons_nth_drop_Suc)
    with 3 "1.hyps" show ?thesis by (subst diff_walk.simps) auto
  next
    case 4
    then show ?thesis by (subst diff_walk.simps) simp
  qed
qed

lemma diff_lines_refines: "diff_lines left right = diff_spec (lines_of left) (lines_of right)"
  by (simp add: diff_lines_def walk_refines Let_def)

section \<open>A smallest diff\<close>

definition removed_lines :: "string list \<Rightarrow> string list" where
  "removed_lines ds = map (drop 2) (filter (\<lambda>l. hd l = CHR ''-'') ds)"

definition added_lines :: "string list \<Rightarrow> string list" where
  "added_lines ds = map (drop 2) (filter (\<lambda>l. hd l = CHR ''+'') ds)"

definition longest_common :: "'a list \<Rightarrow> 'a list \<Rightarrow> 'a list \<Rightarrow> bool" where
  "longest_common c a b \<longleftrightarrow> subseq c a \<and> subseq c b
     \<and> (\<forall>c'. subseq c' a \<and> subseq c' b \<longrightarrow> length c' \<le> length c)"

lemma subseq_shuffles: "zs \<in> shuffles xs ys \<Longrightarrow> subseq xs zs"
  by (induction xs ys arbitrary: zs rule: shuffles.induct) auto

lemma lcs_len_bound: "subseq c a \<Longrightarrow> subseq c b \<Longrightarrow> length c \<le> lcs_len a b"
proof (induction a b arbitrary: c rule: lcs_len.induct)
  case (3 x a y b)
  show ?case
  proof (cases c)
    case (Cons z zs)
    consider "x = y" "z = x" | "x = y" "z \<noteq> x" | "x \<noteq> y" "z = x" | "x \<noteq> y" "z \<noteq> x" by blast
    then show ?thesis
    proof cases
      case 1
      with 3 Cons have "length zs \<le> lcs_len a b" by simp
      with 1 Cons show ?thesis by simp
    next
      case 2
      with "3.prems" Cons have "subseq c a" "subseq c b" by auto
      with 2 "3.IH"(1) have "length c \<le> lcs_len a b" by blast
      with 2 show ?thesis by simp
    next
      case 3
      with "3.prems" Cons have "subseq c (x # a)" "subseq c b" by auto
      with 3 "3.IH"(3) show ?thesis by (simp add: le_max_iff_disj)
    next
      case 4
      with "3.prems" Cons have "subseq c a" "subseq c (y # b)" by auto
      with 4 "3.IH"(2) show ?thesis by (simp add: le_max_iff_disj)
    qed
  qed simp
qed auto

lemma diff_spec_shape:
  "\<exists>c. a \<in> shuffles c (removed_lines (diff_spec a b)) \<and> b \<in> shuffles c (added_lines (diff_spec a b))
     \<and> length c = lcs_len a b"
proof (induction a b rule: diff_spec.induct)
  case (4 x a y b)
  consider "x = y" | "x \<noteq> y" "lcs_len (x # a) b \<ge> lcs_len a (y # b)"
    | "x \<noteq> y" "lcs_len (x # a) b < lcs_len a (y # b)" by linarith
  then show ?case
  proof cases
    case 1
    with 4 obtain c where "a \<in> shuffles c (removed_lines (diff_spec a b))"
      "b \<in> shuffles c (added_lines (diff_spec a b))" "length c = lcs_len a b" by blast
    with 1 show ?thesis by (intro exI [of _ "x # c"]) (auto intro: Cons_in_shuffles_leftI)
  next
    case 2
    with 4 obtain c where "x # a \<in> shuffles c (removed_lines (diff_spec (x # a) b))"
      "b \<in> shuffles c (added_lines (diff_spec (x # a) b))" "length c = lcs_len (x # a) b" by blast
    with 2 show ?thesis
      by (intro exI [of _ c]) (auto simp: removed_lines_def added_lines_def intro: Cons_in_shuffles_rightI)
  next
    case 3
    with 4 obtain c where "a \<in> shuffles c (removed_lines (diff_spec a (y # b)))"
      "y # b \<in> shuffles c (added_lines (diff_spec a (y # b)))" "length c = lcs_len a (y # b)"
      by fastforce
    with 3 show ?thesis
      by (intro exI [of _ c]) (auto simp: removed_lines_def added_lines_def intro: Cons_in_shuffles_rightI)
  qed
qed (auto simp: removed_lines_def added_lines_def)

text \<open>
  C27. The diff accounts for every line: the old text is a merge of some lines \<open>c\<close> with the removed
  lines, in order, the new text is a merge of the same lines with the added ones, and no longer
  list of lines is common to both texts, so no diff of this kind is shorter.
\<close>

theorem line_diff_is_smallest:
  "\<exists>c. lines_of left \<in> shuffles c (removed_lines (diff_lines left right))
     \<and> lines_of right \<in> shuffles c (added_lines (diff_lines left right))
     \<and> longest_common c (lines_of left) (lines_of right)"
proof -
  obtain c where c: "lines_of left \<in> shuffles c (removed_lines (diff_lines left right))"
    "lines_of right \<in> shuffles c (added_lines (diff_lines left right))"
    "length c = lcs_len (lines_of left) (lines_of right)"
    using diff_spec_shape unfolding diff_lines_refines by blast
  then have "longest_common c (lines_of left) (lines_of right)"
    unfolding longest_common_def using subseq_shuffles lcs_len_bound by metis
  with c show ?thesis by blast
qed

end
