(* ===== verification/ApiSurface.thy ===== *)
theory ApiSurface
  imports JsRegex LineDiff "HOL-Library.Product_Lexorder" "HOL-Library.Multiset"
begin

text \<open>
  The public-declaration gate (\<open>src/scripts/check-api-surface.mjs\<close>): the declaration files of
  two versions are normalized and compared, and a difference passes only when the CHANGELOG
  section of the version being released holds the compatibility note.

  The TypeScript compiler is the argument \<open>parse\<close>: the top-level statements of a file in order,
  each with what the code inspects of it and with the text its printer gives (comments removed),
  the leading comments of the file, and whether the file is a module.
\<close>

section \<open>Declaration files\<close>

record specifier =
  sp_type_only :: bool
  sp_property :: "string option"
  sp_name :: string

datatype export_clause = Named_exports "specifier list" | Namespace_export

datatype statement_shape =
    Variable_statement "string list"
  | Export_declaration bool "string option" "export_clause option"
  | Import_declaration string
  | Export_assignment bool
  | Named_statement string
  | Other_statement string

record statement =
  st_shape :: statement_shape
  st_printed :: string

record source_file =
  sf_comments :: "string list"
  sf_statements :: "statement list"
  sf_module :: bool

text \<open>\<open>JSON.stringify\<close> of a string and of an export record.\<close>

definition hex_digit :: "nat \<Rightarrow> char" where
  "hex_digit d = (if d < 10 then char_of (d + 48) else char_of (d + 87))"

definition json_char :: "char \<Rightarrow> string" where
  "json_char c =
    (if c = CHR 0x22 then [CHR 0x5C, CHR 0x22]
     else if c = CHR 0x5C then [CHR 0x5C, CHR 0x5C]
     else if c = CHR 0x08 then [CHR 0x5C, CHR ''b'']
     else if c = CHR 0x0C then [CHR 0x5C, CHR ''f'']
     else if c = CHR 0x0A then [CHR 0x5C, CHR ''n'']
     else if c = CHR 0x0D then [CHR 0x5C, CHR ''r'']
     else if c = CHR 0x09 then [CHR 0x5C, CHR ''t'']
     else if (of_char c :: nat) < 32
       then CHR 0x5C # ''u00'' @ [hex_digit (of_char c div 16), hex_digit (of_char c mod 16)]
     else [c])"

definition json_string :: "string \<Rightarrow> string" where
  "json_string s = CHR 0x22 # concat (map json_char s) @ [CHR 0x22]"

definition export_record :: "bool \<Rightarrow> specifier \<Rightarrow> string" where
  "export_record statement_type_only sp =
    (let local_name = (case sp_property sp of None \<Rightarrow> sp_name sp | Some p \<Rightarrow> p);
         type_only = statement_type_only \<or> sp_type_only sp
     in ''['' @ (if type_only then ''true'' else ''false'') @ '','' @ json_string local_name
          @ '','' @ json_string (sp_name sp) @ '']'')"

text \<open>\<open>isLocalNamedExport\<close>, with the specifiers and the flag of the statement.\<close>

fun local_named_export :: "statement_shape \<Rightarrow> (bool \<times> specifier list) option" where
  "local_named_export (Export_declaration type_only None (Some (Named_exports sps))) = Some (type_only, sps)"
| "local_named_export _ = None"

fun export_records :: "statement list \<Rightarrow> string list" where
  "export_records [] = []"
| "export_records (st # sts) =
    (case local_named_export (st_shape st) of
       None \<Rightarrow> export_records sts
     | Some (type_only, sps) \<Rightarrow> map (export_record type_only) sps @ export_records sts)"

fun kept_statements :: "statement list \<Rightarrow> string list" where
  "kept_statements [] = []"
| "kept_statements (st # sts) =
    (case local_named_export (st_shape st) of
       None \<Rightarrow> st_printed st # kept_statements sts
     | Some _ \<Rightarrow> kept_statements sts)"

section \<open>Triple-slash directives\<close>

definition tag_name :: regex where
  "tag_name = some (Cls (\<lambda>c. word_char c \<or> c = CHR ''-''))"

definition attribute_name :: regex where
  "attribute_name = some (Cls (\<lambda>c. word_char c \<or> c = CHR '':'' \<or> c = CHR ''-''))"

definition double_quoted :: "regex \<Rightarrow> regex" where
  "double_quoted r = cats [chr CHR 0x22, r, chr CHR 0x22]"

definition single_quoted :: "regex \<Rightarrow> regex" where
  "single_quoted r = cats [chr CHR 0x27, r, chr CHR 0x27]"

definition DIRECTIVE_RE :: regex where
  "DIRECTIVE_RE = cats
    [LineStart, lit ''///'', many space, chr CHR ''<'', many space, Group 1 tag_name,
     Group 2 (many (cats [some space, attribute_name, many space, chr CHR ''='', many space,
       Alt (double_quoted (many (none_of [CHR 0x22]))) (single_quoted (many (none_of [CHR 0x27])))])),
     many space, Opt (chr CHR ''/''), chr CHR ''>'', many space, LineEnd]"

definition ATTRIBUTE_RE :: regex where
  "ATTRIBUTE_RE = cats
    [Group 1 attribute_name, many space, chr CHR ''='', many space,
     Alt (double_quoted (Group 2 (many (none_of [CHR 0x22]))))
       (single_quoted (Group 3 (many (none_of [CHR 0x27]))))]"

definition directive_start :: regex where
  "directive_start = cats [LineStart, lit ''///'', many space, chr CHR ''<'']"

definition normalize_directive :: "string \<Rightarrow> string" where
  "normalize_directive comment =
    (case exec DIRECTIVE_RE False comment 0 of
       None \<Rightarrow> trim comment
     | Some m \<Rightarrow>
         (let attributes = map (\<lambda>a. the_group a 1 @ ''=''
                @ json_string (case group a 2 of None \<Rightarrow> the_group a 3 | Some v \<Rightarrow> v))
              (match_all ATTRIBUTE_RE False (the_group m 2))
          in ''/// <'' @ join_with '' '' (the_group m 1 # attributes) @ '' />''))"

definition reference_directives :: "source_file \<Rightarrow> string list" where
  "reference_directives src =
    map normalize_directive (filter (test directive_start False) (sf_comments src))"

definition normalize_declarations :: "(string \<Rightarrow> source_file) \<Rightarrow> string \<Rightarrow> string" where
  "normalize_declarations parse contents =
    (let src = parse contents
     in unlines (reference_directives src) @ [newline]
        @ (if sf_module src then ''module'' else ''script'') @ [newline]
        @ unlines (kept_statements (sf_statements src)) @ [newline]
        @ ''exports:'' @ [newline]
        @ unlines (sort (export_records (sf_statements src))) @ [newline])"

section \<open>Declarations by name\<close>

fun statement_name :: "statement_shape \<Rightarrow> string" where
  "statement_name (Variable_statement names) = join_with '', '' names"
| "statement_name (Export_declaration _ specifier _) =
     ''export from '' @ (case specifier of None \<Rightarrow> ''(local)'' | Some m \<Rightarrow> m)"
| "statement_name (Import_declaration m) = ''import from '' @ m"
| "statement_name (Export_assignment is_equals) = (if is_equals then ''export ='' else ''export default'')"
| "statement_name (Named_statement name) = name"
| "statement_name (Other_statement kind) = kind"

definition add_named :: "string \<Rightarrow> string \<Rightarrow> (string, string) jsmap \<Rightarrow> (string, string) jsmap" where
  "add_named name body byName =
    AList.update name (case map_of byName name of None \<Rightarrow> body | Some old \<Rightarrow> old @ [newline] @ body) byName"

definition add_statement :: "statement \<Rightarrow> (string, string) jsmap \<Rightarrow> (string, string) jsmap" where
  "add_statement st byName =
    (case local_named_export (st_shape st) of
       None \<Rightarrow> add_named (statement_name (st_shape st)) (st_printed st) byName
     | Some (type_only, sps) \<Rightarrow>
         fold (\<lambda>sp. add_named (''export '' @ sp_name sp) (export_record type_only sp)) sps byName)"

definition declarations_by_name :: "(string \<Rightarrow> source_file) \<Rightarrow> string \<Rightarrow> (string, string) jsmap" where
  "declarations_by_name parse contents =
    (let src = parse contents
     in add_named ''module or script kind'' (if sf_module src then ''module'' else ''script'')
          (add_named ''reference directives'' (unlines (reference_directives src))
            (fold add_statement (sf_statements src) [])))"

definition changed_names :: "(string \<Rightarrow> source_file) \<Rightarrow> string \<Rightarrow> string \<Rightarrow> string list" where
  "changed_names parse before after =
    (let left = declarations_by_name parse before; right = declarations_by_name parse after
     in filter (\<lambda>name. map_of left name \<noteq> map_of right name)
          (jsmap_keys left @ filter (\<lambda>name. name \<notin> set (jsmap_keys left)) (jsmap_keys right)))"

section \<open>The CHANGELOG section\<close>

definition changelog_section :: "string \<Rightarrow> string \<Rightarrow> string option" where
  "changelog_section changelog version =
    (let ls = lines_of changelog
     in case find_index (starts_with (''## ['' @ version @ '']'')) ls of
          None \<Rightarrow> None
        | Some start \<Rightarrow>
            (let rest = drop (start + 1) ls
             in case find_index (starts_with ''## ['') rest of
                  None \<Rightarrow> Some (unlines rest)
                | Some e \<Rightarrow> Some (unlines (take e rest))))"

text \<open>
  The flag \<open>i\<close>: a letter stands for both of its cases. Of the pictographs, two have a code unit
  below 256 (the copyright and the registered sign); the variation selector has none.
\<close>

definition caseless :: "string \<Rightarrow> regex" where
  "caseless s = cats (map (\<lambda>c. Cls (\<lambda>x. lower_char x = lower_char c)) s)"

definition emoji_prefix :: regex where
  "emoji_prefix = Opt (cats
    [Cls (\<lambda>c. c = CHR 0xA9 \<or> c = CHR 0xAE), Opt (Cls (\<lambda>_. False)), many (one_of [CHR '' '', CHR 0x09])])"

definition COMPATIBILITY_NOTE_RE :: regex where
  "COMPATIBILITY_NOTE_RE = cats
    [LineStart, many (one_of [CHR '' '', CHR 0x09]),
     Opt (cats [one_of ''-*'', some (one_of [CHR '' '', CHR 0x09])]),
     alts [cats [upto_times 6 (chr CHR ''#''), many (one_of [CHR '' '', CHR 0x09]), emoji_prefix],
           cats [lit ''**'', emoji_prefix]],
     caseless ''Apply to a '', alts [caseless ''derived backend'', caseless ''consumer''], WordBoundary]"

definition has_compatibility_note :: "string \<Rightarrow> bool" where
  "has_compatibility_note section_text = test COMPATIBILITY_NOTE_RE True section_text"

section \<open>Versions\<close>

datatype api_error = Not_stable string | Command_failed string

definition STABLE_VERSION_RE :: regex where
  "STABLE_VERSION_RE = cats
    [LineStart, Group 1 (some digit), chr CHR ''.'', Group 2 (some digit), chr CHR ''.'',
     Group 3 (some digit), LineEnd]"

definition parse_version :: "string \<Rightarrow> (api_error, nat \<times> nat \<times> nat) result" where
  "parse_version version =
    (case exec STABLE_VERSION_RE False version 0 of
       None \<Rightarrow> Throws (Not_stable version)
     | Some m \<Rightarrow> Returns (number_of (the_group m 1), number_of (the_group m 2), number_of (the_group m 3)))"

datatype bump = Major | Minor | Patch

definition classify_bump :: "string \<Rightarrow> string \<Rightarrow> (api_error, bump) result" where
  "classify_bump previous current =
    fst (andthen (parse_version previous, ()) (\<lambda>(prevMajor, prevMinor, _) _.
      andthen (parse_version current, ()) (\<lambda>(curMajor, curMinor, _) _.
        (Returns (if curMajor \<noteq> prevMajor then Major
                  else if curMinor \<noteq> prevMinor then Minor else Patch), ()))))"

text \<open>\<open>compareVersions\<close> orders the triples lexicographically, the order of \<open>version_key\<close>.\<close>

definition version_key :: "string \<Rightarrow> nat \<times> nat \<times> nat" where
  "version_key v = (case parse_version v of Returns t \<Rightarrow> t | _ \<Rightarrow> (0, 0, 0))"

definition is_stable :: "string \<Rightarrow> bool" where
  "is_stable v \<longleftrightarrow> test STABLE_VERSION_RE False v"

definition previous_version :: "string list \<Rightarrow> string \<Rightarrow> (api_error, string option) result" where
  "previous_version published current =
    (let candidates = filter is_stable published
     in if candidates \<noteq> [] \<and> \<not> is_stable current then Throws (Not_stable current)
        else let older = sort_key version_key
                   (filter (\<lambda>v. version_key v < version_key current) candidates)
             in Returns (if older = [] then None else Some (last older)))"

section \<open>Two builds\<close>

text \<open>A directory with its entries in the order of \<open>readdirSync\<close>.\<close>

datatype fs_node = File_node string | Dir_node "(string \<times> fs_node) list"

definition DECLARATION_FILE_RE :: regex where
  "DECLARATION_FILE_RE = cats [lit ''.d.'', Opt (chr CHR ''c''), lit ''ts'', LineEnd]"

fun declaration_files :: "(string \<times> fs_node) list \<Rightarrow> (string \<times> string) list" where
  "declaration_files [] = []"
| "declaration_files ((name, File_node contents) # es) =
    (if test DECLARATION_FILE_RE False name then [(name, contents)] else []) @ declaration_files es"
| "declaration_files ((name, Dir_node ds) # es) =
    map (\<lambda>(p, c). (name @ ''/'' @ p, c)) (declaration_files ds) @ declaration_files es"

type_synonym dist = "(string \<times> fs_node) list"

record difference =
  df_file :: string
  df_diff :: string
  df_changed :: "string list"

definition compare_file ::
    "(string \<Rightarrow> source_file) \<Rightarrow> (string \<times> string) list \<Rightarrow> (string \<times> string) list \<Rightarrow> string \<Rightarrow> difference list" where
  "compare_file parse before after file =
    (case (map_of before file, map_of after file) of
       (Some textBefore, Some textAfter) \<Rightarrow>
         (let left = normalize_declarations parse textBefore;
              right = normalize_declarations parse textAfter
          in if left \<noteq> right
             then [\<lparr>df_file = file, df_diff = line_diff left right,
                    df_changed = changed_names parse textBefore textAfter\<rparr>]
             else [])
     | (Some _, None) \<Rightarrow> [\<lparr>df_file = file, df_diff = ''removed'', df_changed = []\<rparr>]
     | (None, _) \<Rightarrow> [\<lparr>df_file = file, df_diff = ''added'', df_changed = []\<rparr>])"

definition compare_dist :: "(string \<Rightarrow> source_file) \<Rightarrow> dist \<Rightarrow> dist \<Rightarrow> difference list" where
  "compare_dist parse previousDist currentDist =
    (let before = declaration_files previousDist; after = declaration_files currentDist;
         names = sort (remdups (map fst before @ map fst after))
     in concat (map (compare_file parse before after) names))"

section \<open>The run\<close>

text \<open>
  The outside of the script: the working tree, the npm registry, and the packages it unpacks
  (\<open>None\<close> when the command fails). \<open>pk_version\<close> is the version in the package's manifest.
\<close>

record package =
  pk_dist :: dist
  pk_version :: string

record release =
  rl_name :: string
  rl_version :: string
  rl_dist :: dist
  rl_changelog :: "string option"
  rl_against :: "string \<Rightarrow> package option"
  rl_published :: "string list option"
  rl_pack :: "string \<Rightarrow> package option"

definition against_option :: "string list \<Rightarrow> string option" where
  "against_option args =
    (case find_index (\<lambda>a. a = ''--against'') args of None \<Rightarrow> None
     | Some flag \<Rightarrow> if flag + 1 < length args then Some (args ! (flag + 1)) else None)"

definition resolve_previous :: "release \<Rightarrow> string option \<Rightarrow> (api_error, (dist \<times> string) option) result" where
  "resolve_previous E against =
    (case against of
       Some path \<Rightarrow>
         (case rl_against E path of None \<Rightarrow> Throws (Command_failed path)
          | Some p \<Rightarrow> Returns (Some (pk_dist p, pk_version p)))
     | None \<Rightarrow>
         (case rl_published E of None \<Rightarrow> Throws (Command_failed ''npm view'')
          | Some published \<Rightarrow>
              fst (andthen (previous_version published (rl_version E), ()) (\<lambda>previous _.
                (case previous of None \<Rightarrow> Returns None
                 | Some v \<Rightarrow> (case rl_pack E v of None \<Rightarrow> Throws (Command_failed ''npm pack'')
                     | Some p \<Rightarrow> Returns (Some (pk_dist p, v))), ())))))"

definition api_gate :: "(string \<Rightarrow> source_file) \<Rightarrow> release \<Rightarrow> string list \<Rightarrow> (api_error, nat) result" where
  "api_gate parse E args =
    fst (andthen (resolve_previous E (against_option args), ()) (\<lambda>previous _.
      (case previous of
         None \<Rightarrow> (Returns 0, ())
       | Some (before, previousVersionNumber) \<Rightarrow>
           andthen (classify_bump previousVersionNumber (rl_version E), ()) (\<lambda>_ _.
             (let differences = compare_dist parse before (rl_dist E);
                  changelog = (case rl_changelog E of None \<Rightarrow> [] | Some c \<Rightarrow> c)
              in if differences = [] then (Returns 0, ())
                 else (case changelog_section changelog (rl_version E) of
                         Some s \<Rightarrow> if has_compatibility_note s then (Returns 0, ()) else (Returns 1, ())
                       | None \<Rightarrow> (Returns 1, ())))))))"

section \<open>Export records\<close>

lemma of_hex_digit: "d < 16 \<Longrightarrow> (of_char (hex_digit d) :: nat) = (if d < 10 then d + 48 else d + 87)"
  by (simp add: hex_digit_def take_bit_eq_mod)

lemma hex_digit_inj: "a < 16 \<Longrightarrow> b < 16 \<Longrightarrow> hex_digit a = hex_digit b \<longleftrightarrow> a = b"
proof -
  assume ab: "a < 16" "b < 16"
  have "a = b" if "hex_digit a = hex_digit b"
  proof -
    from that ab of_hex_digit have "(if a < 10 then a + 48 else a + 87) = (if b < 10 then b + 48 else b + 87)"
      by metis
    then show ?thesis by (simp split: if_splits)
  qed
  then show ?thesis by blast
qed

lemma hex_digit_visible: "d < 16 \<Longrightarrow> hex_digit d \<noteq> newline"
proof
  assume "d < 16" "hex_digit d = newline"
  then have "(of_char newline :: nat) = (if d < 10 then d + 48 else d + 87)" using of_hex_digit by metis
  then show False by (simp split: if_splits)
qed

lemma json_char_cases:
  obtains (short) e where "json_char c = [CHR 0x5C, e]" "e \<noteq> CHR ''u''" "e \<noteq> newline"
      "(c, e) \<in> {(CHR 0x22, CHR 0x22), (CHR 0x5C, CHR 0x5C), (CHR 0x08, CHR ''b''), (CHR 0x0C, CHR ''f''),
        (CHR 0x0A, CHR ''n''), (CHR 0x0D, CHR ''r''), (CHR 0x09, CHR ''t'')}"
  | (control) "json_char c = CHR 0x5C # ''u00'' @ [hex_digit (of_char c div 16), hex_digit (of_char c mod 16)]"
      "(of_char c :: nat) < 32"
  | (itself) "json_char c = [c]" "c \<noteq> CHR 0x5C" "c \<noteq> CHR 0x22" "c \<noteq> newline"
  by (cases "c \<in> {CHR 0x22, CHR 0x5C, CHR 0x08, CHR 0x0C, CHR 0x0A, CHR 0x0D, CHR 0x09}";
      cases "(of_char c :: nat) < 32")
    (auto simp: json_char_def split: if_splits)

lemma json_char_head: "json_char c \<noteq> [] \<and> hd (json_char c) \<noteq> CHR 0x22"
  by (cases c rule: json_char_cases) auto

lemma json_char_no_newline: "newline \<notin> set (json_char c)"
  by (cases c rule: json_char_cases) (auto simp: hex_digit_visible not_sym [OF hex_digit_visible])

lemma json_char_prefix:
  assumes "json_char c @ xs = json_char d @ ys"
  shows "c = d \<and> xs = ys"
proof -
  have nat_eq: "c = d" if "(of_char c :: nat) div 16 = of_char d div 16"
    "(of_char c :: nat) mod 16 = of_char d mod 16"
  proof -
    from that have "(of_char c :: nat) = of_char d" by (metis div_mult_mod_eq)
    then show ?thesis by simp
  qed
  show ?thesis
    using assms
    by (cases c rule: json_char_cases; cases d rule: json_char_cases)
      (auto simp: hex_digit_inj intro!: nat_eq)
qed

lemma json_text_prefix:
  "concat (map json_char s) @ CHR 0x22 # xs = concat (map json_char t) @ CHR 0x22 # ys \<Longrightarrow> s = t \<and> xs = ys"
proof (induction s arbitrary: t)
  case Nil
  then show ?case
  proof (cases t)
    case (Cons d t')
    with Nil json_char_head [of d] show ?thesis by (cases "json_char d") auto
  qed simp
next
  case (Cons c s)
  show ?case
  proof (cases t)
    case Nil
    with Cons.prems json_char_head [of c] show ?thesis by (cases "json_char c") auto
  next
    case (Cons d t')
    with Cons.prems have "json_char c @ (concat (map json_char s) @ CHR 0x22 # xs) =
        json_char d @ (concat (map json_char t') @ CHR 0x22 # ys)" by simp
    from json_char_prefix [OF this] Cons.IH [of t'] Cons show ?thesis by simp
  qed
qed

text \<open>What an export record says: type-only, local name, exported name.\<close>

definition export_entry :: "bool \<Rightarrow> specifier \<Rightarrow> bool \<times> string \<times> string" where
  "export_entry statement_type_only sp =
    (statement_type_only \<or> sp_type_only sp,
     case sp_property sp of None \<Rightarrow> sp_name sp | Some p \<Rightarrow> p, sp_name sp)"

fun record_text :: "bool \<times> string \<times> string \<Rightarrow> string" where
  "record_text (b, l, n) = ''['' @ (if b then ''true'' else ''false'') @ '','' @ json_string l
     @ '','' @ json_string n @ '']''"

fun export_entries :: "statement list \<Rightarrow> (bool \<times> string \<times> string) list" where
  "export_entries [] = []"
| "export_entries (st # sts) =
    (case local_named_export (st_shape st) of None \<Rightarrow> export_entries sts
     | Some (type_only, sps) \<Rightarrow> map (export_entry type_only) sps @ export_entries sts)"

lemma record_text_inj: "record_text a = record_text b \<longleftrightarrow> a = b"
proof
  assume eq: "record_text a = record_text b"
  obtain p l n where a: "a = (p, l, n)" by (cases a)
  obtain q k m where b: "b = (q, k, m)" by (cases b)
  have "p = q" using eq a b by (auto split: if_splits)
  then have "concat (map json_char l) @ CHR 0x22 # ('','' @ json_string n @ '']'') =
      concat (map json_char k) @ CHR 0x22 # ('','' @ json_string m @ '']'')"
    using eq a b by (auto simp: json_string_def split: if_splits)
  from json_text_prefix [OF this] have "l = k" and
    "concat (map json_char n) @ CHR 0x22 # '']'' = concat (map json_char m) @ CHR 0x22 # '']''"
    by (auto simp: json_string_def)
  with json_text_prefix [OF this(2)] \<open>p = q\<close> a b show "a = b" by simp
qed simp

lemma record_text_line [simp]: "newline \<notin> set (record_text a)" "record_text a \<noteq> []"
  by (cases a; auto simp: json_string_def json_char_no_newline)+

declare record_text.simps [simp del]

lemma export_records_text: "export_records sts = map record_text (export_entries sts)"
proof -
  have "export_record t = record_text \<circ> export_entry t" for t
    by (auto simp: fun_eq_iff export_record_def export_entry_def record_text.simps Let_def)
  then show ?thesis
    by (induction sts rule: export_records.induct) (auto split: option.split)
qed

lemma unlines_inj:
  assumes "unlines ls = unlines ks" and "\<And>l. l \<in> set ls \<union> set ks \<Longrightarrow> newline \<notin> set l \<and> l \<noteq> []"
  shows "ls = ks"
proof (cases "ls = [] \<or> ks = []")
  case True
  have "unlines xs = [] \<longleftrightarrow> xs = []" if "\<And>l. l \<in> set xs \<Longrightarrow> l \<noteq> []" for xs :: "string list"
    using that by (cases "([newline], xs)" rule: join_with.cases) auto
  with True assms show ?thesis by (metis Un_iff)
next
  case False
  with assms show ?thesis by (intro join_with_inj [where c = newline]) auto
qed

lemma sort_eq_iff: "sort xs = sort ys \<longleftrightarrow> mset xs = mset ys"
proof
  assume "sort xs = sort ys"
  then have "mset (sort xs) = mset (sort ys)" by (rule arg_cong)
  then show "mset xs = mset ys" by simp
next
  assume "mset xs = mset ys"
  then show "sort xs = sort ys" by (intro properties_for_sort) auto
qed

text \<open>
  C28. Two declaration files that agree in everything but their lists of local exports normalize
  to the same text exactly when they export the same names: the same records of type-only flag,
  local and exported name, as a multiset. How the exports are split over statements, in which
  order they stand, and how odd a quoted name is, makes no difference.
\<close>

theorem same_exports_normalize_equally:
  assumes "reference_directives (parse before) = reference_directives (parse after)"
    and "sf_module (parse before) = sf_module (parse after)"
    and "kept_statements (sf_statements (parse before)) = kept_statements (sf_statements (parse after))"
  shows "normalize_declarations parse before = normalize_declarations parse after \<longleftrightarrow>
    mset (export_entries (sf_statements (parse before))) = mset (export_entries (sf_statements (parse after)))"
proof -
  let ?a = "export_entries (sf_statements (parse before))"
  let ?b = "export_entries (sf_statements (parse after))"
  have lines: "newline \<notin> set l \<and> l \<noteq> []"
    if "l \<in> set (sort (map record_text ?a)) \<union> set (sort (map record_text ?b))" for l
    using that by auto
  have "normalize_declarations parse before = normalize_declarations parse after \<longleftrightarrow>
      unlines (sort (map record_text ?a)) = unlines (sort (map record_text ?b))"
    using assms by (simp add: normalize_declarations_def Let_def export_records_text)
  also have "\<dots> \<longleftrightarrow> sort (map record_text ?a) = sort (map record_text ?b)"
    by (rule iffI, erule unlines_inj, erule lines, erule arg_cong)
  also have "\<dots> \<longleftrightarrow> mset (map record_text ?a) = mset (map record_text ?b)"
    by (rule sort_eq_iff)
  also have "\<dots> \<longleftrightarrow> image_mset record_text (mset ?a) = image_mset record_text (mset ?b)" by simp
  also have "\<dots> \<longleftrightarrow> mset ?a = mset ?b"
    by (rule inj_eq [OF multiset.inj_map]) (simp add: inj_def record_text_inj)
  finally show ?thesis .
qed

definition sample_specifier :: "bool \<Rightarrow> string \<Rightarrow> specifier" where
  "sample_specifier type_only name = \<lparr>sp_type_only = type_only, sp_property = None, sp_name = name\<rparr>"

definition sample_file :: "statement_shape list \<Rightarrow> source_file" where
  "sample_file shapes = \<lparr>sf_comments = [],
     sf_statements = map (\<lambda>s. \<lparr>st_shape = s, st_printed = ''export''\<rparr>) shapes, sf_module = True\<rparr>"

text \<open>\<open>export { A, type B }\<close> against \<open>export type { B }; export { A }\<close>.\<close>

definition sample_parse :: "string \<Rightarrow> source_file" where
  "sample_parse contents = sample_file
    (if contents = ''one''
     then [Export_declaration False None
             (Some (Named_exports [sample_specifier False ''A'', sample_specifier True ''B'']))]
     else [Export_declaration True None (Some (Named_exports [sample_specifier False ''B''])),
           Export_declaration False None (Some (Named_exports [sample_specifier False ''A'']))])"

theorem same_exports_normalize_equally_witness:
  "normalize_declarations sample_parse ''one'' = normalize_declarations sample_parse ''two''"
  by (rule same_exports_normalize_equally [THEN iffD2])
    (simp_all add: sample_parse_def sample_file_def sample_specifier_def reference_directives_def
      export_entry_def)

section \<open>Versions: printing and parsing\<close>

lemma version_successes:
  "(j, cs) \<in> set (successes STABLE_VERSION_RE False s (0, [])) \<longleftrightarrow> (\<exists>i1 i2.
      0 < i1 \<and> i1 < length s \<and> s ! i1 = CHR ''.'' \<and> list_all is_digit (substring 0 i1 s)
    \<and> Suc i1 < i2 \<and> i2 < length s \<and> s ! i2 = CHR ''.'' \<and> list_all is_digit (substring (Suc i1) i2 s)
    \<and> Suc i2 < j \<and> j = length s \<and> list_all is_digit (substring (Suc i2) j s)
    \<and> cs = [(3, substring (Suc i2) j s), (2, substring (Suc i1) i2 s), (1, substring 0 i1 s)])"
  unfolding STABLE_VERSION_RE_def cats.simps step_successes by fastforce

abbreviation dot :: char where
  "dot \<equiv> CHR ''.''"

definition version_text :: "nat \<times> nat \<times> nat \<Rightarrow> string" where
  "version_text t = (case t of (a, b, c) \<Rightarrow> decimal a @ dot # decimal b @ dot # decimal c)"

lemma parse_version_text: "parse_version (version_text v) = Returns v"
proof -
  obtain a b c where v: "v = (a, b, c)" by (cases v)
  define s where "s = version_text v"
  let ?i = "length (decimal a)" let ?j = "Suc ?i + length (decimal b)" let ?k = "Suc ?j + length (decimal c)"
  have s: "s = decimal a @ dot # decimal b @ dot # decimal c" by (simp add: s_def v version_text_def)
  have bounds: "?i < length s" "?j < length s" "?k = length s" "s ! ?i = dot" "s ! ?j = dot"
    "0 < ?i" "Suc ?i < ?j" "Suc ?j < length s"
    by (simp_all add: s nth_append)
  have parts: "substring 0 ?i s = decimal a" "substring (Suc ?i) ?j s = decimal b"
    "substring (Suc ?j) ?k s = decimal c"
    by (simp_all add: s substring_def)
  let ?caps = "[(3, decimal c), (2, decimal b), (1, decimal a)]"
  let ?S = "set (successes STABLE_VERSION_RE False s (0, []))"
  have "(?k, ?caps) \<in> ?S"
    unfolding version_successes
    by (intro exI [of _ ?i] exI [of _ ?j] conjI bounds)
      (use bounds parts decimal_all_digits in simp_all)
  then obtain j cs where jcs: "(j, cs) \<in> ?S"
    "exec STABLE_VERSION_RE False s 0 = Some \<lparr>m_start = 0, m_end = j, m_captures = cs\<rparr>"
    using exec_anchored by (metis empty_iff empty_set)
  then obtain i1 i2 where i:
    "0 < i1" "i1 < length s" "s ! i1 = dot" "list_all is_digit (substring 0 i1 s)"
    "Suc i1 < i2" "i2 < length s" "s ! i2 = dot" "list_all is_digit (substring (Suc i1) i2 s)"
    "j = length s"
    "cs = [(3, substring (Suc i2) j s), (2, substring (Suc i1) i2 s), (1, substring 0 i1 s)]"
    unfolding version_successes by blast
  have "i1 = ?i"
    using digits_end_unique [of 0 i1 s "[]" "decimal a" "dot # decimal b @ dot # decimal c"] i s
      decimal_all_digits dot_not_digit by simp
  moreover from this have "i2 = ?j"
    using digits_end_unique [of "Suc i1" i2 s "decimal a @ [dot]" "decimal b" "dot # decimal c"] i s
      decimal_all_digits dot_not_digit by simp
  ultimately have "cs = ?caps" using i bounds parts by simp
  with jcs(2) show ?thesis
    by (simp add: parse_version_def s_def the_group_def captured_def v)
qed

text \<open>
  Printing a version and parsing it gives the version back, so distinct versions are told
  apart whatever the number of their digits.
\<close>

lemma parse_version_roundtrip: "parse_version (version_text v) = Returns v \<and> is_stable (version_text v)"
  using parse_version_text [of v] by (auto simp: parse_version_def is_stable_def test_def split: option.splits)

lemma parse_version_stable: "(\<exists>t. parse_version v = Returns t) \<longleftrightarrow> is_stable v"
  by (auto simp: parse_version_def is_stable_def test_def split: option.split)

lemma parse_version_unstable: "\<not> is_stable v \<Longrightarrow> parse_version v = Throws (Not_stable v)"
  by (auto simp: parse_version_def is_stable_def test_def split: option.split)

lemma parse_version_key: "is_stable v \<Longrightarrow> parse_version v = Returns (version_key v)"
  using parse_version_stable [of v] by (auto simp: version_key_def)

lemma sort_key_Nil: "sort_key f xs = [] \<longleftrightarrow> xs = []"
  by (metis length_0_conv length_sort)

lemma last_greatest: "sorted (map f ys) \<Longrightarrow> x \<in> set ys \<Longrightarrow> f x \<le> f (last ys)"
  by (induction ys) auto

lemma last_sort_key:
  assumes "xs \<noteq> []"
  shows "last (sort_key f xs) \<in> set xs \<and> (\<forall>x\<in>set xs. f x \<le> f (last (sort_key f xs)))"
  using assms last_greatest [of f "sort_key f xs"] last_in_set [of "sort_key f xs"]
  by (auto simp: sort_key_Nil)

text \<open>
  For a stable version, the version compared against is the greatest published stable version
  below it; there is none exactly when no stable version below it was published.
\<close>

lemma previous_version_is_greatest:
  assumes "is_stable current"
  shows "\<exists>r. previous_version published current = Returns r
    \<and> (case r of
         None \<Rightarrow> {v \<in> set published. is_stable v \<and> version_key v < version_key current} = {}
       | Some v \<Rightarrow> v \<in> set published \<and> is_stable v \<and> version_key v < version_key current
           \<and> version_key v = Max (version_key `
               {u \<in> set published. is_stable u \<and> version_key u < version_key current}))"
proof -
  let ?below = "filter (\<lambda>v. version_key v < version_key current) (filter is_stable published)"
  have set: "set ?below = {u \<in> set published. is_stable u \<and> version_key u < version_key current}" by auto
  show ?thesis
  proof (cases "?below = []")
    case True
    then have "{u \<in> set published. is_stable u \<and> version_key u < version_key current} = {}"
      unfolding set [symmetric] by simp
    with True assms show ?thesis by (auto simp: previous_version_def Let_def)
  next
    case False
    let ?v = "last (sort_key version_key ?below)"
    from last_sort_key [OF False, of version_key] have
      v: "?v \<in> set ?below" "\<And>u. u \<in> set ?below \<Longrightarrow> version_key u \<le> version_key ?v" by auto
    then have "version_key ?v = Max (version_key ` set ?below)"
      by (intro Max_eqI [symmetric]) auto
    moreover have "previous_version published current = Returns (Some ?v)"
      using False assms unfolding previous_version_def Let_def sort_key_Nil by (simp only: simp_thms if_False)
    ultimately show ?thesis using v(1) unfolding set by auto
  qed
qed

lemma previous_version_is_greatest_witness:
  "\<exists>r. previous_version [version_text (1, 2, 3), version_text (2, 0, 0)] (version_text (1, 10, 0)) = Returns r
     \<and> r = Some (version_text (1, 2, 3))"
proof -
  have key: "version_key (version_text t) = t" for t
    by (simp add: version_key_def parse_version_text)
  have st: "is_stable (version_text t)" for t
    using parse_version_stable parse_version_text by blast
  let ?l = "[version_text (1, 2, 3), version_text (2, 0, 0)]"
  from previous_version_is_greatest [OF st, of ?l "(1, 10, 0)"] obtain r where
    r: "previous_version ?l (version_text (1, 10, 0)) = Returns r" and
    spec: "case r of
         None \<Rightarrow> {v \<in> set ?l. is_stable v \<and> version_key v < (1, 10, 0)} = {}
       | Some v \<Rightarrow> v \<in> set ?l \<and> is_stable v \<and> version_key v < (1, 10, 0)
           \<and> version_key v = Max (version_key ` {u \<in> set ?l. is_stable u \<and> version_key u < (1, 10, 0)})"
    unfolding key by blast
  have "version_text (1, 2, 3) \<in> {v \<in> set ?l. is_stable v \<and> version_key v < (1, 10, 0)}"
    using key [of "(1, 2, 3)"] st by simp
  with spec obtain v where v: "r = Some v" "v \<in> set ?l" "version_key v < (1, 10, 0)"
    by (cases r) auto
  moreover have "v \<noteq> version_text (2, 0, 0)" using v(3) key [of "(2, 0, 0)"] by auto
  ultimately show ?thesis using r by auto
qed

section \<open>The verdict\<close>

lemma fst_in_files: "v \<in> fst ` set fs \<longleftrightarrow> map_of fs v \<noteq> None"
  by (simp add: map_of_eq_None_iff)

definition normalized_files :: "(string \<Rightarrow> source_file) \<Rightarrow> dist \<Rightarrow> string \<Rightarrow> string option" where
  "normalized_files parse d file = map_option (normalize_declarations parse) (map_of (declaration_files d) file)"

lemma compare_dist_none:
  "compare_dist parse before after = [] \<longleftrightarrow> normalized_files parse before = normalized_files parse after"
proof -
  let ?b = "declaration_files before" and ?a = "declaration_files after"
  let ?U = "fst ` set ?b \<union> fst ` set ?a"
  let ?same = "\<lambda>f. normalized_files parse before f = normalized_files parse after f"
  have "compare_dist parse before after = [] \<longleftrightarrow> (\<forall>f\<in>?U. compare_file parse ?b ?a f = [])"
    by (auto simp: compare_dist_def Let_def)
  also have "\<dots> \<longleftrightarrow> (\<forall>f\<in>?U. ?same f)"
  proof (rule ball_cong [OF refl])
    fix f assume "f \<in> ?U"
    then have "map_of ?b f \<noteq> None \<or> map_of ?a f \<noteq> None" unfolding fst_in_files Un_iff .
    then show "compare_file parse ?b ?a f = [] \<longleftrightarrow> ?same f"
      by (cases "map_of ?b f"; cases "map_of ?a f")
        (simp_all add: compare_file_def normalized_files_def Let_def)
  qed
  also have "\<dots> \<longleftrightarrow> (\<forall>f. ?same f)"
  proof -
    have "?same f" if "f \<notin> ?U" for f
      using that unfolding fst_in_files Un_iff by (simp add: normalized_files_def)
    then show ?thesis by blast
  qed
  finally show ?thesis by (simp only: fun_eq_iff)
qed

definition noted :: "release \<Rightarrow> bool" where
  "noted E \<longleftrightarrow> (case changelog_section (case rl_changelog E of None \<Rightarrow> [] | Some c \<Rightarrow> c) (rl_version E) of
     None \<Rightarrow> False | Some s \<Rightarrow> has_compatibility_note s)"

text \<open>
  C29. The gate passes exactly when there is no earlier version, or when both versions are stable
  and every declaration file normalizes to the same text on both sides, or the CHANGELOG section
  of the release holds the compatibility note. The level of the bump does not matter.
\<close>

theorem api_gate_verdict:
  "api_gate parse E args = Returns 0 \<longleftrightarrow>
     (case resolve_previous E (against_option args) of
        Returns None \<Rightarrow> True
      | Returns (Some (before, v)) \<Rightarrow> is_stable v \<and> is_stable (rl_version E)
          \<and> (normalized_files parse before = normalized_files parse (rl_dist E) \<or> noted E)
      | _ \<Rightarrow> False)"
proof (cases "\<exists>before v. resolve_previous E (against_option args) = Returns (Some (before, v))")
  case True
  then obtain before v where r: "resolve_previous E (against_option args) = Returns (Some (before, v))" by blast
  show ?thesis
  proof (cases "is_stable v \<and> is_stable (rl_version E)")
    case True
    then have "\<exists>b. classify_bump v (rl_version E) = Returns b"
      by (auto simp: classify_bump_def parse_version_key split: prod.split)
    with True r show ?thesis
      by (auto simp: api_gate_def compare_dist_none noted_def Let_def split: option.splits)
  next
    case False
    then have "\<exists>e. classify_bump v (rl_version E) = Throws e"
      by (cases "is_stable v"; cases "is_stable (rl_version E)")
        (auto simp: classify_bump_def parse_version_key parse_version_unstable split: prod.split)
    with False r show ?thesis by (auto simp: api_gate_def)
  qed
next
  case False
  then show ?thesis
    by (auto simp: api_gate_def split: result.splits option.splits)
qed

end
