(* ===== verification/PublishedSurface.thy ===== *)
theory PublishedSurface
  imports LinkGuard NodePath ApiSurface
begin

text \<open>
  The file half of the published-surface gate (\<open>src/scripts/check-published-surface.mjs\<close>): the
  anchors and links the README holds, the confinement of relative links, and the check of the
  CHANGELOG against the release tags. A message of the gate is a constructor of \<open>failure\<close>.
\<close>

datatype failure =
    Missing_anchor string
  | Outside_repository string
  | Missing_file string
  | Bad_link string
  | Missing_heading string
  | Short_notes string nat
  | Empty_section string
  | Undefined_reference string
  | Tags_not_listed
  | Shallow_checkout
  | Missing_release string

section \<open>What the README holds\<close>

definition FENCE_RE :: regex where
  "FENCE_RE = cats
    [LineStart, lit ''```'', Star False (Cls (\<lambda>_. True)), LineStart, lit ''```'', LineEnd]"

definition readme_prose :: "string \<Rightarrow> string" where
  "readme_prose readme = replace_all FENCE_RE True (\<lambda>_. []) readme"

definition slug :: "string \<Rightarrow> string" where
  "slug heading =
    replace_all space False (\<lambda>_. ''-'')
      (replace_all (Cls (\<lambda>c. \<not> word_char c \<and> \<not> js_space c \<and> c \<noteq> CHR ''-'')) False (\<lambda>_. [])
        (to_lower heading))"

definition HEADING_RE :: regex where
  "HEADING_RE = cats
    [LineStart, upto_times 6 (chr CHR ''#''), some space, Group 1 (some any_char), LineEnd]"

definition firsts :: "regex \<Rightarrow> bool \<Rightarrow> string \<Rightarrow> string list" where
  "firsts r multi s = map (\<lambda>m. the_group m 1) (match_all r multi s)"

definition anchors_of :: "string \<Rightarrow> string list" where
  "anchors_of readme = to_set (map (\<lambda>h. CHR ''#'' # slug h) (firsts HEADING_RE True (readme_prose readme)))"

definition IMAGE_RE :: regex where
  "IMAGE_RE = cats
    [lit ''!['', many (none_of '']''), lit ''](''  , many (none_of '')''), chr CHR '')'']"

definition clickable_of :: "string \<Rightarrow> string" where
  "clickable_of readme = replace_all IMAGE_RE False (\<lambda>_. []) (readme_prose readme)"

definition markdown_link :: "regex \<Rightarrow> regex" where
  "markdown_link target = cats [chr CHR ''['', many (none_of '']''), lit ''](''  , target, chr CHR '')'']"

definition html_link :: "regex \<Rightarrow> regex" where
  "html_link target = cats [lit ''<a'', some space, lit ''href='', chr CHR 0x22, target, chr CHR 0x22]"

definition not_paren_space :: regex where
  "not_paren_space = Cls (\<lambda>c. c \<noteq> CHR '')'' \<and> \<not> js_space c)"

definition http_start :: regex where
  "http_start = cats [lit ''http'', Opt (chr CHR ''s''), lit ''://'']"

definition foreign_start :: regex where
  "foreign_start = alts [cats [lit ''http'', Opt (chr CHR ''s''), chr CHR '':''], chr CHR ''#'', lit ''mailto:'']"

definition external_links :: "string \<Rightarrow> string list" where
  "external_links readme = to_set
    (firsts (markdown_link (Group 1 (Cat http_start (some not_paren_space)))) False (clickable_of readme)
     @ firsts (html_link (Group 1 (Cat http_start (some (none_of [CHR 0x22]))))) False (clickable_of readme))"

definition internal_links :: "string \<Rightarrow> string list" where
  "internal_links readme = to_set (map to_lower
    (firsts (markdown_link (Group 1 (Cat (chr CHR ''#'') (some not_paren_space)))) False (readme_prose readme)
     @ firsts (html_link (Group 1 (Cat (chr CHR ''#'') (some (none_of [CHR 0x22]))))) False (readme_prose readme)))"

definition relative_links :: "string \<Rightarrow> string list" where
  "relative_links readme = to_set (filter (\<lambda>target. target \<noteq> [])
    (map (\<lambda>target. hd (split_on (CHR ''#'') target))
      (firsts (markdown_link (Cat (NotAhead foreign_start) (Group 1 (some not_paren_space)))) False (clickable_of readme)
       @ firsts (html_link (Cat (NotAhead foreign_start) (Group 1 (some (none_of [CHR 0x22]))))) False (clickable_of readme))))"

section \<open>The links of the README\<close>

text \<open>
  A relative link is resolved and confined before the file system is asked; the paths asked for
  are returned beside the failures. \<open>dir\<close> is the absolute, normalized root.
\<close>

definition leading_slashes :: regex where
  "leading_slashes = cats [LineStart, some (chr CHR ''/'')]"

definition check_relative ::
    "(string \<Rightarrow> bool) \<Rightarrow> string \<Rightarrow> string \<Rightarrow> failure list \<times> string list" where
  "check_relative exists_sync dir r =
    (let target = resolve_path dir (replace_first leading_slashes False (\<lambda>_. []) r)
     in if target \<noteq> dir \<and> \<not> starts_with (dir @ ''/'') target then ([Outside_repository r], [])
        else if \<not> exists_sync target then ([Missing_file r], [target])
        else ([], [target]))"

definition anchor_failures :: "string \<Rightarrow> failure list" where
  "anchor_failures readme =
    map Missing_anchor (filter (\<lambda>a. a \<notin> set (anchors_of readme)) (internal_links readme))"

definition link_failure :: "verdict \<Rightarrow> failure list" where
  "link_failure v = (case v of Finding f \<Rightarrow> [Bad_link f] | _ \<Rightarrow> [])"

definition check_links ::
    "network \<Rightarrow> (string \<Rightarrow> bool) \<Rightarrow> string \<Rightarrow> string \<Rightarrow> failure list" where
  "check_links E exists_sync dir readme =
    anchor_failures readme
    @ concat (map (fst \<circ> check_relative exists_sync dir) (relative_links readme))
    @ concat (map (link_failure \<circ> fst \<circ> check_link E []) (external_links readme))"

section \<open>The CHANGELOG\<close>

definition release_notes :: "string \<Rightarrow> string \<Rightarrow> string option" where
  "release_notes changelog version =
    (let ls = lines_of changelog
     in case find_index (starts_with (''## ['' @ version @ '']'')) ls of
          None \<Rightarrow> None
        | Some start \<Rightarrow>
            (let rest = drop (start + 1) ls
             in case find_index (test (Cat LineStart (lit ''## ['')) False) rest of
                  None \<Rightarrow> Some (trim_end (unlines rest))
                | Some e \<Rightarrow> Some (trim_end (unlines (take e rest)))))"

definition NUMBERED_RE :: regex where
  "NUMBERED_RE = cats
    [LineStart, some digit, chr CHR ''.'', some digit, chr CHR ''.'', some digit, LineEnd]"

definition BRACKET_HEADING_RE :: regex where
  "BRACKET_HEADING_RE = cats [LineStart, lit ''## ['', Group 1 (some (none_of '']'')), chr CHR '']'']"

definition REFERENCE_RE :: regex where
  "REFERENCE_RE = cats
    [LineStart, chr CHR ''['',
     Group 1 (cats [some digit, chr CHR ''.'', some digit, chr CHR ''.'', some digit]), lit '']: '']"

definition documented_versions :: "string \<Rightarrow> string list" where
  "documented_versions changelog =
    to_set (filter (test NUMBERED_RE False) (firsts BRACKET_HEADING_RE True changelog))"

definition defined_references :: "string \<Rightarrow> string list" where
  "defined_references changelog = to_set (firsts REFERENCE_RE True changelog)"

record release_tags =
  tag_list :: "string option"
  is_shallow :: bool

definition strip_v :: "string \<Rightarrow> string" where
  "strip_v t = (case t of [] \<Rightarrow> [] | c # cs \<Rightarrow> if c = CHR ''v'' then cs else t)"

definition released_versions :: "string \<Rightarrow> string list" where
  "released_versions tags =
    filter (test NUMBERED_RE False) (map (strip_v \<circ> trim) (lines_of tags))"

definition section_failures :: "string \<Rightarrow> failure list" where
  "section_failures changelog =
    map Empty_section (filter (\<lambda>v. case release_notes changelog v of None \<Rightarrow> True | Some n \<Rightarrow> length n < 40)
      (documented_versions changelog))
    @ map Undefined_reference
        (filter (\<lambda>v. v \<notin> set (defined_references changelog)) (documented_versions changelog))"

definition tag_failures :: "release_tags \<Rightarrow> string \<Rightarrow> failure list" where
  "tag_failures tags changelog =
    (case tag_list tags of
       None \<Rightarrow> [Tags_not_listed]
     | Some listing \<Rightarrow>
         (let released = released_versions listing
          in if released = [] \<and> is_shallow tags then [Shallow_checkout]
             else map Missing_release
               (filter (\<lambda>v. v \<notin> set (documented_versions changelog)) released)))"

definition check_changelog :: "release_tags \<Rightarrow> string \<Rightarrow> string \<Rightarrow> failure list" where
  "check_changelog tags changelog version =
    (case release_notes changelog version of
       None \<Rightarrow> [Missing_heading version]
     | Some notes \<Rightarrow>
         (if length notes < 40 then [Short_notes version (length notes)] else [])
         @ section_failures changelog @ tag_failures tags changelog)"

section \<open>Properties\<close>

text \<open>
  C31. Relative links stay inside the repository: whatever the README says, every path the file
  system is asked about is the root or lies below it, with no \<open>..\<close> left in it.
\<close>

theorem relative_links_stay_inside:
  assumes "path_of (path_segments dir) = dir" and "target \<in> set (snd (check_relative exists_sync dir r))"
  shows "prefix (path_segments dir) (path_segments target) \<and> path_of (path_segments target) = target
    \<and> ''..'' \<notin> set (path_segments target)"
proof -
  define p where "p = replace_first leading_slashes False (\<lambda>_. []) r"
  define segs where "segs = path_segments (if is_absolute p then p else dir @ ''/'' @ p)"
  have segs: "list_all plain_segment segs" unfolding segs_def by (rule path_segments_plain)
  have "target = path_of segs" and inside: "target = dir \<or> starts_with (dir @ ''/'') target"
    using assms(2) by (auto simp: check_relative_def p_def segs_def resolve_path_def Let_def split: if_splits)
  then have t: "path_segments target = segs" using path_segments_path_of [OF segs] by simp
  moreover have "prefix (path_segments dir) segs"
    using inside t below_root [OF _ path_segments_plain segs, of dir] \<open>target = path_of segs\<close> assms(1)
    by auto
  moreover have "''..'' \<notin> set segs" using segs by (auto simp: list_all_iff plain_segment_def)
  ultimately show ?thesis using \<open>target = path_of segs\<close> by simp
qed

theorem relative_links_stay_inside_witness:
  "prefix (path_segments ''/r'') (path_segments ''/r/b'')
   \<and> snd (check_relative (\<lambda>_. True) ''/r'' ''/../r/a/../b'') = [''/r/b'']"
proof -
  have run: "snd (check_relative (\<lambda>_. True) ''/r'' ''/../r/a/../b'') = [''/r/b'']" by code_simp
  moreover have "path_of (path_segments ''/r'') = ''/r''" by code_simp
  ultimately show ?thesis
    using relative_links_stay_inside [of "''/r''" "''/r/b''" "\<lambda>_. True" "''/../r/a/../b''"] by simp
qed

text \<open>
  The two gates that read the CHANGELOG read the same section: the notes of the
  published-surface gate are the section of the public-declaration gate without its trailing
  white space.
\<close>

lemma gates_read_the_same_section:
  "release_notes changelog version = map_option trim_end (changelog_section changelog version)"
proof -
  have "test (Cat LineStart (lit ''## ['')) False = starts_with ''## [''"
    by (rule ext) (rule test_literal_start)
  then show ?thesis
    unfolding release_notes_def changelog_section_def Let_def by (simp split: option.split)
qed

lemma find_index_append:
  "(\<And>x. x \<in> set xs \<Longrightarrow> \<not> P x) \<Longrightarrow> P y \<Longrightarrow> find_index P (xs @ y # ys) = Some (length xs)"
  by (induction xs) auto

text \<open>
  The section of a version is what stands between its first heading and the next one:
  whatever precedes, and whatever follows from the next heading on, leaves no trace in it.
\<close>

lemma section_is_between_headings:
  assumes "changelog = unlines (before @ heading # body @ after)"
    and "\<And>l. l \<in> set (before @ heading # body @ after) \<Longrightarrow> newline \<notin> set l"
    and "\<And>l. l \<in> set before \<Longrightarrow> \<not> starts_with (''## ['' @ version @ '']'') l"
    and "starts_with (''## ['' @ version @ '']'') heading"
    and "\<And>l. l \<in> set body \<Longrightarrow> \<not> starts_with ''## ['' l"
    and "after = [] \<or> starts_with ''## ['' (hd after)"
  shows "changelog_section changelog version = Some (unlines body)"
proof -
  have ls: "lines_of changelog = before @ heading # body @ after"
    unfolding assms(1) by (rule split_join) (use assms(2) in auto)
  have "find_index (starts_with (''## ['' @ version @ '']'')) (lines_of changelog) = Some (length before)"
    unfolding ls using assms(3,4) by (rule find_index_append)
  moreover have "drop (length before + 1) (lines_of changelog) = body @ after" by (simp add: ls)
  moreover have "find_index (starts_with ''## ['') (body @ after) =
      (if after = [] then None else Some (length body))"
  proof (cases after)
    case Nil
    with assms(5) show ?thesis by (auto simp: find_index_None)
  next
    case (Cons h rest)
    with assms(5,6) find_index_append [of body "starts_with ''## ['' " h rest] show ?thesis by simp
  qed
  ultimately show ?thesis by (simp add: changelog_section_def Let_def)
qed

lemma section_is_between_headings_witness:
  "changelog_section (unlines [''intro'', ''## [1.2.0]'', ''fixed'', ''## [1.1.0]'', ''old'']) ''1.2.0''
     = Some (unlines [''fixed''])"
  by (rule section_is_between_headings [of _ "[''intro'']" "''## [1.2.0]''" "[''fixed'']" "[''## [1.1.0]'', ''old'']"])
    auto

definition long_section :: "string \<Rightarrow> string \<Rightarrow> bool" where
  "long_section changelog v \<longleftrightarrow>
    (case release_notes changelog v of None \<Rightarrow> False | Some n \<Rightarrow> 40 \<le> length n)"

text \<open>
  The CHANGELOG passes exactly when the version being released and every documented version
  have a section of at least forty characters, every documented version has its reference link,
  the tags could be listed (not only because the checkout is shallow), and every released version
  is documented.
\<close>

lemma changelog_gate_iff:
  "check_changelog tags changelog version = [] \<longleftrightarrow>
     long_section changelog version
   \<and> set (documented_versions changelog) \<subseteq> Collect (long_section changelog) \<inter> set (defined_references changelog)
   \<and> (\<exists>listing. tag_list tags = Some listing
        \<and> \<not> (released_versions listing = [] \<and> is_shallow tags)
        \<and> set (released_versions listing) \<subseteq> set (documented_versions changelog))"
proof -
  have "section_failures changelog = [] \<longleftrightarrow>
      set (documented_versions changelog) \<subseteq> Collect (long_section changelog) \<inter> set (defined_references changelog)"
    by (auto simp: section_failures_def long_section_def filter_empty_conv split: option.splits)
  moreover have "tag_failures tags changelog = [] \<longleftrightarrow> (\<exists>listing. tag_list tags = Some listing
        \<and> \<not> (released_versions listing = [] \<and> is_shallow tags)
        \<and> set (released_versions listing) \<subseteq> set (documented_versions changelog))"
    by (auto simp: tag_failures_def Let_def filter_empty_conv split: option.splits)
  ultimately show ?thesis
    by (auto simp: check_changelog_def long_section_def split: option.splits)
qed

end
