(* ===== verification/JsMatches.thy ===== *)
theory JsMatches
  imports JsRegex
begin

text \<open>
  Where the matches of \<open>matchAll\<close> and \<open>replace\<close> lie: one after another inside the text, each a
  success of the matcher at its start; and the lines of a text in which whole lines are replaced
  by as many others.
\<close>

section \<open>Bounds of a success\<close>

lemma iterate_bounds:
  assumes "\<And>st t. fst st \<le> n \<Longrightarrow> t \<in> set (f st) \<Longrightarrow> fst st \<le> fst t \<and> fst t \<le> n"
  shows "fst st \<le> n \<Longrightarrow> t \<in> set (iterate g f k st) \<Longrightarrow> fst st \<le> fst t \<and> fst t \<le> n"
proof (induction k arbitrary: st)
  case (Suc k)
  from Suc.prems(2) consider "t = st" | u where "u \<in> set (f st)" "t \<in> set (iterate g f k u)"
    unfolding iterate_Suc_set by blast
  then show ?case
  proof cases
    case (2 u)
    with assms [OF Suc.prems(1)] Suc.IH [of u] show ?thesis by fastforce
  qed (use Suc.prems in simp)
qed simp

lemma fst_cleared [simp]: "fst (cleared r st) = fst st"
  by (simp add: cleared_def)

lemma successes_bounds:
  "fst st \<le> length s \<Longrightarrow> t \<in> set (successes r multi s st) \<Longrightarrow> fst st \<le> fst t \<and> fst t \<le> length s"
proof (induction r arbitrary: st t)
  case (Cat r q)
  from Cat.prems(2) obtain u where "u \<in> set (successes r multi s st)" "t \<in> set (successes q multi s u)" by auto
  with Cat.IH(1) [OF Cat.prems(1)] Cat.IH(2) [of u t] show ?case by fastforce
next
  case (Opt r)
  have step: "fst st \<le> fst t \<and> fst t \<le> length s"
    if "fst st \<le> length s" "t \<in> set (successes r multi s (cleared r st))" for st t
    using Opt.IH [of "cleared r st" t] that by simp
  have "t \<in> set (iterate True (\<lambda>t. successes r multi s (cleared r t)) 1 st)"
    using Opt.prems(2) by (simp only: successes.simps)
  from iterate_bounds [OF step Opt.prems(1) this] show ?case by simp
next
  case (Star g r)
  have step: "fst st \<le> fst t \<and> fst t \<le> length s"
    if "fst st \<le> length s" "t \<in> set (successes r multi s (cleared r st))" for st t
    using Star.IH [of "cleared r st" t] that by simp
  have "t \<in> set (iterate g (\<lambda>t. successes r multi s (cleared r t)) (length s - fst st) st)"
    using Star.prems(2) by (simp only: successes.simps)
  from iterate_bounds [OF step Star.prems(1) this] show ?case by simp
next
  case (Group n r)
  from Group.prems(2) obtain u where "u \<in> set (successes r multi s st)" "fst t = fst u" by auto
  with Group.IH [OF Group.prems(1)] show ?case by simp
next
  case (BackRef n)
  let ?p = "captured (snd st) n"
  from BackRef.prems(2) have t: "fst t = fst st + length ?p" and "starts_with ?p (drop (fst st) s)"
    by (auto split: if_splits)
  then obtain rest where "drop (fst st) s = ?p @ rest" by (auto simp: starts_with_iff)
  from arg_cong [OF this, of length] BackRef.prems(1) t show ?case by simp
next
  case (Alt r q)
  then show ?case by (metis UnE set_append successes.simps(4))
next
  case (NotAhead r)
  then have "t = st" by (simp only: successes.simps split: if_splits) simp_all
  with NotAhead.prems(1) show ?case by simp
qed (simp_all split: if_splits)

section \<open>Matches in a row\<close>

fun placed :: "string \<Rightarrow> nat \<Rightarrow> match list \<Rightarrow> bool" where
  "placed s i [] \<longleftrightarrow> i \<le> length s"
| "placed s i (m # ms) \<longleftrightarrow> i \<le> m_start m \<and> m_start m \<le> m_end m \<and> m_end m \<le> length s \<and> placed s (m_end m) ms"

lemma first_some_Some: "first_some f xs = Some y \<Longrightarrow> \<exists>x\<in>set xs. f x = Some y"
  by (induction xs) (auto split: option.splits)

lemma exec_Some:
  assumes "exec r multi s i = Some m"
  shows "i \<le> m_start m \<and> m_start m \<le> length s
    \<and> (m_end m, m_captures m) \<in> set (successes r multi s (m_start m, []))"
proof -
  from assms first_some_Some obtain k where k: "k \<in> set [i..<Suc (length s)]" "match_at r multi s k = Some m"
    unfolding exec_def by metis
  then obtain rest where "successes r multi s (k, []) = (m_end m, m_captures m) # rest" "m_start m = k"
    by (auto simp: match_at_def split: list.splits)
  with k(1) show ?thesis by auto
qed

lemma exec_bounds:
  assumes "exec r multi s i = Some m"
  shows "i \<le> m_start m \<and> m_start m \<le> m_end m \<and> m_end m \<le> length s"
  using exec_Some [OF assms] successes_bounds [of "(m_start m, [])" s "(m_end m, m_captures m)"] by auto

lemma placed_later: "placed s j ms \<Longrightarrow> i \<le> j \<Longrightarrow> placed s i ms"
  by (cases ms) auto

lemma matches_from_placed: "i \<le> length s \<Longrightarrow> placed s i (matches_from n r multi s i)"
proof (induction n arbitrary: i)
  case (Suc n)
  show ?case
  proof (cases "exec r multi s i")
    case (Some m)
    let ?j = "if m_end m = m_start m then Suc (m_end m) else m_end m"
    note b = exec_bounds [OF Some]
    have "placed s (m_end m) (matches_from n r multi s ?j)"
    proof (cases "?j \<le> length s")
      case True
      from Suc.IH [OF True] show ?thesis by (rule placed_later) simp
    next
      case False
      then have "exec r multi s ?j = None" by (simp add: exec_def)
      then have "matches_from n r multi s ?j = []" by (cases n) simp_all
      with b show ?thesis by (simp only: placed.simps)
    qed
    with b Some show ?thesis by simp
  qed (use Suc.prems in simp)
qed simp

lemma match_all_placed: "placed s 0 (match_all r multi s)"
  unfolding match_all_def by (rule matches_from_placed) simp

lemma matches_from_success:
  "m \<in> set (matches_from n r multi s i) \<Longrightarrow> (m_end m, m_captures m) \<in> set (successes r multi s (m_start m, []))"
  by (induction n arbitrary: i) (auto split: option.splits dest: exec_Some sym)

lemma match_all_success:
  "m \<in> set (match_all r multi s) \<Longrightarrow> (m_end m, m_captures m) \<in> set (successes r multi s (m_start m, []))"
  unfolding match_all_def by (rule matches_from_success)

lemma placed_bounds: "placed s i ms \<Longrightarrow> m \<in> set ms \<Longrightarrow> m_start m \<le> m_end m \<and> m_end m \<le> length s"
  by (induction ms arbitrary: i) fastforce+

lemma match_all_bounds: "m \<in> set (match_all r multi s) \<Longrightarrow> m_start m \<le> m_end m \<and> m_end m \<le> length s"
  using placed_bounds [OF match_all_placed] .

section \<open>Whole lines\<close>

definition whole_lines :: "string \<Rightarrow> bool" where
  "whole_lines u \<longleftrightarrow> u = [] \<or> last u = newline"

lemma whole_lines_Nil [simp]: "whole_lines []"
  by (simp add: whole_lines_def)

lemma lines_of_Cons: "lines_of (c # s) = (if c = newline then [] # lines_of s else (c # hd (lines_of s)) # tl (lines_of s))"
  by simp

lemma lines_of_append:
  "lines_of (u @ v) = butlast (lines_of u) @ (last (lines_of u) @ hd (lines_of v)) # tl (lines_of v)"
proof (induction u)
  case (Cons c u)
  obtain l ls where u: "lines_of u = l # ls" by (cases "lines_of u") auto
  with Cons show ?case by (cases ls) auto
qed simp

lemma whole_lines_last: "whole_lines u \<Longrightarrow> last (lines_of u) = []"
proof (induction u)
  case (Cons c u)
  obtain l ls where u: "lines_of u = l # ls" by (cases "lines_of u") auto
  with Cons show ?case by (cases u; cases ls) (auto simp: whole_lines_def split: if_splits)
qed simp

lemma lines_of_whole: "whole_lines u \<Longrightarrow> lines_of (u @ v) = butlast (lines_of u) @ lines_of v"
  by (simp add: lines_of_append whole_lines_last)

lemma lines_of_newlines: "lines_of (replicate k newline) = replicate (Suc k) []"
  by (induction k) simp_all

lemma whole_newlines: "whole_lines (replicate k newline)"
  by (cases k) (auto simp: whole_lines_def)

lemma length_butlast_lines: "length (butlast (lines_of u)) = count_list u newline"
  by (simp add: length_split_on)

lemma whole_substring: "whole_lines (take j s) \<Longrightarrow> whole_lines (substring i j s)"
proof (cases "i < j \<and> i < length s")
  case True
  assume w: "whole_lines (take j s)"
  have "take j s = take i s @ substring i j s" using True
    by (metis le_add_diff_inverse less_imp_le substring_def take_add)
  moreover have "substring i j s \<noteq> []" using True by (simp add: substring_def)
  ultimately show ?thesis using w by (auto simp: whole_lines_def)
qed (auto simp: substring_def)

text \<open>
  Each of the matches is made of whole lines and replaced by as many line feeds: the lines keep
  their numbers, and each is as it was or empty.
\<close>

definition blanked :: "string \<Rightarrow> match \<Rightarrow> string" where
  "blanked s m = replicate (length (lines_of (matched s m)) - 1) newline"

definition line_of :: "string \<Rightarrow> nat \<Rightarrow> nat" where
  "line_of s i = count_list (take i s) newline"

definition in_matches :: "string \<Rightarrow> match list \<Rightarrow> nat \<Rightarrow> bool" where
  "in_matches s ms k \<longleftrightarrow> list_ex (\<lambda>m. line_of s (m_start m) \<le> k \<and> k < line_of s (m_end m)) ms"

lemma line_of_later: "i \<le> j \<Longrightarrow> line_of s j = line_of s i + count_list (substring i j s) newline"
  unfolding line_of_def substring_def by (metis count_list_append le_add_diff_inverse take_add)

lemma line_of_mono: "i \<le> j \<Longrightarrow> line_of s i \<le> line_of s j"
  by (simp add: line_of_later)

lemma placed_start: "placed s i ms \<Longrightarrow> m \<in> set ms \<Longrightarrow> i \<le> m_start m"
  by (induction ms arbitrary: i) fastforce+

lemma not_before_matches: "placed s i ms \<Longrightarrow> k < line_of s i \<Longrightarrow> \<not> in_matches s ms k"
  unfolding in_matches_def list_ex_iff by (meson line_of_mono not_le order_less_le_trans placed_start)

lemma drop_substring:
  assumes "i \<le> j"
  shows "drop i s = substring i j s @ drop j s"
proof -
  have "drop (j - i) (drop i s) = drop j s" using assms by simp
  then show ?thesis unfolding substring_def by (metis append_take_drop_id)
qed

lemma nth_append_three:
  assumes "length xs = a" and "length ys = b"
  shows "(xs @ ys @ zs) ! k = (if k < a then xs ! k else if k < a + b then ys ! (k - a) else zs ! (k - (a + b)))"
  using assms by (auto simp: nth_append)

lemma blanked_lines:
  assumes "placed s i ms" and "\<And>m. m \<in> set ms \<Longrightarrow> whole_lines (take (m_start m) s) \<and> whole_lines (take (m_end m) s)"
  shows "length (lines_of (splice s (blanked s) i ms)) = length (lines_of (drop i s))
    \<and> (\<forall>k < length (lines_of (drop i s)). lines_of (splice s (blanked s) i ms) ! k =
         (if in_matches s ms (line_of s i + k) then [] else lines_of (drop i s) ! k))"
  using assms
proof (induction ms arbitrary: i)
  case Nil
  then show ?case by (simp add: in_matches_def)
next
  case (Cons m ms)
  let ?u = "substring i (m_start m) s" and ?v = "matched s m" and ?w = "drop (m_end m) s"
  let ?rest = "splice s (blanked s) (m_end m) ms"
  have pos: "i \<le> m_start m" "m_start m \<le> m_end m" "placed s (m_end m) ms" using Cons.prems(1) by auto
  have split: "drop i s = ?u @ ?v @ ?w"
    using drop_substring [OF pos(1), of s] drop_substring [OF pos(2), of s] by (simp add: matched_def)
  have u: "whole_lines ?u" and v: "whole_lines ?v"
    using Cons.prems(2) [of m] whole_substring by (auto simp: matched_def)
  define a where "a = count_list ?u newline"
  define b where "b = count_list ?v newline"
  have L: "line_of s (m_start m) = line_of s i + a" "line_of s (m_end m) = line_of s i + a + b"
    using line_of_later [OF pos(1)] line_of_later [OF pos(2)] by (simp_all add: a_def b_def matched_def)
  have len: "length (butlast (lines_of ?u)) = a" "length (butlast (lines_of ?v)) = b" "length (lines_of ?v) - 1 = b"
    by (simp_all add: a_def b_def length_split_on)
  have IH: "length (lines_of ?rest) = length (lines_of ?w)"
    "\<And>k. k < length (lines_of ?w) \<Longrightarrow> lines_of ?rest ! k =
       (if in_matches s ms (line_of s (m_end m) + k) then [] else lines_of ?w ! k)"
    using Cons.IH [OF pos(3)] Cons.prems(2) by auto
  have bl: "blanked s m = replicate b newline" using len(3) by (simp only: blanked_def)
  have nl: "butlast (lines_of (replicate b newline)) = replicate b []"
    by (simp only: lines_of_newlines butlast_snoc replicate_append_same [symmetric] replicate_Suc)
  have new: "lines_of (splice s (blanked s) i (m # ms)) = butlast (lines_of ?u) @ replicate b [] @ lines_of ?rest"
    by (simp only: splice.simps bl lines_of_whole [OF u] lines_of_whole [OF whole_newlines] nl)
  have old: "lines_of (drop i s) = butlast (lines_of ?u) @ butlast (lines_of ?v) @ lines_of ?w"
    unfolding split using u v by (simp add: lines_of_whole)
  have new_nth: "lines_of (splice s (blanked s) i (m # ms)) ! k =
      (if k < a then butlast (lines_of ?u) ! k else if k < a + b then replicate b [] ! (k - a) else lines_of ?rest ! (k - (a + b)))"
    and old_nth: "lines_of (drop i s) ! k =
      (if k < a then butlast (lines_of ?u) ! k else if k < a + b then butlast (lines_of ?v) ! (k - a) else lines_of ?w ! (k - (a + b)))" for k
    unfolding new old using len by (simp_all only: nth_append_three length_replicate)
  show ?case
  proof (intro conjI allI impI)
    show "length (lines_of (splice s (blanked s) i (m # ms))) = length (lines_of (drop i s))"
      unfolding new old using len IH(1) by simp
    fix k assume k: "k < length (lines_of (drop i s))"
    consider "k < a" | "a \<le> k" "k < a + b" | j where "k = a + b + j" by (metis le_Suc_ex not_le)
    then show "lines_of (splice s (blanked s) i (m # ms)) ! k =
        (if in_matches s (m # ms) (line_of s i + k) then [] else lines_of (drop i s) ! k)"
    proof cases
      case 1
      then have "\<not> in_matches s ms (line_of s i + k)" using not_before_matches [OF pos(3)] L by simp
      with 1 have "\<not> in_matches s (m # ms) (line_of s i + k)" using L by (simp add: in_matches_def)
      with 1 show ?thesis by (simp only: new_nth old_nth if_True if_False)
    next
      case 2
      then have "in_matches s (m # ms) (line_of s i + k)" using L by (simp add: in_matches_def)
      with 2 show ?thesis by (simp add: new_nth del: splice.simps)
    next
      case 3
      then have "in_matches s (m # ms) (line_of s i + k) \<longleftrightarrow> in_matches s ms (line_of s (m_end m) + j)"
        using L by (simp add: in_matches_def add.assoc)
      moreover have "j < length (lines_of ?w)" using k 3 len unfolding old by simp
      ultimately show ?thesis using IH(2) [of j] 3 by (simp add: new_nth old_nth del: splice.simps)
    qed
  qed
qed

end
