(* ===== verification/SnippetText.thy ===== *)
theory SnippetText
  imports ApiSurface JsMatches
begin

text \<open>
  The README snippet gate (\<open>src/scripts/readme-snippets.mjs\<close>), first half: what it does to the text
  of one snippet before it is compiled. Imports move to a header and leave blank lines behind,
  receivers are bound to exported classes, relative imports are pointed at other snippets.

  The TypeScript parser is the argument \<open>parse\<close> (from the extension and the text of a snippet to
  its statements and its tree), the names the built package exports are an argument too.
\<close>

section \<open>Syntax\<close>

datatype import_bindings = No_bindings | Named_bindings "string list" | Namespace_binding string

datatype snippet_statement =
    Import_clause "string option" import_bindings
  | Declaration "string option"
  | Plain_statement

text \<open>
  A node as the search for receivers sees it: a property with its name when that is an identifier,
  a parameter (is its parent a constructor, its name, has it a modifier that makes it a property),
  an assignment to \<open>this.\<close> and a name, or anything else.
\<close>

datatype node_shape =
    Property_shape "string option"
  | Parameter_shape bool "string option" bool
  | This_assignment string
  | Other_shape

datatype snippet_node = Snippet_node node_shape "snippet_node list"

record snippet_source =
  ss_statements :: "snippet_statement list"
  ss_tree :: snippet_node

section \<open>Receivers\<close>

definition DECLARED_CLASS_RE :: regex where
  "DECLARED_CLASS_RE = cats [LineStart, lit ''declare class '', Group 1 (some (Cls word_char))]"

definition EXPORT_LIST_RE :: regex where
  "EXPORT_LIST_RE = cats
    [LineStart, lit ''export {'', Group 1 (many (none_of ''}'')), chr CHR ''}'', Opt (chr CHR '';''), LineEnd]"

definition exported_classes :: "string option \<Rightarrow> string list" where
  "exported_classes declarations =
    (case declarations of None \<Rightarrow> []
     | Some src \<Rightarrow>
         (let declared = map (\<lambda>m. the_group m 1) (match_all DECLARED_CLASS_RE True src);
              listed = concat (map (\<lambda>m. map trim (split_on CHR '','' (the_group m 1))) (match_all EXPORT_LIST_RE True src))
          in filter (\<lambda>name. name \<noteq> [] \<and> \<not> starts_with ''type '' name \<and> name \<in> set declared) listed))"

fun receiver_of :: "node_shape \<Rightarrow> string list" where
  "receiver_of (Property_shape (Some name)) = [name]"
| "receiver_of (Parameter_shape True (Some name) True) = [name]"
| "receiver_of (This_assignment name) = [name]"
| "receiver_of _ = []"

fun declared_receivers :: "snippet_node \<Rightarrow> string list" where
  "declared_receivers (Snippet_node shape children) = receiver_of shape @ concat (map declared_receivers children)"

definition upper_char :: "char \<Rightarrow> char" where
  "upper_char c = (let n = of_char c :: nat in if 97 \<le> n \<and> n \<le> 122 then char_of (n - 32) else c)"

definition class_name_of :: "string \<Rightarrow> string" where
  "class_name_of name = (case name of [] \<Rightarrow> [] | c # cs \<Rightarrow> upper_char c # cs)"

definition lower_letter :: regex where
  "lower_letter = Cls (\<lambda>c. CHR ''a'' \<le> c \<and> c \<le> CHR ''z'')"

definition THIS_NAME_RE :: regex where
  "THIS_NAME_RE = cats
    [WordBoundary, lit ''this.'', Group 1 (Cat lower_letter (many (Cls word_char))), WordBoundary]"

definition this_name :: "string \<Rightarrow> regex" where
  "this_name name = cats [WordBoundary, lit ''this.'', lit name, WordBoundary]"

definition context_name :: "nat \<Rightarrow> string \<Rightarrow> string" where
  "context_name slot name = ''__ctx_'' @ decimal slot @ ''_'' @ name"

text \<open>The loop over the receivers: the bindings and the text rewritten so far.\<close>

definition bind_receiver ::
    "string list \<Rightarrow> string list \<Rightarrow> nat \<Rightarrow> string \<Rightarrow> (string, string) jsmap \<times> string \<Rightarrow> (string, string) jsmap \<times> string" where
  "bind_receiver classes declared slot name state =
    (case state of (bound, rewritten) \<Rightarrow>
      if class_name_of name \<notin> set classes \<or> name \<in> set declared then state
      else (AList.update name (class_name_of name) bound,
            replace_all (this_name name) False (\<lambda>_. context_name slot name) rewritten))"

definition this_names :: "string \<Rightarrow> string list" where
  "this_names code = to_set (map (\<lambda>m. the_group m 1) (match_all THIS_NAME_RE False code))"

definition bind_receivers ::
    "(string \<Rightarrow> string \<Rightarrow> snippet_source) \<Rightarrow> string list \<Rightarrow> nat \<Rightarrow> string \<Rightarrow> string \<Rightarrow> (string, string) jsmap \<times> string" where
  "bind_receivers parse classes slot ext code =
    fold (bind_receiver classes (declared_receivers (ss_tree (parse ext code))) slot) (this_names code) ([], code)"

section \<open>Imports\<close>

fun statement_names :: "snippet_statement \<Rightarrow> string list" where
  "statement_names (Import_clause clause bindings) =
    (case clause of None \<Rightarrow> [] | Some name \<Rightarrow> [name])
    @ (case bindings of No_bindings \<Rightarrow> [] | Named_bindings names \<Rightarrow> names | Namespace_binding name \<Rightarrow> [name])"
| "statement_names (Declaration (Some name)) = [name]"
| "statement_names _ = []"

definition bound_names :: "(string \<Rightarrow> string \<Rightarrow> snippet_source) \<Rightarrow> string \<Rightarrow> string list" where
  "bound_names parse code = concat (map statement_names (ss_statements (parse ''tsx'' code)))"

text \<open>An exported name with the question whether it stands for a value.\<close>

definition public_imports :: "string \<Rightarrow> (string \<times> bool) list \<Rightarrow> string list \<Rightarrow> string" where
  "public_imports package exports taken =
    (let parts = map (\<lambda>(name, is_value). if is_value then name else ''type '' @ name)
           (filter (\<lambda>(name, _). name \<notin> set taken) exports)
     in if parts = [] then [] else ''import { '' @ join_with '', '' parts @ '' } from '' @ [CHR 0x27] @ package @ [CHR 0x27])"

definition two_digits :: "nat \<Rightarrow> string" where
  "two_digits n = (let d = decimal n in if length d < 2 then ''0'' @ d else d)"

definition snippet_stem :: "nat \<Rightarrow> string" where
  "snippet_stem i = ''snippet-'' @ two_digits (i + 1)"

definition EXPORTED_RE :: regex where
  "EXPORTED_RE = cats
    [LineStart, lit ''export'', some space,
     Opt (alts [Cat (lit ''abstract'') (some space), Cat (lit ''declare'') (some space)]),
     alts (map lit [''class'', ''function'', ''const'', ''let'', ''interface'', ''type'', ''enum'']), some space,
     Group 1 (some (Cls word_char))]"

fun snippet_exports :: "nat \<Rightarrow> string list \<Rightarrow> (string, string) jsmap \<Rightarrow> (string, string) jsmap" where
  "snippet_exports i [] exporters = exporters"
| "snippet_exports i (code # codes) exporters =
    snippet_exports (i + 1) codes
      (fold (\<lambda>m. AList.update (the_group m 1) (snippet_stem i)) (match_all EXPORTED_RE True code) exporters)"

definition any :: regex where
  "any = Cls (\<lambda>_. True)"

definition quote_char :: regex where
  "quote_char = one_of [CHR 0x27, CHR 0x22]"

definition RELATIVE_IMPORT_RE :: regex where
  "RELATIVE_IMPORT_RE = cats
    [LineStart, Group 1 (cats [lit ''import'', space, Star False any, lit ''from'', some space]), Group 2 quote_char,
     Group 3 (cats [chr CHR ''.'', Opt (chr CHR ''.''), chr CHR ''/'', many (none_of [CHR 0x27, CHR 0x22])]), BackRef 2]"

definition identifier_re :: regex where
  "identifier_re = cats
    [WordBoundary, Group 1 (Cat (Cls (\<lambda>c. word_char c \<and> \<not> is_digit c)) (many (Cls word_char))), WordBoundary]"

definition resolve_relative_imports :: "(string, string) jsmap \<Rightarrow> string \<Rightarrow> string" where
  "resolve_relative_imports exporters import_text =
    replace_first RELATIVE_IMPORT_RE True
      (\<lambda>m. let imported = map (\<lambda>w. the_group w 1) (match_all identifier_re False (the_group m 1))
            in case first_some (map_of exporters) imported of
                 None \<Rightarrow> matched import_text m
               | Some file \<Rightarrow> the_group m 1 @ the_group m 2 @ ''./'' @ file @ the_group m 2)
      import_text"

definition IMPORT_RE :: regex where
  "IMPORT_RE = cats ([LineStart, lit ''import'', space,
     Opt (cats [Star False any, lit ''from'', some space]), quote_char, some (none_of [CHR 0x27, CHR 0x22]),
     quote_char, many space, Opt (chr CHR '';'')] @ [chr newline])"

definition imports_of :: "string \<Rightarrow> string list" where
  "imports_of code = map (matched code) (match_all IMPORT_RE True code)"

definition without_imports :: "string \<Rightarrow> string" where
  "without_imports code = replace_all IMPORT_RE True (blanked code) code"

section \<open>The text to compile\<close>

definition DECLARES_RE :: regex where
  "DECLARES_RE = cats
    [LineStart, Opt (Cat (lit ''export'') (some space)), Opt (Cat (lit ''abstract'') (some space)),
     alts (map lit [''class'', ''interface'', ''type'', ''enum'', ''function'']), space]"

definition DECORATED_METHOD_RE :: regex where
  "DECORATED_METHOD_RE = cats
    [LineStart, chr CHR ''@'', some (Cls word_char), chr CHR ''('', many (none_of '')''), chr CHR '')'', many space,
     chr newline, many space, Opt (Cat (lit ''async'') (some space)), some (Cls word_char), many space, chr CHR ''('']"

record prepared =
  pr_text :: string
  pr_offset :: nat

definition snippet_header ::
    "(string \<Rightarrow> string \<Rightarrow> snippet_source) \<Rightarrow> string \<Rightarrow> (string \<times> bool) list \<Rightarrow> (string, string) jsmap \<Rightarrow> string \<Rightarrow> string" where
  "snippet_header parse package exports exporters code =
    (let missing = public_imports package exports (bound_names parse code)
     in (if missing = [] then [] else missing @ [newline])
        @ concat (map (resolve_relative_imports exporters) (imports_of code)))"

definition prepare_snippet ::
    "(string \<Rightarrow> string \<Rightarrow> snippet_source) \<Rightarrow> string \<Rightarrow> (string \<times> bool) list \<Rightarrow> (string, string) jsmap \<Rightarrow> string \<Rightarrow> prepared" where
  "prepare_snippet parse package exports exporters code =
    (let body = without_imports code;
         header = snippet_header parse package exports exporters code;
         (prefix, suffix) =
           (if test DECORATED_METHOD_RE True body
            then (header @ ''class SnippetController extends SnippetBase {'' @ [newline], ''}'' @ [newline])
            else if \<not> test DECLARES_RE True body
            then (header @ ''async function snippet(this: SnippetContext) {'' @ [newline], ''}'' @ [newline])
            else (header, []))
     in \<lparr>pr_text = prefix @ body @ suffix, pr_offset = length (lines_of prefix) - 1\<rparr>)"

section \<open>The lines of the snippet\<close>

lemma successes_at_line_start: "t \<in> set (successes (Cat LineStart r) multi s st) \<Longrightarrow> at_line_start multi s (fst st)"
  by (simp split: if_splits)

lemma cats_last_char:
  "t \<in> set (successes (cats (rs @ [chr c])) multi s st)
    \<Longrightarrow> 0 < fst t \<and> fst t \<le> length s \<and> s ! (fst t - 1) = c"
proof (induction rs arbitrary: st)
  case (Cons r rs)
  obtain q qs where "rs @ [chr c] = q # qs" by (cases "rs @ [chr c]") auto
  then have "cats ((r # rs) @ [chr c]) = Cat r (cats (rs @ [chr c]))" by simp
  with Cons.prems obtain u where "t \<in> set (successes (cats (rs @ [chr c])) multi s u)" by auto
  then show ?case by (rule Cons.IH)
qed (auto split: if_splits)

lemma last_take: "0 < n \<Longrightarrow> n \<le> length s \<Longrightarrow> last (take n s) = s ! (n - 1)"
  by (subst last_conv_nth) auto

lemma import_match_lines:
  assumes "m \<in> set (match_all IMPORT_RE True code)" and "CHR 0x0D \<notin> set code"
  shows "whole_lines (take (m_start m) code) \<and> whole_lines (take (m_end m) code) \<and> m_start m < m_end m
    \<and> m_end m \<le> length code"
proof -
  let ?t = "(m_end m, m_captures m)"
  have t: "?t \<in> set (successes IMPORT_RE True code (m_start m, []))" by (rule match_all_success [OF assms(1)])
  obtain r where r: "IMPORT_RE = Cat LineStart (Cat (lit ''import'') r)" by (simp add: IMPORT_RE_def)
  have start: "at_line_start True code (m_start m)"
    using successes_at_line_start [OF t [unfolded r]] by simp
  have stop: "0 < m_end m \<and> m_end m \<le> length code \<and> code ! (m_end m - 1) = newline"
    using cats_last_char [OF t [unfolded IMPORT_RE_def]] by simp
  obtain u where u: "u \<in> set (successes (lit ''import'') True code (m_start m, []))"
    and r: "?t \<in> set (successes r True code u)"
    using t [unfolded r] by (auto split: if_splits)
  from u have "m_start m < fst u \<and> fst u \<le> length code" by (auto split: if_splits)
  with successes_bounds [OF _ r] have order: "m_start m < m_end m" by simp
  have "whole_lines (take (m_start m) code)"
  proof (cases "m_start m = 0")
    case False
    with start have "line_terminator (code ! (m_start m - 1))" by (simp add: at_line_start_def)
    moreover have "code ! (m_start m - 1) \<noteq> CHR 0x0D" using assms(2) order stop
      by (metis One_nat_def Suc_pred less_le_trans less_or_eq_imp_le nth_mem order_less_trans diff_less zero_less_one False neq0_conv)
    ultimately show ?thesis using False order stop last_take [of "m_start m" code]
      by (simp add: whole_lines_def line_terminator_def)
  qed simp
  with stop order last_take [of "m_end m" code] show ?thesis by (simp add: whole_lines_def)
qed

lemma relative_import_stops_at_quote:
  assumes "t \<in> set (successes RELATIVE_IMPORT_RE True s (i, []))"
  shows "0 < fst t \<and> fst t \<le> length s \<and> s ! (fst t - 1) \<noteq> newline"
proof -
  have plain: "groups quote_char = []" "groups (many (none_of [CHR 0x27, CHR 0x22])) = []"
    by (simp_all add: quote_char_def one_of_def none_of_def)
  obtain g1 g3 where RE: "RELATIVE_IMPORT_RE = cats [LineStart, g1, Group 2 quote_char, Group 3 g3, BackRef 2]"
    and g3: "groups g3 = []"
    using plain by (simp add: RELATIVE_IMPORT_RE_def)
  from assms obtain u1 u2 u3 where u2: "u2 \<in> set (successes (Group 2 quote_char) True s u1)"
    and u3: "u3 \<in> set (successes (Group 3 g3) True s u2)" and t: "t \<in> set (successes (BackRef 2) True s u3)"
    unfolding RE by (auto simp del: successes.simps(7,12) split: if_splits)
  from u2 obtain q where q: "captured (snd u2) 2 = [q]" "q \<noteq> newline"
    by (auto simp: quote_char_def one_of_def substring_one captured_def split: if_splits)
  from u3 obtain v where "v \<in> set (successes g3 True s u2)" "snd u3 = (3, substring (fst u2) (fst u3) s) # snd v"
    by auto
  with successes_captures [OF g3] q have c: "captured (snd u3) 2 = [q]" by (simp add: captured_def)
  with t have d: "starts_with [q] (drop (fst u3) s)" "fst t = fst u3 + 1" by (auto split: if_splits)
  then obtain rest where rest: "drop (fst u3) s = q # rest" by (auto simp: starts_with_iff)
  then have "fst u3 < length s" by (metis drop_all list.distinct(1) not_le)
  moreover have "s ! fst u3 = q" using rest by (metis calculation nth_via_drop)
  ultimately show ?thesis using d q by simp
qed

lemma resolve_relative_ends:
  assumes "w \<noteq> []" and "last w = newline"
  shows "resolve_relative_imports exporters w \<noteq> [] \<and> last (resolve_relative_imports exporters w) = newline"
proof (cases "exec RELATIVE_IMPORT_RE True w 0")
  case None
  then show ?thesis using assms by (simp add: resolve_relative_imports_def replace_first_def)
next
  case (Some m)
  from exec_Some [OF Some] relative_import_stops_at_quote [of "(m_end m, m_captures m)" w "m_start m"]
  have "0 < m_end m" "m_end m \<le> length w" "w ! (m_end m - 1) \<noteq> newline" by auto
  moreover have "last w = w ! (length w - 1)" using assms(1) by (rule last_conv_nth)
  ultimately have "m_end m < length w" using assms(2) by (metis le_neq_implies_less)
  then have "drop (m_end m) w \<noteq> []" "last (drop (m_end m) w) = newline" using assms by simp_all
  then show ?thesis by (simp add: resolve_relative_imports_def replace_first_def Some)
qed

lemma whole_lines_append: "whole_lines u \<Longrightarrow> whole_lines v \<Longrightarrow> whole_lines (u @ v)"
  by (cases v) (auto simp: whole_lines_def)

lemma whole_lines_concat: "(\<And>u. u \<in> set us \<Longrightarrow> u \<noteq> [] \<and> last u = newline) \<Longrightarrow> whole_lines (concat us)"
proof (induction us)
  case (Cons u us)
  from Cons.prems [of u] have "whole_lines u" by (simp add: whole_lines_def)
  moreover have "whole_lines (concat us)" using Cons by simp
  ultimately show ?case by (simp add: whole_lines_append)
qed simp

lemma header_whole_lines:
  assumes "CHR 0x0D \<notin> set code"
  shows "whole_lines (snippet_header parse package exports exporters code)"
proof -
  have "u \<noteq> [] \<and> last u = newline" if "u \<in> set (imports_of code)" for u
  proof -
    from that obtain m where m: "m \<in> set (match_all IMPORT_RE True code)" "u = matched code m"
      by (auto simp: imports_of_def)
    note b = import_match_lines [OF m(1) assms]
    then have "whole_lines u" unfolding m(2) matched_def by (intro whole_substring) simp
    moreover have "u \<noteq> []" using b by (simp add: m(2) matched_def substring_def)
    ultimately show ?thesis by (simp add: whole_lines_def)
  qed
  then have "whole_lines (concat (map (resolve_relative_imports exporters) (imports_of code)))"
    by (intro whole_lines_concat) (auto simp: resolve_relative_ends)
  moreover have "whole_lines (if missing = [] then [] else missing @ [newline])" for missing
    by (simp add: whole_lines_def)
  ultimately show ?thesis unfolding snippet_header_def Let_def by (rule whole_lines_append [rotated])
qed

lemma prepared_text:
  assumes "CHR 0x0D \<notin> set code"
  obtains before after where "prepare_snippet parse package exports exporters code =
      \<lparr>pr_text = before @ without_imports code @ after, pr_offset = length (butlast (lines_of before))\<rparr>"
    and "whole_lines before"
proof -
  let ?header = "snippet_header parse package exports exporters code"
  let ?before = "if test DECORATED_METHOD_RE True (without_imports code)
      then ?header @ ''class SnippetController extends SnippetBase {'' @ [newline]
      else if \<not> test DECLARES_RE True (without_imports code)
      then ?header @ ''async function snippet(this: SnippetContext) {'' @ [newline] else ?header"
  let ?after = "if test DECORATED_METHOD_RE True (without_imports code) \<or> \<not> test DECLARES_RE True (without_imports code)
      then ''}'' @ [newline] else []"
  have "whole_lines (?header @ u @ [newline])" for u by (simp add: whole_lines_def)
  moreover have "whole_lines ?header" by (rule header_whole_lines [OF assms])
  ultimately have "whole_lines ?before" by presburger
  moreover have "prepare_snippet parse package exports exporters code =
      \<lparr>pr_text = ?before @ without_imports code @ ?after, pr_offset = length (butlast (lines_of ?before))\<rparr>"
    by (simp add: prepare_snippet_def Let_def)
  ultimately show thesis by (intro that)
qed

lemma nth_append_offset: "(xs @ ys) ! (length xs + k) = ys ! k"
  by simp

text \<open>
  A line of a snippet stands in the file that is compiled as many lines further down as the
  header is long, unchanged, or empty where an import stood (imports move to the header): a
  diagnostic mapped back by the offset names the line of the README.
\<close>

lemma snippet_keeps_its_lines:
  assumes "CHR 0x0D \<notin> set code" and "k < length (lines_of code) - 1"
  shows "lines_of (pr_text (prepare_snippet parse package exports exporters code))
      ! (pr_offset (prepare_snippet parse package exports exporters code) + k) =
    (if in_matches code (match_all IMPORT_RE True code) k then [] else lines_of code ! k)"
proof -
  let ?body = "without_imports code"
  obtain before after where p: "prepare_snippet parse package exports exporters code =
      \<lparr>pr_text = before @ ?body @ after, pr_offset = length (butlast (lines_of before))\<rparr>"
    and w: "whole_lines before" by (rule prepared_text [OF assms(1)])
  have b: "length (lines_of ?body) = length (lines_of code)"
    "k < length (lines_of code) \<Longrightarrow> lines_of ?body ! k =
       (if in_matches code (match_all IMPORT_RE True code) k then [] else lines_of code ! k)"
    using blanked_lines [OF match_all_placed, of IMPORT_RE True code] import_match_lines [OF _ assms(1)]
    by (simp_all add: without_imports_def replace_all_def line_of_def)
  have "lines_of (before @ ?body @ after) ! (length (butlast (lines_of before)) + k) = lines_of (?body @ after) ! k"
    by (simp only: lines_of_whole [OF w] nth_append_offset)
  also have "\<dots> = lines_of ?body ! k"
    using assms(2) b(1) by (simp add: lines_of_append nth_append nth_butlast)
  finally show ?thesis using b(2) assms(2) by (simp only: p prepared.simps)
qed

end
