(* ===== verification/SnippetGate.thy ===== *)
theory SnippetGate
  imports SnippetText
begin

text \<open>
  The README snippet gate (\<open>src/scripts/readme-snippets.mjs\<close>), second half: the blocks of the README,
  the files written for them, the diagnostics of the compiler as lines of the README, and the
  verdict. The TypeScript compiler is an argument, from the files written to its diagnostics or the
  exception it throws; so is the collation of \<open>localeCompare\<close> (a key by which strings are ordered).
\<close>

section \<open>Receivers of all snippets\<close>

definition receiver_declarations :: "(string \<Rightarrow> 'k::linorder) \<Rightarrow> string \<Rightarrow> (string, string) jsmap \<Rightarrow> string" where
  "receiver_declarations collation package bindings =
    (let imports = join_with '', '' (sort (to_set (jsmap_values bindings)));
         consts = join_with [newline]
           (map (\<lambda>(key, cls). ''  const __ctx_'' @ key @ '': '' @ cls)
             (sort_key (\<lambda>b. collation (fst b)) bindings))
     in ''import type { '' @ imports @ '' } from '' @ [CHR 0x27] @ package @ [CHR 0x27] @ [newline, newline]
        @ ''declare global {'' @ [newline] @ consts @ [newline] @ ''}'' @ [newline])"

section \<open>The files\<close>

record block =
  bl_ext :: string
  bl_code :: string

definition BLOCK_RE :: regex where
  "BLOCK_RE = cats
    [LineStart, lit ''```'', Group 1 (alts (map lit [''ts'', ''typescript'', ''tsx''])), chr newline,
     Group 2 (Star False any), LineStart, lit ''```'', LineEnd]"

definition blocks_of :: "string \<Rightarrow> block list" where
  "blocks_of readme =
    map (\<lambda>m. \<lparr>bl_ext = (if the_group m 1 = ''tsx'' then ''tsx'' else ''ts''), bl_code = the_group m 2\<rparr>)
      (match_all BLOCK_RE True readme)"

record written =
  wr_files :: "(string \<times> string) list"
  wr_sources :: "(string, string) jsmap"
  wr_offsets :: "(string, nat) jsmap"
  wr_bindings :: "(string, string) jsmap"

definition binding_key :: "nat \<Rightarrow> string \<Rightarrow> string" where
  "binding_key i prop = decimal i @ ''_'' @ prop"

definition add_bindings :: "nat \<Rightarrow> (string, string) jsmap \<Rightarrow> (string, string) jsmap \<Rightarrow> (string, string) jsmap" where
  "add_bindings i bound bindings = fold (\<lambda>(prop, cls). AList.update (binding_key i prop) cls) bound bindings"

definition write_snippet ::
    "(string \<Rightarrow> string \<Rightarrow> snippet_source) \<Rightarrow> string \<Rightarrow> (string \<times> bool) list \<Rightarrow> string list \<Rightarrow> (string, string) jsmap
      \<Rightarrow> nat \<Rightarrow> block \<Rightarrow> written \<Rightarrow> written" where
  "write_snippet parse package exports classes exporters i b w =
    (let name = snippet_stem i @ ''.'' @ bl_ext b;
         (bound, rewritten) = bind_receivers parse classes i (bl_ext b) (bl_code b);
         p = prepare_snippet parse package exports exporters rewritten
     in \<lparr>wr_files = wr_files w @ [(name, pr_text p)],
         wr_sources = AList.update name (bl_code b) (wr_sources w),
         wr_offsets = AList.update name (pr_offset p) (wr_offsets w),
         wr_bindings = add_bindings i bound (wr_bindings w)\<rparr>)"

fun write_snippets ::
    "(string \<Rightarrow> string \<Rightarrow> snippet_source) \<Rightarrow> string \<Rightarrow> (string \<times> bool) list \<Rightarrow> string list \<Rightarrow> (string, string) jsmap
      \<Rightarrow> nat \<Rightarrow> block list \<Rightarrow> written \<Rightarrow> written" where
  "write_snippets parse package exports classes exporters i [] w = w"
| "write_snippets parse package exports classes exporters i (b # bs) w =
    write_snippets parse package exports classes exporters (Suc i) bs
      (write_snippet parse package exports classes exporters i b w)"

definition write_snippet_files ::
    "(string \<Rightarrow> string \<Rightarrow> snippet_source) \<Rightarrow> (string \<Rightarrow> 'k::linorder) \<Rightarrow> string \<Rightarrow> (string \<times> bool) list
      \<Rightarrow> string option \<Rightarrow> block list \<Rightarrow> written" where
  "write_snippet_files parse collation package exports declarations blocks =
    (let classes = exported_classes declarations;
         exporters = snippet_exports 0 (map bl_code blocks) [];
         w = write_snippets parse package exports classes exporters 0 blocks
           \<lparr>wr_files = [], wr_sources = [], wr_offsets = [], wr_bindings = []\<rparr>
     in if wr_bindings w = [] then w
        else w\<lparr>wr_files := wr_files w @ [(''receivers.d.ts'', receiver_declarations collation package (wr_bindings w))]\<rparr>)"

definition imports_package :: "string \<Rightarrow> string \<Rightarrow> bool" where
  "imports_package package code = test (cats [lit ''from '', quote_char, lit package]) False code"

section \<open>Diagnostics\<close>

text \<open>
  A diagnostic of the compiler: the file relative to the repository with line and character counted
  from zero, unless it is about no file; its code and its text.
\<close>

record diagnostic =
  dg_place :: "(string \<times> nat \<times> nat) option"
  dg_code :: nat
  dg_text :: string

definition header_shift :: "(string, nat) jsmap \<Rightarrow> string \<Rightarrow> nat" where
  "header_shift offsets place_file = (case map_of offsets (last (split_on CHR ''/'' place_file)) of None \<Rightarrow> 0 | Some n \<Rightarrow> n)"

definition readme_position :: "nat \<Rightarrow> nat \<Rightarrow> nat \<Rightarrow> string" where
  "readme_position shift line column =
    (if line < shift then ''header'' else decimal (line + 1 - shift) @ '','' @ decimal (column + 1))"

definition diagnostic_line :: "(string, nat) jsmap \<Rightarrow> diagnostic \<Rightarrow> string" where
  "diagnostic_line offsets d =
    (let problem = ''error TS'' @ decimal (dg_code d) @ '': '' @ dg_text d
     in case dg_place d of None \<Rightarrow> problem
        | Some (place_file, line, column) \<Rightarrow>
            place_file @ ''('' @ readme_position (header_shift offsets place_file) line column @ ''): '' @ problem)"

definition MISSING_PROPERTY_RE :: regex where
  "MISSING_PROPERTY_RE = cats
    [lit (''Property '' @ [CHR 0x27]), some (none_of [CHR 0x27]), lit (CHR 0x27 # '' does not exist on type '' @ [CHR 0x27]),
     Group 1 (some (none_of [CHR 0x27])), chr CHR 0x27]"

definition PLACE_RE :: regex where
  "PLACE_RE = cats [LineStart, Group 1 (some (none_of ''('')), chr CHR ''('']"

definition declares_type :: "string \<Rightarrow> regex" where
  "declares_type type_name = cats
    [WordBoundary, Group 1 (alts (map lit [''class'', ''interface'', ''type''])), some space, lit type_name, WordBoundary]"

definition own_source :: "(string, string) jsmap \<Rightarrow> string \<Rightarrow> string" where
  "own_source sources line =
    (let place = (case exec PLACE_RE False line 0 of None \<Rightarrow> [] | Some m \<Rightarrow> the_group m 1);
         slashed = map (\<lambda>c. if c = CHR 0x5C then CHR ''/'' else c) place;
         source = (case map_of sources (last (split_on CHR ''/'' slashed)) of None \<Rightarrow> [] | Some code \<Rightarrow> code)
     in replace_all IMPORT_RE True (\<lambda>_. []) source)"

definition is_abbreviated_local_type :: "(string, string) jsmap \<Rightarrow> string \<Rightarrow> bool" where
  "is_abbreviated_local_type sources line =
    (case exec MISSING_PROPERTY_RE False line 0 of None \<Rightarrow> False
     | Some m \<Rightarrow> test (declares_type (the_group m 1)) False (own_source sources line))"

definition UNCHECKED_IMPORTS :: "(string, string) jsmap" where
  "UNCHECKED_IMPORTS = []"

definition MISSING_MODULE_RE :: regex where
  "MISSING_MODULE_RE = cats
    [lit (''Cannot find module '' @ [CHR 0x27]), Group 1 (some (none_of [CHR 0x27])), chr CHR 0x27]"

definition is_foreign_module :: "string \<Rightarrow> bool" where
  "is_foreign_module line \<longleftrightarrow> test (lit ''error TS2307'') False line \<and>
    (case exec MISSING_MODULE_RE False line 0 of None \<Rightarrow> [] | Some m \<Rightarrow> the_group m 1) \<in> fst ` set UNCHECKED_IMPORTS"

section \<open>The gate\<close>

datatype gate_event =
    Remove_gate
  | Make_directory string
  | Link_repository string
  | Write_config obj
  | Copy_prelude string
  | Write_file string string
  | Compile_gate

text \<open>
  \<open>scaffoldConsumer\<close>: an empty directory, the package linked into its \<open>node_modules\<close>, the
  configuration and the prelude as a \<open>.ts\<close> file. The flag says whether the repository has type tests.
\<close>

definition gate_dir :: string where
  "gate_dir = ''.docs-gate''"

definition gate_path :: "string \<Rightarrow> string" where
  "gate_path name = ''.docs-gate/'' @ name"

definition gate_config :: "bool \<Rightarrow> obj" where
  "gate_config type_tests =
    [(''extends'', Str ''../tsconfig.json''),
     (''compilerOptions'', Obj
       [(''noEmit'', Boolean True), (''rootDir'', Str ''..''), (''baseUrl'', Str ''.''),
        (''ignoreDeprecations'', Str ''6.0''), (''paths'', Obj []), (''noUnusedLocals'', Boolean False),
        (''noUnusedParameters'', Boolean False), (''jsx'', Str ''react-jsx'')]),
     (''include'', Arr [Str ''*.ts'', Str ''*.tsx'', Str (if type_tests then ''../test/types/**/*.ts'' else ''*.ts'')])]"

definition scaffold_consumer :: "string \<Rightarrow> bool \<Rightarrow> gate_event list" where
  "scaffold_consumer package type_tests =
    [Remove_gate,
     Make_directory (join_with ''/'' (gate_dir # ''node_modules'' # butlast (split_on CHR ''/'' package))),
     Link_repository (join_with ''/'' [gate_dir, ''node_modules'', package]),
     Write_config (gate_config type_tests),
     Copy_prelude (join_with ''/'' [gate_dir, ''prelude.ts''])]"

datatype 'e gate_outcome = Gate_returns | Gate_throws 'e

record 'e gate_run =
  gr_outcome :: "'e gate_outcome"
  gr_failures :: "(string \<times> string) list"
  gr_log :: "string list"
  gr_events :: "gate_event list"

definition api_errors :: "written \<Rightarrow> diagnostic list \<Rightarrow> string list" where
  "api_errors w ds = filter (\<lambda>l. \<not> is_foreign_module l \<and> \<not> is_abbreviated_local_type (wr_sources w) l)
    (map (diagnostic_line (wr_offsets w)) ds)"

definition snippet_failure :: "string list \<Rightarrow> string" where
  "snippet_failure found = decimal (length found) @ '' README snippet error(s) about the published API:'' @ [newline]
    @ join_with [newline] (map (\<lambda>l. ''      '' @ l) found)"

definition snippet_summary :: "nat \<Rightarrow> nat \<Rightarrow> string" where
  "snippet_summary blocks ignored = ''  snippets: '' @ decimal blocks @ '' compiled against dist/''
    @ (if 0 < ignored
       then '' ('' @ decimal ignored @ '' diagnostic(s) ignored: an import listed in UNCHECKED_IMPORTS)'' else [])"

definition check_snippets ::
    "(string \<Rightarrow> string \<Rightarrow> snippet_source) \<Rightarrow> (string \<Rightarrow> 'k::linorder) \<Rightarrow> string \<Rightarrow> (string \<times> bool) list
      \<Rightarrow> string option \<Rightarrow> bool \<Rightarrow> ((string \<times> string) list \<Rightarrow> 'e + diagnostic list) \<Rightarrow> string \<Rightarrow> 'e gate_run" where
  "check_snippets parse collation package exports declarations type_tests compile readme =
    (let blocks = blocks_of readme
     in if \<not> list_ex (\<lambda>b. imports_package package (bl_code b)) blocks
        then \<lparr>gr_outcome = Gate_returns,
              gr_failures = [(''snippets'', ''no README snippet imports the package '' @ [CHR 0xE2, CHR 0x80, CHR 0x94]
                @ '' the gate would be vacuous'')],
              gr_log = [], gr_events = []\<rparr>
        else
          let w = write_snippet_files parse collation package exports declarations blocks;
              events = scaffold_consumer package type_tests @ map (\<lambda>(name, contents). Write_file (gate_path name) contents) (wr_files w)
                @ [Compile_gate, Remove_gate]
          in case compile (wr_files w) of
               Inl e \<Rightarrow> \<lparr>gr_outcome = Gate_throws e, gr_failures = [], gr_log = [], gr_events = events\<rparr>
             | Inr ds \<Rightarrow>
                 let found = api_errors w ds
                 in \<lparr>gr_outcome = Gate_returns,
                     gr_failures = (if found = [] then [] else [(''snippets'', snippet_failure found)]),
                     gr_log = [snippet_summary (length blocks) (length ds - length found)],
                     gr_events = events\<rparr>)"

section \<open>Receivers of different snippets\<close>

lemma plain_letters: "\<not> is_digit CHR ''_''" "\<not> is_digit CHR ''.''"
  by (simp_all add: is_digit_def)

lemma decimal_then:
  assumes "\<not> is_digit c"
  shows "decimal i @ c # p = decimal j @ c # q \<longleftrightarrow> i = j \<and> p = q"
proof
  assume e: "decimal i @ c # p = decimal j @ c # q"
  have n: "takeWhile is_digit (decimal k @ c # r) = decimal k" for k r
    using assms by (simp add: takeWhile_append1 takeWhile_append2 decimal_digits)
  have "decimal i = decimal j" using arg_cong [OF e, of "takeWhile is_digit"] by (simp add: n)
  with e show "i = j \<and> p = q" by (simp add: decimal_inj)
qed simp

lemma binding_key_inj: "binding_key i p = binding_key j q \<longleftrightarrow> i = j \<and> p = q"
  by (simp add: binding_key_def decimal_then plain_letters)

lemma context_name_inj: "context_name i p = context_name j q \<longleftrightarrow> i = j \<and> p = q"
  by (simp add: context_name_def decimal_then plain_letters)

lemma add_bindings_lookup:
  "jsmap_wf bound \<Longrightarrow> map_of (add_bindings i bound m) (binding_key j q) =
    (if i = j then (case map_of bound q of None \<Rightarrow> map_of m (binding_key j q) | Some c \<Rightarrow> Some c)
     else map_of m (binding_key j q))"
  unfolding add_bindings_def
proof (induction bound arbitrary: m)
  case (Cons b bound)
  obtain p c where b: "b = (p, c)" by (cases b)
  from Cons.prems have "jsmap_wf bound" "map_of bound p = None"
    by (auto simp: jsmap_wf_def b map_of_eq_None_iff)
  with Cons.IH [of "AList.update (binding_key i p) c m"] show ?case
    by (auto simp: b update_conv' binding_key_inj split: option.splits)
qed simp

text \<open>What binding the receivers of one snippet leaves.\<close>

lemma bind_receiver_wf: "jsmap_wf (fst st) \<Longrightarrow> jsmap_wf (fst (bind_receiver classes declared slot name st))"
  by (cases st) (simp add: bind_receiver_def jm.wf_put)

lemma fold_bind_wf: "jsmap_wf (fst st) \<Longrightarrow> jsmap_wf (fst (fold (bind_receiver classes declared slot) names st))"
  by (induction names arbitrary: st) (simp_all add: bind_receiver_wf)

lemma bind_receivers_wf: "jsmap_wf (fst (bind_receivers parse classes slot ext code))"
  unfolding bind_receivers_def by (rule fold_bind_wf) (simp add: jsmap_wf_def)

lemma fold_bind_lookup:
  "map_of (fst (fold (bind_receiver classes declared slot) names st)) q =
    (if q \<in> set names \<and> class_name_of q \<in> set classes \<and> q \<notin> set declared then Some (class_name_of q)
     else map_of (fst st) q)"
  by (induction names arbitrary: st) (auto simp: bind_receiver_def update_conv' split: prod.splits)

lemma bind_receivers_lookup:
  "map_of (fst (bind_receivers parse classes slot ext code)) q =
    (if q \<in> set (this_names code) \<and> class_name_of q \<in> set classes
        \<and> q \<notin> set (declared_receivers (ss_tree (parse ext code)))
     then Some (class_name_of q) else None)"
  by (simp add: bind_receivers_def fold_bind_lookup)

text \<open>The bindings, contents and offsets of all files.\<close>

lemma write_snippet_lookup:
  "map_of (wr_bindings (write_snippet parse package exports classes exporters i b w)) (binding_key j q) =
    (if i = j then (case map_of (fst (bind_receivers parse classes i (bl_ext b) (bl_code b))) q of
        None \<Rightarrow> map_of (wr_bindings w) (binding_key j q) | Some c \<Rightarrow> Some c)
     else map_of (wr_bindings w) (binding_key j q))"
  using add_bindings_lookup [OF bind_receivers_wf, of i parse classes i "bl_ext b" "bl_code b" "wr_bindings w" j q]
  by (simp add: write_snippet_def Let_def split_beta)

lemma write_snippets_before:
  "j < i \<Longrightarrow> map_of (wr_bindings (write_snippets parse package exports classes exporters i bs w)) (binding_key j q) =
    map_of (wr_bindings w) (binding_key j q)"
  by (induction bs arbitrary: i w) (simp_all add: write_snippet_lookup)

lemma write_snippets_lookup:
  assumes "map_of (wr_bindings w) (binding_key (i + k) q) = None" and "k < length bs"
  shows "map_of (wr_bindings (write_snippets parse package exports classes exporters i bs w)) (binding_key (i + k) q) =
    map_of (fst (bind_receivers parse classes (i + k) (bl_ext (bs ! k)) (bl_code (bs ! k)))) q"
  using assms
proof (induction bs arbitrary: i k w)
  case (Cons b bs)
  show ?case
  proof (cases k)
    case 0
    with Cons.prems show ?thesis by (simp add: write_snippets_before write_snippet_lookup split: option.splits)
  next
    case (Suc n)
    with Cons.IH [of _ "Suc i" n] Cons.prems show ?thesis by (simp add: write_snippet_lookup)
  qed
qed simp

lemma bindings_of_files:
  "wr_bindings (write_snippet_files parse collation package exports declarations blocks) =
    wr_bindings (write_snippets parse package exports (exported_classes declarations)
      (snippet_exports 0 (map bl_code blocks) []) 0 blocks
      \<lparr>wr_files = [], wr_sources = [], wr_offsets = [], wr_bindings = []\<rparr>)"
  by (simp add: write_snippet_files_def Let_def)

text \<open>
  C33. Each snippet's receivers are typed on their own: the declaration written under the key of the
  \<open>j\<close>-th snippet and the name \<open>q\<close> is what binding the receivers of that snippet found, whatever the
  other snippets bind. It is there exactly if the snippet uses \<open>this.q\<close>, does not declare it itself
  and the package exports a class of that name; then it names that class. No two snippets share a
  constant.
\<close>

theorem receivers_are_typed_per_snippet:
  assumes "j < length blocks"
  shows "map_of (wr_bindings (write_snippet_files parse collation package exports declarations blocks)) (binding_key j q) =
      (if q \<in> set (this_names (bl_code (blocks ! j))) \<and> class_name_of q \<in> set (exported_classes declarations)
          \<and> q \<notin> set (declared_receivers (ss_tree (parse (bl_ext (blocks ! j)) (bl_code (blocks ! j)))))
       then Some (class_name_of q) else None)
    \<and> (context_name j q = context_name i p \<longrightarrow> j = i \<and> q = p)"
  using assms write_snippets_lookup [of _ 0 j q blocks parse package exports "exported_classes declarations"]
  by (simp add: bindings_of_files bind_receivers_lookup context_name_inj)

section \<open>The lines of the README\<close>

lemma splice_chars: "set (splice s f i ms) \<subseteq> set s \<union> (\<Union>m\<in>set ms. set (f m))"
  using set_take_subset set_drop_subset by (induction ms arbitrary: i) (fastforce simp: substring_def)+

lemma splice_newlines:
  assumes "placed s i ms"
    and "\<And>m. m \<in> set ms \<Longrightarrow> count_list (matched s m) newline = 0 \<and> count_list (f m) newline = 0"
  shows "count_list (splice s f i ms) newline = count_list (drop i s) newline"
  using assms
proof (induction ms arbitrary: i)
  case (Cons m ms)
  then have "i \<le> m_start m" "m_start m \<le> m_end m" by auto
  then have "drop i s = substring i (m_start m) s @ matched s m @ drop (m_end m) s"
    using drop_substring [of i "m_start m" s] drop_substring [of "m_start m" "m_end m" s]
    by (simp add: matched_def)
  with Cons show ?case by simp
qed simp

lemma this_name_match:
  assumes "m \<in> set (match_all (this_name name) False s)"
  shows "matched s m = ''this.'' @ name"
proof -
  have t: "(m_end m, m_captures m) \<in> set (successes (this_name name) False s (m_start m, []))"
    by (rule match_all_success [OF assms])
  then have a: "starts_with ''this.'' (drop (m_start m) s)" and b: "starts_with name (drop (m_start m + 5) s)"
    and e: "m_end m = m_start m + 5 + length name"
    unfolding this_name_def cats.simps cat_successes successes_lit
    by (auto simp del: lit.simps simp: successes_lit eval_nat_numeral split: if_splits)
  from a obtain r where r: "drop (m_start m) s = ''this.'' @ r" unfolding starts_with_iff by blast
  have "drop (m_start m + 5) s = r" using drop_piece [OF r] by (simp add: eval_nat_numeral)
  with b obtain q where "r = name @ q" unfolding starts_with_iff by blast
  with r have "drop (m_start m) s = (''this.'' @ name) @ q" by simp
  from substring_piece [OF this, of "m_end m"] e show ?thesis by (simp add: matched_def)
qed

lemma word_not_newline: "word_char c \<Longrightarrow> c \<noteq> newline \<and> c \<noteq> CHR 0x0D"
  by (auto simp: word_char_def is_digit_def)

lemma this_names_word:
  assumes "q \<in> set (this_names code)"
  shows "list_all word_char q"
proof -
  let ?R = "Cat lower_letter (many (Cls word_char))"
  from assms obtain m where m: "m \<in> set (match_all THIS_NAME_RE False code)" "q = the_group m 1"
    by (auto simp: this_names_def)
  have t: "(m_end m, m_captures m) \<in> set (successes THIS_NAME_RE False code (m_start m, []))"
    by (rule match_all_success [OF m(1)])
  then obtain i where a: "(i, []) \<in> set (successes (lit ''this.'') False code (m_start m, []))"
    and u: "(m_end m, m_captures m) \<in> set (successes (Group 1 ?R) False code (i, []))"
    unfolding THIS_NAME_RE_def cats.simps cat_successes successes_lit
    by (auto simp del: lit.simps successes.simps(3,6,7) simp: successes_lit split: if_splits)
  have "m_start m \<le> length code" using match_all_bounds [OF m(1)] by simp
  from successes_bounds [OF _ a] this have i: "i \<le> length code" by simp
  have R: "plain ?R" "groups ?R = []" by (simp_all add: lower_letter_def)
  from u have "reaches ?R code i (m_end m)" "m_captures m = [(1, substring i (m_end m) code)]"
    using successes_group_plain [OF R, of "(i, [])" code "(m_end m, m_captures m)" 1 False] i
    by (simp_all del: successes.simps)
  then have "q \<in> lang ?R" using m(2) by (simp add: the_group_def captured_def reaches_def)
  moreover have "CHR ''a'' \<le> c \<Longrightarrow> c \<le> CHR ''z'' \<Longrightarrow> word_char c" for c by (simp add: word_char_def)
  ultimately show ?thesis by (auto simp: lower_letter_def repeated_class)
qed

lemma not_in_word: "list_all word_char q \<Longrightarrow> newline \<notin> set q \<and> CHR 0x0D \<notin> set q"
  using word_not_newline by (auto simp: list_all_iff)

lemma context_name_word: "list_all word_char q \<Longrightarrow> list_all word_char (context_name i q)"
  using decimal_all_digits [of i] by (auto simp: context_name_def list_all_iff word_char_def)

lemma bind_receiver_lines:
  assumes "list_all word_char name"
  shows "count_list (snd (bind_receiver classes declared slot name st)) newline = count_list (snd st) newline
    \<and> (CHR 0x0D \<notin> set (snd st) \<longrightarrow> CHR 0x0D \<notin> set (snd (bind_receiver classes declared slot name st)))"
proof -
  let ?s = "snd st" and ?ms = "match_all (this_name name) False (snd st)"
  note w = not_in_word [OF assms] not_in_word [OF context_name_word [OF assms], of slot]
  have "count_list (splice ?s (\<lambda>_. context_name slot name) 0 ?ms) newline = count_list (drop 0 ?s) newline"
    by (rule splice_newlines [OF match_all_placed]) (use w in \<open>simp add: this_name_match\<close>)
  moreover have "CHR 0x0D \<notin> set ?s \<Longrightarrow> CHR 0x0D \<notin> set (splice ?s (\<lambda>_. context_name slot name) 0 ?ms)"
    using splice_chars [of ?s "\<lambda>_. context_name slot name" 0 ?ms] w by (auto split: if_splits)
  ultimately show ?thesis
    by (cases st) (simp add: bind_receiver_def replace_all_def)
qed

lemma fold_bind_lines:
  assumes "list_all (list_all word_char) names"
  shows "count_list (snd (fold (bind_receiver classes declared slot) names st)) newline = count_list (snd st) newline
    \<and> (CHR 0x0D \<notin> set (snd st) \<longrightarrow> CHR 0x0D \<notin> set (snd (fold (bind_receiver classes declared slot) names st)))"
  using assms bind_receiver_lines by (induction names arbitrary: st) auto

lemma bind_receivers_lines:
  "length (lines_of (snd (bind_receivers parse classes slot ext code))) = length (lines_of code)
    \<and> (CHR 0x0D \<notin> set code \<longrightarrow> CHR 0x0D \<notin> set (snd (bind_receivers parse classes slot ext code)))"
  using fold_bind_lines [of "this_names code" classes _ slot "([], code)"] this_names_word
  by (simp add: bind_receivers_def length_split_on list_all_iff)

text \<open>The files of different snippets have different names.\<close>

definition snippet_name :: "nat \<Rightarrow> string \<Rightarrow> string" where
  "snippet_name i ext = snippet_stem i @ ''.'' @ ext"

lemma two_digits_inj: "two_digits m = two_digits n \<Longrightarrow> m = n"
proof -
  have "number_of (two_digits k) = k" for k
    using number_of_decimal [of k] by (simp add: two_digits_def Let_def number_of_def digit_value_def)
  then show "two_digits m = two_digits n \<Longrightarrow> m = n" by metis
qed

lemma two_digits_digits: "list_all is_digit (two_digits n)"
  using decimal_all_digits by (simp add: two_digits_def Let_def is_digit_def)

lemma snippet_name_inj: "snippet_name i e = snippet_name j f \<Longrightarrow> i = j"
proof -
  assume "snippet_name i e = snippet_name j f"
  then have e: "two_digits (i + 1) @ CHR ''.'' # e = two_digits (j + 1) @ CHR ''.'' # f"
    by (simp add: snippet_name_def snippet_stem_def)
  have "takeWhile is_digit (two_digits k @ CHR ''.'' # r) = two_digits k" for k r
    using two_digits_digits [of k] plain_letters by (simp add: takeWhile_append list_all_iff)
  from this [of "i + 1" e] this [of "j + 1" f] e have "two_digits (i + 1) = two_digits (j + 1)" by simp
  from two_digits_inj [OF this] show ?thesis by simp
qed

definition prepared_block ::
    "(string \<Rightarrow> string \<Rightarrow> snippet_source) \<Rightarrow> string \<Rightarrow> (string \<times> bool) list \<Rightarrow> string list \<Rightarrow> (string, string) jsmap
      \<Rightarrow> nat \<Rightarrow> block \<Rightarrow> prepared" where
  "prepared_block parse package exports classes exporters i b =
    prepare_snippet parse package exports exporters (snd (bind_receivers parse classes i (bl_ext b) (bl_code b)))"

lemma write_snippet_simps:
  "wr_files (write_snippet parse package exports classes exporters i b w) = wr_files w
     @ [(snippet_name i (bl_ext b), pr_text (prepared_block parse package exports classes exporters i b))]"
  "wr_offsets (write_snippet parse package exports classes exporters i b w) =
     AList.update (snippet_name i (bl_ext b)) (pr_offset (prepared_block parse package exports classes exporters i b))
       (wr_offsets w)"
  by (simp_all add: write_snippet_def Let_def split_beta snippet_name_def prepared_block_def)

lemma write_snippets_keep:
  assumes "j < i"
  shows "map_of (wr_offsets (write_snippets parse package exports classes exporters i bs w)) (snippet_name j e) =
      map_of (wr_offsets w) (snippet_name j e)"
    and "map_of (wr_files (write_snippets parse package exports classes exporters i bs w)) (snippet_name j e) =
      map_of (wr_files w) (snippet_name j e)"
  using assms
  by (induction bs arbitrary: i w)
    (auto simp: write_snippet_simps update_conv' map_add_def dest: snippet_name_inj split: option.splits)

lemma write_snippets_file:
  assumes "k < length bs" and "map_of (wr_files w) (snippet_name (i + k) (bl_ext (bs ! k))) = None"
  shows "map_of (wr_files (write_snippets parse package exports classes exporters i bs w))
        (snippet_name (i + k) (bl_ext (bs ! k))) =
      Some (pr_text (prepared_block parse package exports classes exporters (i + k) (bs ! k)))"
    and "map_of (wr_offsets (write_snippets parse package exports classes exporters i bs w))
        (snippet_name (i + k) (bl_ext (bs ! k))) =
      Some (pr_offset (prepared_block parse package exports classes exporters (i + k) (bs ! k)))"
  using assms
proof (induction bs arbitrary: i k w)
  case (Cons b bs)
  {
    case 1
    show ?case
    proof (cases k)
      case 0
      with 1 show ?thesis by (simp add: write_snippets_keep write_snippet_simps map_add_def)
    next
      case (Suc n)
      have "snippet_name i (bl_ext b) \<noteq> snippet_name (i + k) (bl_ext (bs ! n))"
        using snippet_name_inj Suc by fastforce
      with Cons.IH(1) [of n "write_snippet parse package exports classes exporters i b w" "Suc i"] 1 Suc
      show ?thesis by (simp add: write_snippet_simps)
    qed
  next
    case 2
    show ?case
    proof (cases k)
      case 0
      with 2 show ?thesis by (simp add: write_snippets_keep write_snippet_simps update_conv')
    next
      case (Suc n)
      have "snippet_name i (bl_ext b) \<noteq> snippet_name (i + k) (bl_ext (bs ! n))"
        using snippet_name_inj Suc by fastforce
      with Cons.IH(2) [of n "write_snippet parse package exports classes exporters i b w" "Suc i"] 2 Suc
      show ?thesis by (simp add: write_snippet_simps)
    qed
  }
qed simp_all

lemma block_ext: "b \<in> set (blocks_of readme) \<Longrightarrow> bl_ext b \<in> {''ts'', ''tsx''}"
  by (auto simp: blocks_of_def)

lemma snippet_name_plain:
  assumes "e \<in> {''ts'', ''tsx''}"
  shows "CHR ''/'' \<notin> set (snippet_name i e)"
proof -
  have "CHR ''/'' \<notin> set (two_digits (i + 1))"
    using two_digits_digits [of "i + 1"] by (auto simp: list_all_iff is_digit_def)
  with assms show ?thesis by (auto simp: snippet_name_def snippet_stem_def)
qed

lemma header_shift_of_snippet:
  assumes "e \<in> {''ts'', ''tsx''}"
  shows "header_shift offsets (gate_path (snippet_name i e)) =
    (case map_of offsets (snippet_name i e) of None \<Rightarrow> 0 | Some n \<Rightarrow> n)"
proof -
  have "split_on CHR ''/'' (''.docs-gate'' @ CHR ''/'' # snippet_name i e) = [''.docs-gate'', snippet_name i e]"
    using snippet_name_plain [OF assms] by (subst split_append_sep) (simp_all add: split_no_sep)
  then show ?thesis by (simp add: header_shift_def gate_path_def)
qed

text \<open>
  C32. A diagnostic in a file of the gate names the line of the README block it is about. The file
  of the \<open>j\<close>-th block holds, as many lines below its top as the offset recorded for it, the lines of
  the block (with the receivers bound, which changes no line's number, and the imports blanked):
  the position printed for the \<open>k\<close>-th of them is line \<open>k + 1\<close> of the block, and everything above is
  printed as \<open>header\<close>. The block holds no carriage return, which the compiler would count as the end of a line
  and the offset does not.
\<close>

theorem diagnostics_point_into_the_readme:
  assumes "j < length (blocks_of readme)" and "b = blocks_of readme ! j"
    and "CHR 0x0D \<notin> set (bl_code b)" and "k < length (lines_of (bl_code b)) - 1"
    and "w = write_snippet_files parse collation package exports declarations (blocks_of readme)"
    and "bound = snd (bind_receivers parse (exported_classes declarations) j (bl_ext b) (bl_code b))"
  shows "\<exists>contents shift. map_of (wr_files w) (snippet_name j (bl_ext b)) = Some contents
    \<and> header_shift (wr_offsets w) (gate_path (snippet_name j (bl_ext b))) = shift
    \<and> lines_of contents ! (shift + k) = (if in_matches bound (match_all IMPORT_RE True bound) k then [] else lines_of bound ! k)
    \<and> length (lines_of bound) = length (lines_of (bl_code b))
    \<and> (\<forall>column. readme_position shift (shift + k) column = decimal (k + 1) @ '','' @ decimal (column + 1))
    \<and> (\<forall>line < shift. \<forall>column. readme_position shift line column = ''header'')"
proof -
  let ?classes = "exported_classes declarations" and ?blocks = "blocks_of readme"
  let ?exporters = "snippet_exports 0 (map bl_code ?blocks) []"
  let ?p = "prepare_snippet parse package exports ?exporters bound"
  have p: "prepared_block parse package exports ?classes ?exporters j b = ?p"
    by (simp add: prepared_block_def assms(6))
  have ext: "bl_ext b \<in> {''ts'', ''tsx''}" using assms(1,2) block_ext nth_mem by blast
  have "map_of (wr_files w) (snippet_name j (bl_ext b)) = Some (pr_text ?p)"
    and "map_of (wr_offsets w) (snippet_name j (bl_ext b)) = Some (pr_offset ?p)"
    using write_snippets_file [OF assms(1), where i = 0 and parse = parse and package = package and exports = exports
        and classes = ?classes and exporters = ?exporters
        and w = "\<lparr>wr_files = [], wr_sources = [], wr_offsets = [], wr_bindings = []\<rparr>"] p
    by (simp_all add: assms(2,5) write_snippet_files_def Let_def)
  moreover have "length (lines_of bound) = length (lines_of (bl_code b))" "CHR 0x0D \<notin> set bound"
    using bind_receivers_lines assms(3,6) by simp_all
  ultimately show ?thesis
    using snippet_keeps_its_lines [of bound k parse package exports ?exporters] assms(4)
    by (auto simp: header_shift_of_snippet [OF ext] readme_position_def)
qed

theorem diagnostics_point_into_the_readme_witness:
  "let readme = ''```ts'' @ [newline] @ ''b()'' @ [newline] @ ''```'' @ [newline];
       parse = (\<lambda>_ _. \<lparr>ss_statements = [], ss_tree = Snippet_node Other_shape []\<rparr>);
       w = write_snippet_files parse (\<lambda>s. s) ''q'' [(''Q'', True)] None (blocks_of readme)
   in \<exists>contents shift. map_of (wr_files w) (snippet_name 0 ''ts'') = Some contents
        \<and> lines_of contents ! shift = ''b()''
        \<and> readme_position shift shift 4 = decimal 1 @ '','' @ decimal 5"
proof -
  let ?readme = "''```ts'' @ [newline] @ ''b()'' @ [newline] @ ''```'' @ [newline]"
  let ?b = "\<lparr>bl_ext = ''ts'', bl_code = ''b()'' @ [newline]\<rparr>"
  let ?parse = "\<lambda>_ _. \<lparr>ss_statements = [], ss_tree = Snippet_node Other_shape []\<rparr>"
  have b: "blocks_of ?readme = [?b]" by code_simp
  have t: "this_names (bl_code ?b) = []" by code_simp
  then have r: "snd (bind_receivers ?parse (exported_classes None) 0 (bl_ext ?b) (bl_code ?b)) = bl_code ?b"
    by (simp only: bind_receivers_def t fold.simps id_apply snd_conv)
  have n: "\<not> in_matches (bl_code ?b) (match_all IMPORT_RE True (bl_code ?b)) 0" "lines_of (bl_code ?b) ! 0 = ''b()''"
    by code_simp+
  have "0 < length (blocks_of ?readme)" "?b = blocks_of ?readme ! 0" "CHR 0x0D \<notin> set (bl_code ?b)"
    "0 < length (lines_of (bl_code ?b)) - 1" by (simp_all only: b) simp_all
  from diagnostics_point_into_the_readme [OF this refl r [symmetric], of "\<lambda>s. s" "''q''" "[(''Q'', True)]"] n
  show ?thesis unfolding Let_def by fastforce
qed

theorem receivers_are_typed_per_snippet_witness:
  "let b = \<lparr>bl_ext = ''ts'', bl_code = ''this.a''\<rparr>;
       parse = (\<lambda>_ _. \<lparr>ss_statements = [], ss_tree = Snippet_node Other_shape []\<rparr>);
       declarations = ''declare class A {}'' @ [newline] @ ''export { A };'' @ [newline]
   in map_of (wr_bindings (write_snippet_files parse (\<lambda>s. s) ''q'' [] (Some declarations) [b, b])) (binding_key 1 ''a'') = Some ''A''"
proof -
  let ?b = "\<lparr>bl_ext = ''ts'', bl_code = ''this.a''\<rparr>"
  let ?declarations = "''declare class A {}'' @ [newline] @ ''export { A };'' @ [newline]"
  have "this_names (bl_code ?b) = [''a'']" "exported_classes (Some ?declarations) = [''A'']"
    "class_name_of ''a'' = ''A''" by code_simp+
  then show ?thesis
    using receivers_are_typed_per_snippet [of 1 "[?b, ?b]" "\<lambda>_ _. \<lparr>ss_statements = [], ss_tree = Snippet_node Other_shape []\<rparr>"
        "\<lambda>s. s" "''q''" "[]" "Some ?declarations" "''a''"]
    by (simp add: Let_def)
qed

section \<open>The verdict\<close>

lemma no_foreign_module: "\<not> is_foreign_module line"
  by (simp add: is_foreign_module_def UNCHECKED_IMPORTS_def)

text \<open>
  When the compiler returns, the gate is silent exactly if some snippet imports the package and
  the only diagnostics are missing members of types a snippet declares itself: no unresolved import
  is ever excused. The directory of the gate is emptied first, and removed last, also if the compiler
  throws, and then the exception goes on.
\<close>

lemma snippet_gate_verdict:
  assumes "run = check_snippets parse collation package exports declarations type_tests compile readme"
    and "w = write_snippet_files parse collation package exports declarations (blocks_of readme)"
  shows "(case compile (wr_files w) of
      Inl e \<Rightarrow> gr_outcome run = Gate_throws e \<or> gr_failures run \<noteq> []
    | Inr ds \<Rightarrow> gr_outcome run = Gate_returns \<and>
        (gr_failures run = [] \<longleftrightarrow>
          (\<exists>b \<in> set (blocks_of readme). imports_package package (bl_code b))
          \<and> (\<forall>d \<in> set ds. is_abbreviated_local_type (wr_sources w) (diagnostic_line (wr_offsets w) d))))
    \<and> (gr_events run \<noteq> [] \<longrightarrow> hd (gr_events run) = Remove_gate \<and> last (gr_events run) = Remove_gate)"
proof (cases "list_ex (\<lambda>b. imports_package package (bl_code b)) (blocks_of readme)")
  case False
  then show ?thesis by (auto simp: assms(1) check_snippets_def list_ex_iff split: sum.split)
next
  case True
  then have run: "run = check_snippets parse collation package exports declarations type_tests compile readme \<longrightarrow> ?thesis"
    unfolding check_snippets_def Let_def assms(2) [symmetric]
    by (auto simp: api_errors_def no_foreign_module filter_empty_conv list_ex_iff scaffold_consumer_def split: sum.split)
  with assms(1) show ?thesis by blast
qed

lemma snippet_gate_verdict_witness:
  "let parse = (\<lambda>_ _. \<lparr>ss_statements = [], ss_tree = Snippet_node Other_shape []\<rparr>);
       run = check_snippets parse (\<lambda>s. s) ''q'' [] None False (\<lambda>_. (Inr [] :: unit + diagnostic list)) []
   in gr_failures run \<noteq> []"
proof -
  have "blocks_of [] = []" by code_simp
  then show ?thesis
    using snippet_gate_verdict [OF refl refl, of "\<lambda>_ _. \<lparr>ss_statements = [], ss_tree = Snippet_node Other_shape []\<rparr>"
        "\<lambda>s. s" "''q''" "[]" None False "\<lambda>_. (Inr [] :: unit + diagnostic list)" "[]"]
    by (simp add: Let_def)
qed

text \<open>
  The summary of the gate calls every ignored diagnostic an import listed in \<open>UNCHECKED_IMPORTS\<close>;
  that list is empty, so each of them is a missing member of a type the snippet abbreviates.
\<close>

lemma ignored_diagnostics_are_local_types:
  assumes "d \<in> set ds" and "diagnostic_line (wr_offsets w) d \<notin> set (api_errors w ds)"
  shows "is_abbreviated_local_type (wr_sources w) (diagnostic_line (wr_offsets w) d)"
  using assms by (auto simp: api_errors_def no_foreign_module)

end
