(* ===== verification/PublishedGate.thy ===== *)
theory PublishedGate
  imports PublishedSurface SnippetGate
begin

text \<open>
  The published-surface gate as a whole (end of \<open>src/scripts/check-published-surface.mjs\<close>): the links,
  the CHANGELOG and the README snippets write to one list of failures, and the exit code is what the
  list says; an exception of the compiler ends the script first.
\<close>

datatype gate_problem = Surface_problem failure | Snippet_problem string string

text \<open>
  The inputs: network and file system of the links, the tags, the version being released, and what
  the snippet gate needs.
\<close>

record ('e, 'k) published_inputs =
  pi_network :: network
  pi_exists :: "string \<Rightarrow> bool"
  pi_root :: string
  pi_readme :: string
  pi_changelog :: string
  pi_package :: string
  pi_version :: string
  pi_tags :: release_tags
  pi_parse :: "string \<Rightarrow> string \<Rightarrow> snippet_source"
  pi_collation :: "string \<Rightarrow> 'k"
  pi_exports :: "(string \<times> bool) list"
  pi_declarations :: "string option"
  pi_type_tests :: bool
  pi_compile :: "(string \<times> string) list \<Rightarrow> 'e + diagnostic list"

definition run_snippets :: "('e, 'k::linorder) published_inputs \<Rightarrow> 'e gate_run" where
  "run_snippets i = check_snippets (pi_parse i) (pi_collation i) (pi_package i) (pi_exports i) (pi_declarations i)
     (pi_type_tests i) (pi_compile i) (pi_readme i)"

definition published_problems :: "('e, 'k::linorder) published_inputs \<Rightarrow> gate_problem list" where
  "published_problems i =
    map Surface_problem (check_links (pi_network i) (pi_exists i) (pi_root i) (pi_readme i))
    @ map Surface_problem (check_changelog (pi_tags i) (pi_changelog i) (pi_version i))
    @ map (\<lambda>(check, message). Snippet_problem check message) (gr_failures (run_snippets i))"

definition published_exit :: "('e, 'k::linorder) published_inputs \<Rightarrow> nat" where
  "published_exit i =
    (case gr_outcome (run_snippets i) of
       Gate_throws _ \<Rightarrow> 1
     | Gate_returns \<Rightarrow> if published_problems i \<noteq> [] then 1 else 0)"

definition written_snippets :: "('e, 'k::linorder) published_inputs \<Rightarrow> written" where
  "written_snippets i = write_snippet_files (pi_parse i) (pi_collation i) (pi_package i) (pi_exports i)
     (pi_declarations i) (blocks_of (pi_readme i))"

text \<open>
  The gate exits with 0 exactly if no link of the README is bad, the CHANGELOG has its sections,
  references and releases, some snippet imports the package, the compiler returns, and all it
  finds are missing members of types a snippet declares itself.
\<close>

lemma published_gate_passes_iff:
  "published_exit i = 0 \<longleftrightarrow>
     check_links (pi_network i) (pi_exists i) (pi_root i) (pi_readme i) = []
   \<and> check_changelog (pi_tags i) (pi_changelog i) (pi_version i) = []
   \<and> (\<exists>b \<in> set (blocks_of (pi_readme i)). imports_package (pi_package i) (bl_code b))
   \<and> (\<exists>ds. pi_compile i (wr_files (written_snippets i)) = Inr ds
        \<and> list_all (\<lambda>d. is_abbreviated_local_type (wr_sources (written_snippets i))
             (diagnostic_line (wr_offsets (written_snippets i)) d)) ds)"
proof -
  have v: "case pi_compile i (wr_files (written_snippets i)) of
      Inl e \<Rightarrow> gr_outcome (run_snippets i) = Gate_throws e \<or> gr_failures (run_snippets i) \<noteq> []
    | Inr ds \<Rightarrow> gr_outcome (run_snippets i) = Gate_returns \<and>
        (gr_failures (run_snippets i) = [] \<longleftrightarrow>
          (\<exists>b \<in> set (blocks_of (pi_readme i)). imports_package (pi_package i) (bl_code b))
          \<and> (\<forall>d \<in> set ds. is_abbreviated_local_type (wr_sources (written_snippets i))
               (diagnostic_line (wr_offsets (written_snippets i)) d)))"
    using snippet_gate_verdict [OF run_snippets_def written_snippets_def, of i] by blast
  show ?thesis
  proof (cases "pi_compile i (wr_files (written_snippets i))")
    case (Inl e)
    with v show ?thesis by (auto simp: published_exit_def published_problems_def split: gate_outcome.splits)
  next
    case (Inr ds)
    with v show ?thesis by (auto simp: published_exit_def published_problems_def list_all_iff)
  qed
qed

end
