(* ===== verification/StripComments.thy ===== *)
theory StripComments
  imports ApiSurface
begin

text \<open>
  The comment stripper of the build (\<open>src/scripts/strip-bundle-comments.mjs\<close>): it cuts the comments
  the TypeScript parser reports out of a bundle, from the last to the first, and writes nothing
  unless every bundle is still the same program.

  The parser is outside: the syntax tree is an argument, as are the comment ranges before and
  after a position and the printer behind \<open>sameProgram\<close>. What the cutting relies on (a comment
  starts with its own first character, ends with a character that is no blank or where its line
  ends, and comments do not overlap) is the predicate \<open>comments_ok\<close>.
\<close>

section \<open>The comments\<close>

type_synonym range = "nat \<times> nat"

datatype syntax_node = Syntax_node nat nat bool "syntax_node list"

record comment_scanner =
  leading_at :: "nat \<Rightarrow> range list"
  trailing_at :: "nat \<Rightarrow> range list"

definition KEPT_COMMENT_RE :: regex where
  "KEPT_COMMENT_RE = alts
    [cats [LineStart, lit ''/*!''], cats [LineStart, lit ''//!''], lit ''@license'', lit ''@preserve'',
     lit ''__PURE__'', lit ''__NO_SIDE_EFFECTS__'', cats [LineStart, lit ''// src/'']]"

definition dropped :: "string \<Rightarrow> range list \<Rightarrow> range list" where
  "dropped source rs = filter (\<lambda>(pos, e). \<not> test KEPT_COMMENT_RE False (substring pos e source)) rs"

fun comments_of :: "comment_scanner \<Rightarrow> string \<Rightarrow> syntax_node \<Rightarrow> range list" where
  "comments_of S source (Syntax_node full_start e is_jsdoc children) =
    dropped source (leading_at S full_start) @ dropped source (trailing_at S e)
    @ (if is_jsdoc then [] else concat (map (comments_of S source) children))"

text \<open>The map keyed by position, in the order the ranges are cut: last position first.\<close>

definition ranges_of :: "comment_scanner \<Rightarrow> string \<Rightarrow> syntax_node \<Rightarrow> range list" where
  "ranges_of S source file =
    rev (sort_key fst (fold (\<lambda>(pos, e) m. AList.update pos e m) (comments_of S source file) []))"

section \<open>Cutting\<close>

definition NEVER_JOINS :: string where
  "NEVER_JOINS = ''(){}[];,''"

definition needs_space :: "string \<Rightarrow> string \<Rightarrow> bool" where
  "needs_space left right \<longleftrightarrow> left \<noteq> [] \<and> right \<noteq> []
     \<and> \<not> js_space (last left) \<and> \<not> js_space (hd right)
     \<and> last left \<notin> set NEVER_JOINS \<and> hd right \<notin> set NEVER_JOINS"

text \<open>
  \<open>lastIndexOf('\n', pos - 1) + 1\<close> (a negative start counts as zero) and \<open>indexOf('\n', end)\<close>.
\<close>

definition line_start :: "string \<Rightarrow> nat \<Rightarrow> nat" where
  "line_start s pos =
    (case find_index (\<lambda>c. c = newline) (rev (take (Suc (pos - 1)) s)) of
       None \<Rightarrow> 0 | Some k \<Rightarrow> length (take (Suc (pos - 1)) s) - k)"

definition line_end :: "string \<Rightarrow> nat \<Rightarrow> nat option" where
  "line_end s e = map_option ((+) e) (find_index (\<lambda>c. c = newline) (drop e s))"

definition strip_step :: "string \<Rightarrow> range \<Rightarrow> string \<Rightarrow> string" where
  "strip_step source r output =
    (case r of (pos, e) \<Rightarrow>
      let lineStart = line_start output pos;
          lineEnd = (case line_end output e of None \<Rightarrow> length output | Some k \<Rightarrow> k);
          before = substring lineStart pos output;
          after = substring e lineEnd output
      in if trim before = [] \<and> trim after = []
         then take lineStart output
              @ drop (case line_end output e of None \<Rightarrow> lineEnd | Some _ \<Rightarrow> lineEnd + 1) output
         else
           let lineBreak = trim before \<noteq> [] \<and> trim after \<noteq> [] \<and> newline \<in> set (substring pos e source);
               kept = take (pos - (length before - length (trim_end before))) output
           in kept @ (if lineBreak then [newline] else if needs_space kept (drop e output) then '' '' else [])
              @ drop e output)"

definition strip_comments :: "comment_scanner \<Rightarrow> syntax_node \<Rightarrow> string \<Rightarrow> string" where
  "strip_comments S file source = fold (strip_step source) (ranges_of S source file) source"

section \<open>The directory\<close>

definition BUNDLE_FILE_RE :: regex where
  "BUNDLE_FILE_RE = cats [LineStart, lit ''index.'', alts [lit ''mjs'', lit ''cjs''], LineEnd]"

fun bundles_under :: "string \<Rightarrow> (string \<times> fs_node) list \<Rightarrow> (string \<times> string) list" where
  "bundles_under dir [] = []"
| "bundles_under dir ((name, Dir_node es) # rest) =
    bundles_under (dir @ ''/'' @ name) es @ bundles_under dir rest"
| "bundles_under dir ((name, File_node contents) # rest) =
    (if test BUNDLE_FILE_RE False name then [(dir @ ''/'' @ name, contents)] else [])
    @ bundles_under dir rest"

definition bundle_files :: "string \<Rightarrow> (string \<times> fs_node) list \<Rightarrow> (string \<times> string) list" where
  "bundle_files dir es = sort_key fst (bundles_under dir es)"

definition same_program :: "(string \<Rightarrow> string) \<Rightarrow> string \<Rightarrow> string \<Rightarrow> bool" where
  "same_program print_program before after \<longleftrightarrow> print_program before = print_program after"

datatype strip_result =
    No_bundles string
  | Diverged "string list"
  | Stripped "(string \<times> nat \<times> nat) list"

text \<open>The result of the run and the writes it makes, in order.\<close>

definition strip_directory ::
    "(string \<Rightarrow> string) \<Rightarrow> (string \<Rightarrow> string) \<Rightarrow> string \<Rightarrow> (string \<times> fs_node) list
      \<Rightarrow> strip_result \<times> (string \<times> string) list" where
  "strip_directory print_program strip dir es =
    (let bundles = bundle_files dir es
     in if bundles = [] then (No_bundles dir, [])
        else
          let results = map (\<lambda>(path, before). (path, before, strip before)) bundles;
              changed = filter (\<lambda>(path, before, after). after \<noteq> before) results;
              diverged = filter (\<lambda>(path, before, after). \<not> same_program print_program before after) changed
          in if diverged \<noteq> [] then (Diverged (map fst diverged), [])
             else (Stripped (map (\<lambda>(path, before, after). (path, length before, length after)) results),
                   map (\<lambda>(path, before, after). (path, after)) changed))"

section \<open>Lines\<close>

lemma line_start_Nil [simp]: "line_start [] pos = 0"
  by (simp add: line_start_def)

lemma line_start_le: "pos \<le> length s \<Longrightarrow> 0 < pos \<Longrightarrow> line_start s pos \<le> pos"
  by (auto simp: line_start_def split: option.split)

text \<open>Between the start of its line and a position there is no line feed.\<close>

lemma line_start_above:
  assumes "j < pos" and "pos \<le> length s" and "s ! j = newline"
  shows "j < line_start s pos"
proof -
  let ?p = "take pos s"
  have p: "take (Suc (pos - 1)) s = ?p" using assms(1) by simp
  have len: "length ?p = pos" using assms(2) by simp
  have "rev ?p ! (pos - 1 - j) = newline"
    using assms len by (subst rev_nth) (auto simp: Suc_diff_Suc)
  moreover have "pos - 1 - j < length (rev ?p)" using assms len by simp
  ultimately have "\<exists>x\<in>set (rev ?p). x = newline" by (metis nth_mem)
  then obtain k where k: "find_index (\<lambda>c. c = newline) (rev ?p) = Some k"
    by (cases "find_index (\<lambda>c. c = newline) (rev ?p)") (auto simp: find_index_None)
  then have "k \<le> pos - 1 - j"
    using \<open>rev ?p ! (pos - 1 - j) = newline\<close> unfolding find_index_Some by (meson not_le_imp_less)
  moreover have "line_start s pos = pos - k" using k p len by (simp add: line_start_def)
  ultimately show ?thesis using assms(1) by linarith
qed

lemma line_end_cases:
  assumes "e \<le> length s"
  obtains (last) "line_end s e = None" | (feed) k where "line_end s e = Some k" "e \<le> k" "k < length s" "s ! k = newline"
proof (cases "line_end s e")
  case None
  then show ?thesis by (rule last)
next
  case (Some k)
  then obtain j where "k = e + j" "find_index (\<lambda>c. c = newline) (drop e s) = Some j"
    by (auto simp: line_end_def)
  with Some assms show ?thesis by (intro feed [of k]) (auto simp: find_index_Some)
qed

section \<open>What the stripping keeps\<close>

text \<open>The characters of a text that are no white space.\<close>

definition visible :: "string \<Rightarrow> string" where
  "visible s = filter (\<lambda>c. \<not> js_space c) s"

lemma visible_append [simp]: "visible (s @ t) = visible s @ visible t"
  by (simp add: visible_def)

lemma visible_Nil [simp]: "visible [] = []"
  by (simp add: visible_def)

lemma visible_blank: "blank s \<Longrightarrow> visible s = []"
  by (simp add: visible_def blank_def list_all_iff filter_empty_conv)

lemma visible_space [simp]: "visible '' '' = []" "visible [newline] = []"
  by (simp_all add: visible_def js_space_def)

lemma drop_split: "i \<le> j \<Longrightarrow> drop i s = substring i j s @ drop j s"
  unfolding substring_def by (metis append_take_drop_id drop_drop le_add_diff_inverse2)

text \<open>A comment that owns its line takes nothing visible with it.\<close>

lemma owned_line_rest:
  assumes "e \<le> length s" and "blank (substring e (case line_end s e of None \<Rightarrow> length s | Some k \<Rightarrow> k) s)"
  shows "visible (drop (case line_end s e of None \<Rightarrow> length s | Some k \<Rightarrow> k + 1) s) = visible (drop e s)"
proof (cases rule: line_end_cases [OF assms(1), case_names last feed])
  case last
  with assms show ?thesis by (simp add: substring_def visible_blank)
next
  case (feed k)
  then have "drop e s = substring e k s @ [newline] @ drop (Suc k) s"
    using drop_split [of e k s] by (simp add: Cons_nth_drop_Suc [symmetric])
  with feed assms(2) show ?thesis by (simp add: visible_blank del: append_Cons)
qed

lemma trailing_blanks:
  fixes s :: string
  assumes "i \<le> pos" and "pos \<le> length s"
  defines "w \<equiv> length (substring i pos s) - length (trim_end (substring i pos s))"
  shows "i \<le> pos - w" and "blank (substring (pos - w) pos s)"
proof -
  obtain t where t: "substring i pos s = trim_end (substring i pos s) @ t" "blank t"
    using trim_end_split by blast
  have len: "length (substring i pos s) = pos - i" using assms(1,2) by simp
  have w: "w = length t" unfolding w_def using t(1) by (metis add_diff_cancel_left' length_append)
  moreover have "length t \<le> pos - i" using t(1) len by (metis le_add2 length_append)
  ultimately show le: "i \<le> pos - w" using assms(1) by linarith
  have "substring i (pos - w) s @ substring (pos - w) pos s = trim_end (substring i pos s) @ t"
    using substring_append [OF le, of pos] t(1) by simp
  moreover have "length (substring (pos - w) pos s) = length t"
    using w assms(2) \<open>length t \<le> pos - i\<close> by simp
  ultimately have "substring (pos - w) pos s = t" by simp
  with t(2) show "blank (substring (pos - w) pos s)" by simp
qed

text \<open>
  One cut: the text before some position \<open>m\<close> on the line of the comment stays, only white space
  is lost between \<open>m\<close> and the comment, and after the comment nothing visible is lost.
\<close>

lemma line_start_le_comment:
  assumes "pos < length s" and "\<not> js_space (s ! pos)"
  shows "line_start s pos \<le> pos"
proof (cases "pos = 0")
  case True
  have "s \<noteq> []" using assms(1) by auto
  then obtain c cs where s: "s = c # cs" by (meson neq_Nil_conv)
  with assms(2) True have "c \<noteq> newline" by (auto simp: js_space_def)
  with True s show ?thesis by (simp add: line_start_def)
qed (use line_start_le [of pos s] assms in simp)

lemma strip_step_shape:
  assumes "pos < e" and "e \<le> length out" and "\<not> js_space (out ! pos)"
  obtains m t where "strip_step source (pos, e) out = take m out @ t" and "m \<le> pos"
    and "line_start out pos \<le> m" and "blank (substring m pos out)"
    and "visible t = visible (drop e out)"
proof -
  let ?ls = "line_start out pos"
  let ?before = "substring ?ls pos out"
  let ?le = "case line_end out e of None \<Rightarrow> length out | Some k \<Rightarrow> k"
  let ?after = "substring e ?le out"
  have ls: "?ls \<le> pos" using line_start_le_comment assms by simp
  show ?thesis
  proof (cases "trim ?before = [] \<and> trim ?after = []")
    case True
    then have blanks: "blank ?before" "blank ?after" by (auto simp: trim_empty_iff)
    let ?t = "drop (case line_end out e of None \<Rightarrow> length out | Some k \<Rightarrow> k + 1) out"
    have "strip_step source (pos, e) out = take ?ls out @ ?t"
      using True by (cases "line_end out e") (simp_all add: strip_step_def Let_def)
    then show ?thesis
      by (rule that) (use ls blanks owned_line_rest [OF assms(2) blanks(2)] in auto)
  next
    case False
    let ?m = "pos - (length ?before - length (trim_end ?before))"
    obtain gap where "strip_step source (pos, e) out = take ?m out @ gap @ drop e out"
      "gap \<in> {[newline], '' '', []}"
      using False by (auto simp: strip_step_def Let_def)
    then show ?thesis
      by (intro that [of ?m "gap @ drop e out"])
        (use trailing_blanks [OF ls, of out] assms in auto)
  qed
qed

text \<open>
  What the parser promises of the comments, given from the last to the first: a comment lies in
  the text, its first character is no white space, its last one is none either or the comment
  ends with its line or the text, and comments do not overlap.
\<close>

fun comments_ok :: "string \<Rightarrow> nat \<Rightarrow> range list \<Rightarrow> bool" where
  "comments_ok source bound [] = True"
| "comments_ok source bound ((pos, e) # rs) =
    (pos < e \<and> e \<le> bound \<and> \<not> js_space (source ! pos)
     \<and> (js_space (source ! (e - 1)) = False \<or> e = length source \<or> source ! e = newline)
     \<and> comments_ok source pos rs)"

text \<open>The text with exactly the comments cut out.\<close>

fun uncommented :: "range list \<Rightarrow> string \<Rightarrow> string" where
  "uncommented [] s = s"
| "uncommented ((pos, e) # rs) s = uncommented rs (take pos s @ drop e s)"

lemma comment_end_before_cut:
  assumes "0 < e" and "e \<le> pos" and "pos < length source" and "\<not> js_space (source ! pos)"
    and "\<not> js_space (source ! (e - 1)) \<or> source ! e = newline"
    and "line_start source pos \<le> m" and "m \<le> pos" and "blank (substring m pos source)"
  shows "e \<le> m"
proof (rule ccontr)
  assume "\<not> e \<le> m"
  then have m: "m < e" by simp
  have inside: "js_space (source ! j)" if "m \<le> j" "j < pos" for j
  proof -
    have "substring m pos source ! (j - m) = source ! j"
      using that assms(3) by (simp add: substring_def)
    moreover have "j - m < length (substring m pos source)" using that assms(3) by simp
    ultimately show ?thesis using assms(8) by (metis blank_def list_all_length)
  qed
  from assms(5) show False
  proof
    assume "\<not> js_space (source ! (e - 1))"
    moreover have "m \<le> e - 1" "e - 1 < pos" using m assms(1,2) by auto
    ultimately show False using inside by blast
  next
    assume nl: "source ! e = newline"
    then have "e \<noteq> pos" using assms(4) by (auto simp: js_space_def)
    then have "e < line_start source pos" using line_start_above nl assms(2,3) by simp
    with m assms(6) show False by simp
  qed
qed

lemma line_start_take:
  assumes "pos \<le> m" and "m \<le> length s" and "0 < m"
  shows "line_start (take m s @ t) pos = line_start s pos"
proof -
  have "Suc (pos - 1) \<le> m" using assms by linarith
  then have "take (Suc (pos - 1)) (take m s @ t) = take (Suc (pos - 1)) s" using assms(2) by simp
  then show ?thesis by (simp only: line_start_def)
qed

lemma substring_take:
  "j \<le> m \<Longrightarrow> m \<le> length s \<Longrightarrow> substring i j (take m s @ t) = substring i j s"
  by (cases "i \<le> m") (auto simp: substring_def drop_take)

lemma take_drop_split:
  assumes "m' \<le> pos" and "pos \<le> e" and "e \<le> m" and "m \<le> length s"
  shows "take pos (take m s @ u) @ drop e (take m s @ u)
    = take m' s @ substring m' pos s @ substring e m s @ u"
proof -
  have "take pos (take m s @ u) = take pos s" using assms by simp
  moreover have "take pos s = take m' s @ substring m' pos s"
    using assms(1) by (metis drop_0 substring_append substring_def diff_zero le0)
  moreover have "drop e (take m s @ u) = substring e m s @ u"
    using assms by (simp add: substring_def drop_take)
  ultimately show ?thesis by simp
qed

lemma strip_matches_uncommented:
  assumes "comments_ok source bound rs" and "m \<le> length source"
    and "case rs of [] \<Rightarrow> True | r # _ \<Rightarrow> snd r \<le> m" and "visible t = visible u"
  shows "visible (fold (strip_step source) rs (take m source @ t))
    = visible (uncommented rs (take m source @ u))"
  using assms
proof (induction source bound rs arbitrary: m t u rule: comments_ok.induct)
  case (1 source bound)
  then show ?case by simp
next
  case (2 source bound pos e rs)
  let ?out = "take m source @ t"
  from "2.prems" have pe: "pos < e" "e \<le> m" "m \<le> length source" "\<not> js_space (source ! pos)"
    "comments_ok source pos rs" by auto
  have out: "e \<le> length ?out" "\<not> js_space (?out ! pos)" using pe by (simp_all add: nth_append)
  obtain m' t' where cut: "strip_step source (pos, e) ?out = take m' ?out @ t'" "m' \<le> pos"
    "line_start ?out pos \<le> m'" "blank (substring m' pos ?out)" "visible t' = visible (drop e ?out)"
    using strip_step_shape [OF pe(1) out] by metis
  have blank: "blank (substring m' pos source)" "line_start source pos \<le> m'"
    using cut(3,4) pe by (simp_all add: substring_take line_start_take)
  have t': "visible t' = visible (substring e m source @ t)"
    unfolding cut(5) using pe by (simp add: substring_def drop_take)
  let ?u = "substring m' pos source @ substring e m source @ u"
  have u: "visible t' = visible ?u"
    using t' "2.prems"(4) blank by (simp add: visible_blank)
  have ends: "case rs of [] \<Rightarrow> True | r # _ \<Rightarrow> snd r \<le> m'"
  proof (cases rs)
    case (Cons r rest)
    obtain pos2 e2 where r: "r = (pos2, e2)" by (cases r)
    with Cons pe have "pos2 < e2" "e2 \<le> pos" "\<not> js_space (source ! (e2 - 1)) \<or> source ! e2 = newline"
      by auto
    then have "e2 \<le> m'"
      using comment_end_before_cut [of e2 pos source m'] pe cut(2) blank by auto
    with Cons r show ?thesis by simp
  qed simp
  have "fold (strip_step source) ((pos, e) # rs) ?out = fold (strip_step source) rs (take m' source @ t')"
    using cut(1,2) pe by simp
  moreover have "uncommented ((pos, e) # rs) (take m source @ u) = uncommented rs (take m' source @ ?u)"
    unfolding uncommented.simps
    by (subst take_drop_split [OF cut(2)]) (use pe in simp_all)
  ultimately show ?case
    using "2.IH" [OF pe(5) _ ends u] cut(2) pe by simp
qed

text \<open>
  C34. Stripping loses comments and white space only: every other character of the bundle is still
  there, in its place in the order.
\<close>

theorem stripping_keeps_the_code:
  assumes "comments_ok source (length source) (ranges_of S source file)"
  shows "visible (strip_comments S file source) = visible (uncommented (ranges_of S source file) source)"
proof -
  have "case ranges_of S source file of [] \<Rightarrow> True | r # _ \<Rightarrow> snd r \<le> length source"
    using assms by (cases "ranges_of S source file") auto
  from strip_matches_uncommented [OF assms order_refl this, of "[]" "[]"]
  show ?thesis by (simp add: strip_comments_def)
qed

text \<open>A bundle with a comment inside a line and one that owns its line.\<close>

definition sample_source :: string where
  "sample_source = ''a /* x */ b'' @ [newline] @ ''// y'' @ [newline] @ ''c''"

definition sample_scanner :: comment_scanner where
  "sample_scanner = \<lparr>leading_at = (\<lambda>i. if i = 11 then [(12, 16)] else []),
     trailing_at = (\<lambda>i. if i = 1 then [(2, 9)] else [])\<rparr>"

definition sample_tree :: syntax_node where
  "sample_tree = Syntax_node 0 18 False
    [Syntax_node 0 1 False [], Syntax_node 1 11 False [], Syntax_node 11 18 False []]"

lemma sample_ranges: "ranges_of sample_scanner sample_source sample_tree = [(12, 16), (2, 9)]"
  by code_simp

theorem stripping_keeps_the_code_witness:
  "visible (strip_comments sample_scanner sample_tree sample_source) = ''abc''"
proof -
  have "comments_ok sample_source (length sample_source) (ranges_of sample_scanner sample_source sample_tree)"
    unfolding sample_ranges by code_simp
  from stripping_keeps_the_code [OF this] show ?thesis
    unfolding sample_ranges by (simp add: sample_source_def visible_def js_space_def)
qed

text \<open>
  C35. The directory is stripped as a whole or not at all: a file is written only when every bundle
  whose text changes is still the same program, and then the writes are exactly the changed
  bundles, each with its stripped text.
\<close>

theorem all_bundles_or_none:
  "snd (strip_directory print_program strip dir es) =
     (if list_all (\<lambda>(path, before). strip before = before
          \<or> same_program print_program before (strip before)) (bundle_files dir es)
      then map (\<lambda>(path, before). (path, strip before))
             (filter (\<lambda>(path, before). strip before \<noteq> before) (bundle_files dir es))
      else [])"
proof -
  let ?b = "bundle_files dir es"
  have "filter (\<lambda>(path, before, after). \<not> same_program print_program before after)
      (filter (\<lambda>(path, before, after). after \<noteq> before)
        (map (\<lambda>(path, before). (path, before, strip before)) ?b)) = []
    \<longleftrightarrow> list_all (\<lambda>(path, before). strip before = before
          \<or> same_program print_program before (strip before)) ?b"
    by (auto simp: filter_empty_conv list_all_iff)
  moreover have "map (\<lambda>(path, before, after). (path, after))
      (filter (\<lambda>(path, before, after). after \<noteq> before)
        (map (\<lambda>(path, before). (path, before, strip before)) xs))
    = map (\<lambda>(path, before). (path, strip before)) (filter (\<lambda>(path, before). strip before \<noteq> before) xs)"
    for xs :: "(string \<times> string) list"
    by (induction xs) auto
  ultimately show ?thesis by (simp add: strip_directory_def Let_def)
qed

section \<open>The script\<close>

text \<open>\<open>main\<close>: what it prints and its exit code.\<close>

fun strip_message :: "strip_result \<Rightarrow> string list" where
  "strip_message (No_bundles dir) = [''No index.mjs or index.cjs under '' @ dir @ '': run the build first.'']"
| "strip_message (Diverged paths) =
    [''Removing the comments changed the program of: '' @ join_with '', '' paths @ ''. Nothing was written.'']"
| "strip_message (Stripped files) =
    map (\<lambda>(path, before, after). path @ '': '' @ decimal before @ '' -> '' @ decimal after @ '' bytes'') files"

fun strip_exit :: "strip_result \<Rightarrow> nat" where
  "strip_exit (Stripped _) = 0"
| "strip_exit _ = 1"

lemma strip_exit_iff:
  "strip_exit (fst (strip_directory print_program strip dir es)) = 0 \<longleftrightarrow>
    bundle_files dir es \<noteq> []
    \<and> (\<forall>(path, before) \<in> set (bundle_files dir es).
         strip before \<noteq> before \<longrightarrow> same_program print_program before (strip before))"
  by (simp add: strip_directory_def Let_def filter_empty_conv split_beta image_iff) fastforce

end
