(* ===== verification/ConstTables.thy ===== *)
theory ConstTables
  imports JsRegex NodePath
begin

text \<open>
  The mutation of constant tables (\<open>src/scripts/mutate-const-tables.mjs\<close>): the tables asserted
  \<open>as const\<close> in a syntax tree, one mutant per entry (and one per number), and the run of the test
  command on each of them with the source file restored afterwards.

  The TypeScript parser is an argument that gives the tree of a text; a node lists its children in
  the order of \<open>forEachChild\<close>, the expression of a wrapping first. The verdicts of the test
  command are a function of the number of commands run before, the file and its content.
\<close>

section \<open>Arguments and files\<close>

definition option_in :: "string list \<Rightarrow> string \<Rightarrow> string \<Rightarrow> string" where
  "option_in options name fallback =
    (case find_index (\<lambda>a. a = name) options of None \<Rightarrow> fallback
     | Some i \<Rightarrow> if i + 1 < length options then options ! (i + 1) else fallback)"

record run_arguments =
  ra_root :: string
  ra_src :: string
  ra_only :: string
  ra_command :: "string list"

definition parse_arguments :: "string \<Rightarrow> string list \<Rightarrow> run_arguments" where
  "parse_arguments dir argv =
    (let split = find_index (\<lambda>a. a = ''--'') argv;
         options = (case split of None \<Rightarrow> argv | Some i \<Rightarrow> take i argv);
         command = (case split of None \<Rightarrow> [] | Some i \<Rightarrow> drop (i + 1) argv)
     in \<lparr>ra_root = resolve_path dir (option_in options ''--root'' dir),
         ra_src = option_in options ''--src'' ''src'',
         ra_only = option_in options ''--only'' [],
         ra_command = command\<rparr>)"

definition script_extension :: regex where
  "script_extension = cats [Opt (one_of ''cm''), one_of ''jt'', chr CHR ''s'', Opt (chr CHR ''x'')]"

definition SKIPPED_FILE :: regex where
  "SKIPPED_FILE = cats
    [alts [cats [chr CHR ''.'', alts [lit ''spec'', lit ''test''], chr CHR ''.'', script_extension],
           cats [lit ''.d.'', Opt (one_of ''cm''), lit ''ts''],
           cats [alts [LineStart, chr CHR ''/''], lit ''index.'', script_extension]],
     LineEnd]"

definition SOURCE_FILE :: regex where
  "SOURCE_FILE = cats [chr CHR ''.'', script_extension, LineEnd]"

definition candidate_files :: "(string \<Rightarrow> bool) \<Rightarrow> string \<Rightarrow> string \<Rightarrow> string list" where
  "candidate_files exists_sync listing only =
    filter exists_sync
      (filter (\<lambda>path. test SOURCE_FILE False path \<and> \<not> test SKIPPED_FILE False path \<and> includes_text only path)
        (split_on (CHR 0x00) listing))"

section \<open>Tables of a syntax tree\<close>

datatype node_kind =
    As_expression string
  | Satisfies_expression
  | Parenthesized_expression
  | Object_literal nat
  | Array_literal nat
  | Property_assignment
  | Numeric_literal string
  | Other_node

text \<open>
  A node has its full start (comments before it included), its start, its end and its children.
  An object or array literal carries the end of its entry list, the trailing comma included.
\<close>

datatype ts_node = Ts_node node_kind nat nat nat "ts_node list"

fun kind_of :: "ts_node \<Rightarrow> node_kind" where "kind_of (Ts_node k _ _ _ _) = k"
fun full_start_of :: "ts_node \<Rightarrow> nat" where "full_start_of (Ts_node _ fs _ _ _) = fs"
fun start_of :: "ts_node \<Rightarrow> nat" where "start_of (Ts_node _ _ s _ _) = s"
fun end_of :: "ts_node \<Rightarrow> nat" where "end_of (Ts_node _ _ _ e _) = e"
fun children_of :: "ts_node \<Rightarrow> ts_node list" where "children_of (Ts_node _ _ _ _ cs) = cs"

fun unwrap :: "ts_node \<Rightarrow> ts_node" where
  "unwrap (Ts_node (As_expression t) fs s e (c # cs)) = unwrap c"
| "unwrap (Ts_node Satisfies_expression fs s e (c # cs)) = unwrap c"
| "unwrap (Ts_node Parenthesized_expression fs s e (c # cs)) = unwrap c"
| "unwrap node = node"

definition is_const_assertion :: "ts_node \<Rightarrow> bool" where
  "is_const_assertion node \<longleftrightarrow> kind_of node = As_expression ''const''"

fun entries_end :: "node_kind \<Rightarrow> nat option" where
  "entries_end (Object_literal e) = Some e"
| "entries_end (Array_literal e) = Some e"
| "entries_end _ = None"

definition is_literal :: "ts_node \<Rightarrow> bool" where
  "is_literal node \<longleftrightarrow> entries_end (kind_of node) \<noteq> None"

fun with_nested :: "ts_node \<Rightarrow> ts_node list" where
  "with_nested (Ts_node k fs s e cs) =
    (if is_literal (Ts_node k fs s e cs) then [Ts_node k fs s e cs] else []) @ concat (map with_nested cs)"

definition asserted_of :: "ts_node \<Rightarrow> ts_node" where
  "asserted_of node =
    (case (kind_of node, children_of node) of (Satisfies_expression, c # cs) \<Rightarrow> c | _ \<Rightarrow> node)"

fun const_tables :: "ts_node \<Rightarrow> ts_node list" where
  "const_tables (Ts_node k fs s e cs) =
    (let asserted = asserted_of (Ts_node k fs s e cs)
     in if is_const_assertion asserted
        then (let literal = unwrap asserted in if is_literal literal then with_nested literal else [])
        else concat (map const_tables cs))"

section \<open>Mutants\<close>

definition without_entry :: "string \<Rightarrow> ts_node list \<Rightarrow> nat \<Rightarrow> nat \<Rightarrow> string" where
  "without_entry src entries list_end index =
    (if index + 1 < length entries
     then take (full_start_of (entries ! index)) src @ drop (full_start_of (entries ! (index + 1))) src
     else let start = (if index = 0 then full_start_of (entries ! index) else end_of (entries ! (index - 1)))
          in take start src @ drop list_end src)"

fun number_literal :: "ts_node \<Rightarrow> (string \<times> nat \<times> nat) option" where
  "number_literal (Ts_node (Numeric_literal t) fs s e cs) = Some (t, s, e)"
| "number_literal node = None"

definition number_of_entry :: "ts_node \<Rightarrow> (string \<times> nat \<times> nat) option" where
  "number_of_entry entry =
    number_literal (case (kind_of entry, children_of entry) of
      (Property_assignment, name # initializer # _) \<Rightarrow> initializer | _ \<Rightarrow> entry)"

definition PLAIN_INTEGER :: regex where
  "PLAIN_INTEGER = cats
    [LineStart, digit, many (Cls (\<lambda>c. is_digit c \<or> c = CHR ''_'')), LineEnd]"

definition max_safe_integer :: nat where
  "max_safe_integer = 9007199254740991"

text \<open>The text of a literal that is not made of digits alone is a number too large to be safe.\<close>

definition with_number_bumped :: "string \<Rightarrow> ts_node \<Rightarrow> string option" where
  "with_number_bumped src entry =
    (case number_of_entry entry of
       None \<Rightarrow> None
     | Some (literal_text, s, e) \<Rightarrow>
         if \<not> test PLAIN_INTEGER False (substring s e src) then None
         else if \<not> list_all is_digit literal_text \<or> number_of literal_text + 1 > max_safe_integer then None
         else Some (take s src @ decimal (number_of literal_text + 1) @ drop e src))"

datatype mutation = Remove | Bump

record mutant =
  mu_kind :: mutation
  mu_label :: string
  mu_text :: string

definition entry_label :: "string \<Rightarrow> string \<Rightarrow> ts_node \<Rightarrow> string" where
  "entry_label path src entry =
    path @ '':'' @ decimal (count_list (take (start_of entry) src) newline + 1) @ '' ''
    @ replace_all (some space) False (\<lambda>_. '' '') (take 50 (substring (start_of entry) (end_of entry) src))"

definition entry_mutants :: "string \<Rightarrow> string \<Rightarrow> ts_node list \<Rightarrow> nat \<Rightarrow> nat \<Rightarrow> mutant list" where
  "entry_mutants path src entries list_end index =
    (let entry = entries ! index; label = entry_label path src entry
     in \<lparr>mu_kind = Remove, mu_label = label, mu_text = without_entry src entries list_end index\<rparr>
        # (case with_number_bumped src entry of None \<Rightarrow> []
           | Some bumped \<Rightarrow> [\<lparr>mu_kind = Bump, mu_label = label, mu_text = bumped\<rparr>]))"

definition table_mutants :: "string \<Rightarrow> string \<Rightarrow> ts_node \<Rightarrow> mutant list" where
  "table_mutants path src table =
    (case entries_end (kind_of table) of
       None \<Rightarrow> []
     | Some list_end \<Rightarrow>
         concat (map (entry_mutants path src (children_of table) list_end)
           [0..<length (children_of table)]))"

definition mutants_of :: "(string \<Rightarrow> ts_node) \<Rightarrow> string \<Rightarrow> string \<Rightarrow> mutant list" where
  "mutants_of parse path src = concat (map (table_mutants path src) (const_tables (parse src)))"

section \<open>Running the test command\<close>

text \<open>
  How a command ends: with an exit status (none when it could not be started), by a signal, or
  with the script itself interrupted while it waits, in which case the handler kills the command,
  restores the file and exits.
\<close>

datatype ended = Exited "nat option" | Signalled string | Interrupted

datatype stop = Command_stopped string | Failing_baseline string | Process_exit nat

type_synonym disk = "string \<Rightarrow> string"
type_synonym test_runs = "nat \<Rightarrow> string \<Rightarrow> string \<Rightarrow> ended"

record run_state =
  rs_disk :: disk
  rs_commands :: nat

definition EXIT_USAGE :: nat where
  "EXIT_USAGE = 2"

definition passed :: "ended \<Rightarrow> bool" where
  "passed outcome \<longleftrightarrow> outcome = Exited (Some 0)"

definition run_command :: "test_runs \<Rightarrow> string \<Rightarrow> run_state \<Rightarrow> ended \<times> run_state" where
  "run_command tests fname st =
    (tests (rs_commands st) fname (rs_disk st fname), st\<lparr>rs_commands := Suc (rs_commands st)\<rparr>)"

definition write_file :: "string \<Rightarrow> string \<Rightarrow> run_state \<Rightarrow> run_state" where
  "write_file fname contents st = st\<lparr>rs_disk := (rs_disk st)(fname := contents)\<rparr>"

definition require_passing ::
    "test_runs \<Rightarrow> string \<Rightarrow> nat \<Rightarrow> run_state \<Rightarrow> (stop, unit) result \<times> run_state" where
  "require_passing tests fname mutant_count st =
    (if mutant_count = 0 then (Returns (), st)
     else case run_command tests fname st of
       (Signalled s, st') \<Rightarrow> (Throws (Command_stopped s), st')
     | (Interrupted, st') \<Rightarrow> (Throws (Process_exit EXIT_USAGE), st')
     | (Exited status, st') \<Rightarrow>
         if passed (Exited status) then (Returns (), st') else (Throws (Failing_baseline fname), st'))"

fun run_mutants ::
    "test_runs \<Rightarrow> string \<Rightarrow> mutant list \<Rightarrow> mutant list \<Rightarrow> run_state \<Rightarrow> (stop, mutant list) result \<times> run_state" where
  "run_mutants tests fname [] survivors st = (Returns survivors, st)"
| "run_mutants tests fname (mutant # mutants) survivors st =
    (case run_command tests fname (write_file fname (mu_text mutant) st) of
       (Signalled s, st') \<Rightarrow> (Throws (Command_stopped s), st')
     | (Interrupted, st') \<Rightarrow> (Throws (Process_exit EXIT_USAGE), st')
     | (Exited status, st') \<Rightarrow>
         run_mutants tests fname mutants
           (if passed (Exited status) then survivors @ [mutant] else survivors) st')"

text \<open>
  The loop over the files: the \<open>try\<close> block, then \<open>restore()\<close> on every way out of it (the
  \<open>finally\<close> clause, and the signal handler when the run is interrupted).
\<close>

definition mutate_file ::
    "test_runs \<Rightarrow> (string \<Rightarrow> ts_node) \<Rightarrow> string \<Rightarrow> mutant list \<Rightarrow> run_state
      \<Rightarrow> (stop, mutant list) result \<times> run_state" where
  "mutate_file tests parse fname survivors st =
    (let original = rs_disk st fname;
         mutants = mutants_of parse fname original
     in case andthen (require_passing tests fname (length mutants) st)
               (\<lambda>_. run_mutants tests fname mutants survivors) of
          (outcome, st') \<Rightarrow> (outcome, write_file fname original st'))"

fun survivors_of ::
    "test_runs \<Rightarrow> (string \<Rightarrow> ts_node) \<Rightarrow> string list \<Rightarrow> mutant list \<Rightarrow> run_state
      \<Rightarrow> (stop, mutant list) result \<times> run_state" where
  "survivors_of tests parse [] survivors st = (Returns survivors, st)"
| "survivors_of tests parse (fname # fnames) survivors st =
    andthen (mutate_file tests parse fname survivors st) (survivors_of tests parse fnames)"

definition exit_status :: "run_arguments \<Rightarrow> (stop, mutant list) result \<Rightarrow> nat" where
  "exit_status args outcome =
    (if ra_command args = [] then EXIT_USAGE
     else case outcome of Returns survivors \<Rightarrow> if survivors = [] then 0 else 1 | _ \<Rightarrow> EXIT_USAGE)"

section \<open>Properties\<close>

lemma run_command_disk [simp]: "rs_disk (snd (run_command tests fname st)) = rs_disk st"
  by (simp add: run_command_def)

lemma require_passing_disk [simp]: "rs_disk (snd (require_passing tests fname n st)) = rs_disk st"
  by (auto simp: require_passing_def run_command_def split: ended.split)

text \<open>Only the mutated file changes while its mutants run.\<close>

lemma run_mutants_disk:
  "(rs_disk (snd (run_mutants tests fname mutants survivors st)))(fname := x) = (rs_disk st)(fname := x)"
  by (induction mutants arbitrary: survivors st)
    (auto simp: run_command_def write_file_def split: ended.split)

lemma mutate_file_restores: "rs_disk (snd (mutate_file tests parse fname survivors st)) = rs_disk st"
proof -
  let ?m = "mutants_of parse fname (rs_disk st fname)"
  obtain r st1 where req: "require_passing tests fname (length ?m) st = (r, st1)" by (metis surj_pair)
  then have "rs_disk st1 = rs_disk st" using require_passing_disk by (metis snd_conv)
  with req run_mutants_disk [of tests fname ?m survivors st1 "rs_disk st fname"] show ?thesis
    by (cases r) (auto simp: mutate_file_def write_file_def Let_def split: prod.split)
qed

text \<open>
  C36. Every source file is restored: however the commands end, on a failed baseline, on a signal
  and on an interrupt too, the files after the run are the files before it. The commands themselves
  are taken to write to no source file.
\<close>

theorem every_file_is_restored: "rs_disk (snd (survivors_of tests parse fnames survivors st)) = rs_disk st"
proof (induction fnames arbitrary: survivors st)
  case (Cons fname fnames)
  obtain r st1 where m: "mutate_file tests parse fname survivors st = (r, st1)" by (metis surj_pair)
  then have "rs_disk st1 = rs_disk st" using mutate_file_restores by (metis snd_conv)
  with m Cons.IH show ?case by (cases r) auto
qed simp

text \<open>What the run is meant to find: the mutants on which the test command passes.\<close>

definition passing_mutants :: "(string \<Rightarrow> string \<Rightarrow> ended) \<Rightarrow> (string \<Rightarrow> ts_node) \<Rightarrow> disk \<Rightarrow> string \<Rightarrow> mutant list" where
  "passing_mutants verdict parse d fname =
    filter (\<lambda>m. passed (verdict fname (mu_text m))) (mutants_of parse fname (d fname))"

lemma run_mutants_verdicts:
  assumes "\<And>n. tests n = verdict"
    and "run_mutants tests fname mutants survivors st = (Returns found, st')"
  shows "found = survivors @ filter (\<lambda>m. passed (verdict fname (mu_text m))) mutants"
  using assms(2)
proof (induction mutants arbitrary: survivors st)
  case (Cons m mutants)
  then obtain status where "verdict fname (mu_text m) = Exited status"
    by (auto simp: assms(1) run_command_def write_file_def split: ended.splits)
  with Cons.prems Cons.IH [of "survivors @ [m]"] Cons.IH [of survivors] show ?case
    by (simp add: assms(1) run_command_def write_file_def split: if_splits)
qed simp

lemma mutate_file_verdicts:
  assumes "\<And>n. tests n = verdict"
    and "mutate_file tests parse fname survivors st = (Returns found, st')"
  shows "found = survivors @ passing_mutants verdict parse (rs_disk st) fname"
proof -
  let ?m = "mutants_of parse fname (rs_disk st fname)"
  obtain r st1 where req: "require_passing tests fname (length ?m) st = (r, st1)" by (metis surj_pair)
  obtain o2 st2 where run: "run_mutants tests fname ?m survivors st1 = (o2, st2)" by (metis surj_pair)
  from assms(2) req run have "o2 = Returns found"
    by (cases r) (auto simp: mutate_file_def Let_def split: prod.splits)
  with run_mutants_verdicts [OF assms(1)] run show ?thesis by (simp add: passing_mutants_def)
qed

text \<open>
  The report is exact: with a test command whose verdict depends on the file's content only, a
  run that ends reports precisely the mutants on which the command passes, in order.
\<close>

lemma survivors_are_the_passing_mutants:
  assumes "\<And>n. tests n = verdict"
    and "fst (survivors_of tests parse fnames [] st) = Returns found"
  shows "found = concat (map (passing_mutants verdict parse (rs_disk st)) fnames)"
proof -
  have "fst (survivors_of tests parse fnames survivors st) = Returns found \<Longrightarrow>
      found = survivors @ concat (map (passing_mutants verdict parse (rs_disk st)) fnames)" for survivors
  proof (induction fnames arbitrary: survivors st)
    case (Cons fname fnames)
    obtain r st1 where m: "mutate_file tests parse fname survivors st = (r, st1)" by (metis surj_pair)
    with Cons.prems obtain s1 where r: "r = Returns s1" by (cases r) auto
    from m mutate_file_restores have d: "rs_disk st1 = rs_disk st" by (metis snd_conv)
    from Cons.prems m r have "fst (survivors_of tests parse fnames s1 st1) = Returns found" by simp
    from Cons.IH [OF this] mutate_file_verdicts [OF assms(1) m [unfolded r]] d show ?case by simp
  qed simp
  from this [OF assms(2)] show ?thesis by simp
qed

text \<open>A table of two numbers; the test command passes as long as the first one is there.\<close>

definition sample_src :: string where
  "sample_src = ''[1,2] as const''"

definition sample_parse_tree :: "string \<Rightarrow> ts_node" where
  "sample_parse_tree src = Ts_node (As_expression ''const'') 0 0 14
    [Ts_node (Array_literal 4) 0 0 5
       [Ts_node (Numeric_literal ''1'') 1 1 2 [], Ts_node (Numeric_literal ''2'') 3 3 4 []],
     Ts_node Other_node 8 9 14 []]"

definition sample_verdict :: "string \<Rightarrow> string \<Rightarrow> ended" where
  "sample_verdict fname contents = Exited (Some (if starts_with ''[1'' contents then 0 else 1))"

definition sample_state :: run_state where
  "sample_state = \<lparr>rs_disk = (\<lambda>_. sample_src), rs_commands = 0\<rparr>"

lemma entry_mutants_texts:
  "map mu_text (entry_mutants path src entries list_end i) =
     without_entry src entries list_end i
       # (case with_number_bumped src (entries ! i) of None \<Rightarrow> [] | Some bumped \<Rightarrow> [bumped])"
  by (simp add: entry_mutants_def Let_def split: option.split)

lemma sample_tables:
  "const_tables (sample_parse_tree sample_src) =
     [Ts_node (Array_literal 4) 0 0 5
       [Ts_node (Numeric_literal ''1'') 1 1 2 [], Ts_node (Numeric_literal ''2'') 3 3 4 []]]"
  by (simp add: sample_parse_tree_def asserted_of_def is_const_assertion_def is_literal_def Let_def)

lemma sample_integers: "test PLAIN_INTEGER False ''1''" "test PLAIN_INTEGER False ''2''"
  by code_simp+

lemma sample_bumps:
  "with_number_bumped sample_src (Ts_node (Numeric_literal ''1'') 1 1 2 []) = Some ''[2,2] as const''"
  "with_number_bumped sample_src (Ts_node (Numeric_literal ''2'') 3 3 4 []) = Some ''[1,3] as const''"
  using sample_integers
  by (simp_all add: with_number_bumped_def number_of_entry_def substring_def sample_src_def max_safe_integer_def
      number_of_def digit_value_def decimal.simps [of "Suc (Suc 0)"] decimal.simps [of 3] is_digit_code digit_char_def char_of_def bit_0)

lemma sample_mutants:
  "map mu_text (mutants_of sample_parse_tree ''t.ts'' sample_src) =
     [''[2] as const'', ''[2,2] as const'', ''[1] as const'', ''[1,3] as const'']"
  using sample_bumps
  by (simp add: mutants_of_def sample_tables table_mutants_def upt_rec entry_mutants_texts without_entry_def)
    (simp add: sample_src_def)

text \<open>A test command that always ends with a status, and passes on the files as they are, is run to the end.\<close>

lemma run_mutants_return:
  assumes "\<And>n f t. \<exists>status. tests n f t = Exited status"
  shows "\<exists>found. fst (run_mutants tests fname mutants survivors st) = Returns found"
proof (induction mutants arbitrary: survivors st)
  case (Cons m mutants)
  obtain status where "tests (rs_commands st) fname (mu_text m) = Exited status" using assms by blast
  with Cons.IH show ?case by (simp add: run_command_def write_file_def)
qed simp

lemma sample_run_returns:
  "\<exists>found. fst (survivors_of (\<lambda>_. sample_verdict) sample_parse_tree [''t.ts''] [] sample_state) = Returns found"
proof -
  let ?m = "mutants_of sample_parse_tree ''t.ts'' sample_src"
  have req: "fst (require_passing (\<lambda>_. sample_verdict) ''t.ts'' (length ?m) sample_state) = Returns ()"
    by (simp add: require_passing_def run_command_def sample_verdict_def sample_state_def passed_def)
      (simp add: sample_src_def)
  obtain r st1 where r: "require_passing (\<lambda>_. sample_verdict) ''t.ts'' (length ?m) sample_state = (r, st1)"
    by (metis surj_pair)
  obtain found where "fst (run_mutants (\<lambda>_. sample_verdict) ''t.ts'' ?m [] st1) = Returns found"
    using run_mutants_return [of "\<lambda>_. sample_verdict" "''t.ts''" ?m "[]" st1] by (auto simp: sample_verdict_def)
  with r req show ?thesis
    by (cases "run_mutants (\<lambda>_. sample_verdict) ''t.ts'' ?m [] st1")
      (simp add: mutate_file_def sample_state_def Let_def)
qed

lemma survivors_are_the_passing_mutants_witness:
  "\<exists>found. fst (survivors_of (\<lambda>_. sample_verdict) sample_parse_tree [''t.ts''] [] sample_state) = Returns found
     \<and> map mu_text found = [''[1] as const'', ''[1,3] as const'']"
proof -
  obtain found where run: "fst (survivors_of (\<lambda>_. sample_verdict) sample_parse_tree [''t.ts''] [] sample_state)
      = Returns found"
    using sample_run_returns by blast
  have "rs_disk sample_state ''t.ts'' = sample_src" by (simp add: sample_state_def)
  with survivors_are_the_passing_mutants [of "\<lambda>_. sample_verdict" sample_verdict, OF refl run]
  have "found = filter (\<lambda>m. passed (sample_verdict ''t.ts'' (mu_text m)))
      (mutants_of sample_parse_tree ''t.ts'' sample_src)"
    by (simp only: passing_mutants_def list.map concat.simps append_Nil2)
  then have "map mu_text found = filter (\<lambda>t. passed (sample_verdict ''t.ts'' t))
      (map mu_text (mutants_of sample_parse_tree ''t.ts'' sample_src))"
    by (simp only: filter_map o_def)
  also have "\<dots> = [''[1] as const'', ''[1,3] as const'']"
    unfolding sample_mutants by (simp add: sample_verdict_def passed_def)
  finally show ?thesis using run by (intro exI [of _ found] conjI)
qed

end
