(* ===== verification/Directives.thy ===== *)
theory Directives
  imports ApiSurface
begin

text \<open>
  The gate on mutation directives (\<open>src/scripts/check-mutation-directives.mjs\<close>): every
  \<open>// Stryker\<close> comment of the production source has to be one that Stryker parses, names known
  mutators and carries its reason on the same line.

  The mutator names of the installed Stryker are an argument, absent when they cannot be loaded.
  A file system is the tree \<open>fs_node\<close>; a message is a constructor of \<open>directive_problem\<close>.
\<close>

section \<open>The grammar\<close>

definition char_range :: "char \<Rightarrow> char \<Rightarrow> char \<Rightarrow> bool" where
  "char_range a b c \<longleftrightarrow> a \<le> c \<and> c \<le> b"

definition letter :: "char \<Rightarrow> bool" where
  "letter c \<longleftrightarrow> char_range (CHR ''a'') (CHR ''z'') c \<or> char_range (CHR ''A'') (CHR ''Z'') c"

definition list_char :: "char \<Rightarrow> bool" where
  "list_char c \<longleftrightarrow> letter c \<or> c = CHR '','' \<or> c = CHR '' ''"

definition DIRECTIVE_TAIL :: regex where
  "DIRECTIVE_TAIL = Cat (Group 3 (some (Cls list_char)))
     (Opt (Cat (chr CHR '':'') (Opt (Group 4 (some any_char)))))"

definition STRYKER_DIRECTIVE_RE :: regex where
  "STRYKER_DIRECTIVE_RE = Cat LineStart (cats
    [Opt space, lit ''Stryker '', Group 1 (Alt (lit ''disable'') (lit ''restore'')),
     Opt (Cat (chr CHR '' '') (Group 2 (lit ''next-line''))), chr CHR '' '', DIRECTIVE_TAIL])"

definition COMMENT_RE :: regex where
  "COMMENT_RE = Cat LineStart (cats [many space, lit ''//'', many space, lit ''Stryker'', WordBoundary])"

definition WILDCARD :: string where
  "WILDCARD = ''all''"

definition CONTINUATION_RE :: regex where
  "CONTINUATION_RE = cats [LineStart, lit ''//'', many space, Cls (char_range (CHR ''a'') (CHR ''z''))]"

definition TOOL_DIRECTIVE_RE :: regex where
  "TOOL_DIRECTIVE_RE = cats
    [LineStart, lit ''//'', many space,
     alts [cats [Opt (chr CHR ''@''),
             alts (map caseless [''ts'', ''eslint'', ''prettier'', ''biome'', ''dprint'', ''deno'', ''c8'', ''v8'',
               ''istanbul'', ''stryker'', ''webpack'', ''vite'']), WordBoundary],
           cats [chr CHR ''#'', alts (map caseless [''region'', ''endregion'']), WordBoundary]]]"

section \<open>One file\<close>

datatype directive_problem =
    Not_a_directive
  | Empty_entry
  | Unknown_mutator string
  | Reason_after_dashes
  | No_reason
  | Reason_continues

definition mutator_problem :: "string list option \<Rightarrow> string \<Rightarrow> directive_problem list" where
  "mutator_problem known mutator =
    (if mutator = [] then [Empty_entry]
     else if mutator = WILDCARD then []
     else case known of None \<Rightarrow> []
       | Some names \<Rightarrow> if to_lower mutator \<in> set names then [] else [Unknown_mutator mutator])"

definition reason_problems :: "string \<Rightarrow> string \<Rightarrow> string \<Rightarrow> directive_problem list" where
  "reason_problems line reason next_line =
    (if trim reason = [] then [if includes_text '' -- '' line then Reason_after_dashes else No_reason]
     else if test CONTINUATION_RE False next_line \<and> \<not> test TOOL_DIRECTIVE_RE False next_line
       then [Reason_continues] else [])"

definition inspect_line :: "string list option \<Rightarrow> string \<Rightarrow> string \<Rightarrow> directive_problem list" where
  "inspect_line known line next_line =
    (if \<not> test COMMENT_RE False line then []
     else case exec STRYKER_DIRECTIVE_RE False (drop 2 (trim line)) 0 of
       None \<Rightarrow> [Not_a_directive]
     | Some m \<Rightarrow>
         concat (map (mutator_problem known) (map trim (split_on CHR '','' (the_group m 3))))
         @ (if the_group m 1 = ''restore'' then [] else reason_problems line (the_group m 4) next_line))"

definition inspect :: "string list option \<Rightarrow> string \<Rightarrow> (nat \<times> directive_problem) list" where
  "inspect known contents =
    (let ls = lines_of contents
     in concat (map (\<lambda>i. map (Pair (i + 1))
          (inspect_line known (ls ! i) (if i + 1 < length ls then trim (ls ! (i + 1)) else [])))
        [0..<length ls]))"

section \<open>The run\<close>

definition TYPESCRIPT_RE :: regex where
  "TYPESCRIPT_RE = cats [lit ''.ts'', Opt (chr CHR ''x''), LineEnd]"

definition TEST_FILE_RE :: regex where
  "TEST_FILE_RE = cats
    [chr CHR ''.'', alts [lit ''spec'', lit ''test'', lit ''d''], lit ''.ts'', Opt (chr CHR ''x''), LineEnd]"

fun sources_under :: "string \<Rightarrow> (string \<times> fs_node) list \<Rightarrow> (string \<times> string) list" where
  "sources_under dir [] = []"
| "sources_under dir ((name, Dir_node es) # rest) =
    sources_under (dir @ ''/'' @ name) es @ sources_under dir rest"
| "sources_under dir ((name, File_node contents) # rest) =
    (if test TYPESCRIPT_RE False name \<and> \<not> test TEST_FILE_RE False name
     then [(dir @ ''/'' @ name, contents)] else []) @ sources_under dir rest"

definition source_files :: "string \<Rightarrow> (string \<times> fs_node) list \<Rightarrow> (string \<times> string) list" where
  "source_files dir es = sort_key fst (sources_under dir es)"

text \<open>\<open>mutators\<close> are the names of the installed Stryker, compared without their case.\<close>

definition directive_gate ::
    "string list option \<Rightarrow> (string \<times> fs_node) list \<Rightarrow> (string \<times> nat \<times> directive_problem) list" where
  "directive_gate mutators es =
    (let known = map_option (map to_lower) mutators
     in concat (map (\<lambda>(path, contents). map (Pair path) (inspect known contents)) (source_files ''src'' es)))"

definition directive_exit :: "(string \<times> nat \<times> directive_problem) list \<Rightarrow> nat" where
  "directive_exit problems = (if problems = [] then 0 else 1)"

section \<open>Well-written directives\<close>

lemma letter_code: "letter c \<longleftrightarrow>
    97 \<le> (of_char c :: nat) \<and> (of_char c :: nat) \<le> 122 \<or> 65 \<le> (of_char c :: nat) \<and> (of_char c :: nat) \<le> 90"
  by (simp add: letter_def char_range_def less_eq_char_def)

lemma letter_no_space: "letter c \<Longrightarrow> \<not> js_space c"
  by (auto simp: letter_code js_space_def)

lemma letter_no_comma: "\<not> letter CHR '',''"
  by (simp add: letter_code)

lemma trim_end_id: "s = [] \<or> \<not> js_space (last s) \<Longrightarrow> trim_end s = s"
  by (cases s rule: rev_cases) (auto simp: trim_end_def)

lemma trim_end_blanks: "\<not> js_space (last s) \<or> s = [] \<Longrightarrow> blank t \<Longrightarrow> trim_end (s @ t) = s"
proof (induction t rule: rev_induct)
  case Nil
  then show ?case using trim_end_id [of s] by auto
next
  case (snoc c t)
  then show ?case by (auto simp: trim_end_def blank_def)
qed

lemma trim_pieces:
  assumes "blank u" and "s \<noteq> []" and "\<not> js_space (hd s)" and "\<not> js_space (last s)" and "blank t"
  shows "trim (u @ s @ t) = s"
proof -
  have "dropWhile js_space (u @ s @ t) = s @ t"
    using assms(1,2,3) by (subst dropWhile_append2) (auto simp: blank_def list_all_iff dropWhile_eq_self_iff hd_append)
  with trim_end_blanks [of s t] assms(4,5) show ?thesis by (simp add: trim_def)
qed

text \<open>
  A directive up to its list: the action, with or without \<open>next-line\<close>. What the grammar captures of it, and
  where the list starts.
\<close>

abbreviation directive_head :: "string \<Rightarrow> bool \<Rightarrow> string" where
  "directive_head act scoped \<equiv> '' Stryker '' @ act @ (if scoped then '' next-line'' else []) @ '' ''"

abbreviation head_captures :: "string \<Rightarrow> bool \<Rightarrow> captures" where
  "head_captures act scoped \<equiv> (if scoped then [(2, ''next-line'')] else []) @ [(1, act)]"

abbreviation head_length :: "bool \<Rightarrow> nat" where
  "head_length scoped \<equiv> (if scoped then 27 else 17)"

definition action :: "string \<Rightarrow> bool" where
  "action act \<longleftrightarrow> act = ''disable'' \<or> act = ''restore''"

lemma directive_action:
  assumes "drop 9 s = act @ rest" and "action act"
  shows "first_match (Group 1 (Alt (lit ''disable'') (lit ''restore''))) False s (9, []) (16, [(1, act)])"
proof (rule first_Group)
  show "act = substring 9 16 s" using assms by (intro substring_piece [symmetric]) (auto simp: action_def)
  show "first_match (Alt (lit ''disable'') (lit ''restore'')) False s (9, []) (16, [])"
  proof (cases "act = ''disable''")
    case True
    with assms(1) have "first_match (lit ''disable'') False s (9, []) (16, [])" by (intro first_lit) simp_all
    then show ?thesis by (rule first_Alt)
  next
    case False
    with assms have d: "drop 9 s = ''restore'' @ rest" by (simp add: action_def)
    then have "first_match (lit ''restore'') False s (9, []) (16, [])" by (rule first_lit) simp
    moreover have "successes (lit ''disable'') False s (9, []) = []"
      unfolding successes_lit using d by simp
    ultimately show ?thesis by (intro first_Alt_second)
  qed
qed

lemma directive_parse:
  assumes s: "s = directive_head act scoped @ body" and act: "action act"
    and body: "\<not> starts_with ''next-line'' body"
    and tail: "first_match DIRECTIVE_TAIL False s (head_length scoped, head_captures act scoped) (j, cs)"
  shows "exec STRYKER_DIRECTIVE_RE False s 0 = Some \<lparr>m_start = 0, m_end = j, m_captures = cs\<rparr>"
proof -
  let ?scope = "Cat (chr CHR '' '') (Group 2 (lit ''next-line''))"
  have len: "length act = 7" using act by (auto simp: action_def)
  have d: "drop 1 s = ''Stryker '' @ act @ (if scoped then '' next-line'' else []) @ '' '' @ body"
    "drop 9 s = act @ (if scoped then '' next-line'' else []) @ '' '' @ body"
    "drop 16 s = (if scoped then '' next-line'' else []) @ '' '' @ body"
    using drop_piece [of 9 s act "(if scoped then '' next-line'' else []) @ '' '' @ body"] len by (simp_all add: s)
  have "first_match LineStart False s (0, []) (0, [])" by (simp add: first_match_def at_line_start_def)
  moreover have "first_match (Opt space) False s (0, []) (1, [])"
    unfolding space_def by (rule first_Opt) (simp_all add: cleared_def first_match_def s js_space_def)
  moreover have "first_match (lit ''Stryker '') False s (1, []) (9, [])" by (rule first_lit [OF d(1)]) simp
  moreover note directive_action [OF d(2) act]
  moreover have "first_match (Opt ?scope) False s (16, [(1, act)]) (head_length scoped - 1, head_captures act scoped)"
  proof (cases scoped)
    case True
    then have d: "drop 16 s = CHR '' '' # ''next-line '' @ body" "drop 17 s = ''next-line'' @ '' '' @ body"
      using d(3) drop_piece [of 16 s "'' ''"] by simp_all
    have "first_match (chr CHR '' '') False s (16, [(1, act)]) (Suc 16, [(1, act)])" by (rule first_Cls [OF d(1)]) simp
    moreover have "first_match (Group 2 (lit ''next-line'')) False s (17, [(1, act)]) (26, [(2, ''next-line''), (1, act)])"
    proof (rule first_Group)
      show "first_match (lit ''next-line'') False s (17, [(1, act)]) (26, [(1, act)])" by (rule first_lit [OF d(2)]) simp
      show "''next-line'' = substring 17 26 s" by (rule substring_piece [OF d(2), symmetric]) simp
    qed
    ultimately have "first_match ?scope False s (16, [(1, act)]) (26, [(2, ''next-line''), (1, act)])"
      by (intro first_Cat [of "chr CHR '' ''" _ _ _ "(17, [(1, act)])"]) simp_all
    then have "first_match (Opt ?scope) False s (16, [(1, act)]) (26, [(2, ''next-line''), (1, act)])"
      by (intro first_Opt) (simp_all add: cleared_def)
    with True show ?thesis by simp
  next
    case False
    then have "drop 16 s = CHR '' '' # body" using d(3) by simp
    then have "drop 17 s = body" using drop_piece [of 16 s "'' ''"] by simp
    with body have "successes (lit ''next-line'') False s (17, cs') = []" for cs'
      unfolding successes_lit by simp
    then have "successes (Group 2 (lit ''next-line'')) False s (17, cs') = []" for cs'
      by (simp only: successes.simps list.map)
    then have "successes ?scope False s (cleared ?scope (16, [(1, act)])) = []"
      by (simp add: cleared_def del: successes.simps(7))
    from first_Opt_skipped [OF this] False show ?thesis by simp
  qed
  moreover have "drop (head_length scoped - 1) s = CHR '' '' # body"
    using drop_piece [OF d(3)] by (simp split: if_splits)
  then have "first_match (chr CHR '' '') False s (head_length scoped - 1, cs') (Suc (head_length scoped - 1), cs')" for cs'
    by (rule first_Cls) simp
  then have "first_match (chr CHR '' '') False s (head_length scoped - 1, cs') (head_length scoped, cs')" for cs'
    by (simp split: if_splits)
  ultimately have "first_match STRYKER_DIRECTIVE_RE False s (0, []) (j, cs)"
    unfolding STRYKER_DIRECTIVE_RE_def cats.simps using tail by (blast intro: first_Cat)
  then show ?thesis unfolding STRYKER_DIRECTIVE_RE_def exec_line_start by (rule first_match_at)
qed

text \<open>A list, of letters, commas and spaces, and what ends it.\<close>

definition list_ends :: "string \<Rightarrow> string \<Rightarrow> bool" where
  "list_ends ms rest \<longleftrightarrow> ms \<noteq> [] \<and> list_all list_char ms
     \<and> (\<exists>c r. rest = c # r \<and> (c = CHR '':'' \<or> c = CHR ''-'' \<and> last ms = CHR '' ''))"

lemma list_ends_not_next_line: "list_ends ms rest \<Longrightarrow> \<not> starts_with ''next-line'' (ms @ rest)"
  by (auto simp: list_ends_def starts_with_iff append_eq_Cons_conv list_char_def letter_code)

lemma list_ends_stops: "list_ends ms rest \<Longrightarrow> rest = [] \<or> \<not> list_char (hd rest)"
  by (auto simp: list_ends_def list_char_def letter_code)

lemma list_piece:
  assumes "s = directive_head act scoped @ ms @ rest" and "action act" and "list_ends ms rest"
  shows "first_match (Group 3 (some (Cls list_char))) False s (head_length scoped, cs)
      (head_length scoped + length ms, (3, ms) # cs)"
    and "drop (head_length scoped + length ms) s = rest"
proof -
  have d: "drop (head_length scoped) s = ms @ rest" using assms(1,2) by (auto simp: action_def)
  have ms: "ms \<noteq> []" "list_all list_char ms" using assms(3) by (simp_all add: list_ends_def)
  show "first_match (Group 3 (some (Cls list_char))) False s (head_length scoped, cs)
      (head_length scoped + length ms, (3, ms) # cs)"
    by (rule first_Group [OF first_some [OF d ms list_ends_stops [OF assms(3)]]]) (rule substring_piece [OF d refl, symmetric])
  show "drop (head_length scoped + length ms) s = rest" using drop_piece [OF d] .
qed

lemma directive_with_reason:
  assumes s: "s = directive_head act scoped @ ms @ '':'' @ reason" and act: "action act" and ms: "list_ends ms ('':'' @ reason)"
    and reason: "reason \<noteq> []" "list_all (\<lambda>c. \<not> line_terminator c) reason"
  shows "\<exists>m. exec STRYKER_DIRECTIVE_RE False s 0 = Some m
    \<and> the_group m 1 = act \<and> the_group m 3 = ms \<and> the_group m 4 = reason"
proof -
  let ?i = "head_length scoped + length ms" and ?hs = "head_captures act scoped" and ?r = "Opt (Group 4 (some any_char))"
  let ?cs = "(3, ms) # ?hs" and ?j = "Suc ?i + length reason"
  note g = list_piece(1) [OF s act ms, where cs = ?hs] and d = list_piece(2) [OF s act ms]
  from drop_piece [OF d] have d': "drop (Suc ?i) s = reason @ []" by simp
  have "first_match ?r False s (Suc ?i, ?cs) (?j, (4, reason) # ?cs)"
  proof (rule first_Opt)
    have "first_match (some any_char) False s (Suc ?i, ?cs) (?j, ?cs)"
      unfolding any_char_def by (rule first_some [OF d']) (use reason in auto)
    from first_Group [OF this substring_piece [OF d' refl, symmetric]]
    show "first_match (Group 4 (some any_char)) False s
        (cleared (Group 4 (some any_char)) (Suc ?i, ?cs)) (?j, (4, reason) # ?cs)"
      by (simp add: cleared_def any_char_def)
  qed (use reason in simp)
  moreover have "first_match (chr CHR '':'') False s (?i, ?cs) (Suc ?i, ?cs)"
    by (rule first_Cls) (use d in auto)
  ultimately have "first_match (Cat (chr CHR '':'') ?r) False s (?i, ?cs) (?j, (4, reason) # ?cs)"
    by (rule first_Cat [rotated])
  then have "first_match (Opt (Cat (chr CHR '':'') ?r)) False s (?i, ?cs) (?j, (4, reason) # ?cs)"
    by (intro first_Opt) (simp_all add: cleared_def any_char_def)
  with g have "first_match DIRECTIVE_TAIL False s (head_length scoped, ?hs) (?j, (4, reason) # ?cs)"
    unfolding DIRECTIVE_TAIL_def by (rule first_Cat)
  from directive_parse [OF s act list_ends_not_next_line [OF ms] this] show ?thesis
    by (simp add: the_group_def captured_def)
qed

lemma directive_without_reason:
  assumes s: "s = directive_head act scoped @ ms @ rest" and act: "action act" and ms: "list_ends ms rest"
    and rest: "hd rest \<noteq> CHR '':''"
  shows "\<exists>m. exec STRYKER_DIRECTIVE_RE False s 0 = Some m
    \<and> the_group m 1 = act \<and> the_group m 3 = ms \<and> the_group m 4 = []"
proof -
  let ?i = "head_length scoped + length ms" and ?hs = "head_captures act scoped"
  let ?cs = "(3, ms) # ?hs"
  note g = list_piece(1) [OF s act ms, where cs = ?hs] and d = list_piece(2) [OF s act ms]
  have "successes (chr CHR '':'') False s (?i, ?cs) = []"
  proof (cases "?i < length s")
    case True
    then have "s ! ?i = hd rest" using d by (metis hd_drop_conv_nth)
    with rest show ?thesis by simp
  qed simp
  then have "first_match (Opt (Cat (chr CHR '':'') (Opt (Group 4 (some any_char))))) False s (?i, ?cs) (?i, ?cs)"
    by (intro first_Opt_skipped) (simp add: cleared_def any_char_def)
  with g have "first_match DIRECTIVE_TAIL False s (head_length scoped, ?hs) (?i, ?cs)"
    unfolding DIRECTIVE_TAIL_def by (rule first_Cat)
  from directive_parse [OF s act list_ends_not_next_line [OF ms] this] show ?thesis
    by (simp add: the_group_def captured_def)
qed

text \<open>A blank behind the list is not seen: the names are trimmed.\<close>

lemma trim_blank_end: "trim (x @ '' '') = trim x"
proof (cases "blank x")
  case True
  then have "blank (x @ '' '')" by (simp add: blank_def js_space_def)
  with True have "trim (x @ '' '') = []" "trim x = []" by (simp_all only: trim_empty_iff)
  then show ?thesis by simp
next
  case False
  then obtain c where "c \<in> set x" "\<not> js_space c" by (auto simp: blank_def list_all_iff)
  then have "dropWhile js_space (x @ '' '') = dropWhile js_space x @ '' ''" by (rule dropWhile_append1)
  then show ?thesis by (simp add: trim_def trim_end_def js_space_def)
qed

lemma split_snoc: "x \<noteq> c \<Longrightarrow> split_on c (s @ [x]) = butlast (split_on c s) @ [last (split_on c s) @ [x]]"
proof (induction s)
  case (Cons y s)
  then show ?case by (cases "split_on c s") (auto simp: Let_def)
qed simp

lemma names_blank_end: "map trim (split_on CHR '','' (ms @ '' '')) = map trim (split_on CHR '','' ms)"
proof -
  let ?l = "split_on CHR '','' ms"
  have "map trim (split_on CHR '','' (ms @ '' '')) = map trim (butlast ?l) @ [trim (last ?l)]"
    by (subst split_snoc) (simp_all add: trim_blank_end)
  also have "\<dots> = map trim (butlast ?l @ [last ?l])" by (simp only: map_append list.map)
  finally show ?thesis by simp
qed

lemma comment_recognized:
  assumes "blank indent"
  shows "test COMMENT_RE False (indent @ ''// Stryker '' @ rest)"
proof -
  let ?s = "indent @ ''// Stryker '' @ rest" and ?n = "length indent"
  have d: "drop 0 ?s = indent @ ''// Stryker '' @ rest" "drop ?n ?s = ''//'' @ '' Stryker '' @ rest"
    "drop (?n + 2) ?s = '' '' @ ''Stryker '' @ rest" "drop (?n + 3) ?s = ''Stryker'' @ '' '' @ rest"
    by simp_all
  have "first_match LineStart False ?s (0, []) (0, [])" by (simp add: first_match_def at_line_start_def)
  moreover have "first_match (many space) False ?s (0, []) (?n, [])"
    using first_many [OF d(1), of js_space False "[]"] assms by (simp add: space_def blank_def js_space_def)
  moreover have "first_match (lit ''//'') False ?s (?n, []) (?n + 2, [])"
    by (rule first_lit [OF d(2)]) simp
  moreover have "first_match (many space) False ?s (?n + 2, []) (?n + 3, [])"
    using first_many [OF d(3), of js_space False "[]"] by (simp add: space_def js_space_def numeral_3_eq_3)
  moreover have "first_match (lit ''Stryker'') False ?s (?n + 3, []) (?n + 10, [])"
    by (rule first_lit [OF d(4)]) simp
  moreover have "first_match WordBoundary False ?s (?n + 10, []) (?n + 10, [])"
    by (simp add: first_match_def at_word_boundary_def nth_append word_char_def is_digit_code less_eq_char_def)
  ultimately have "first_match COMMENT_RE False ?s (0, []) (?n + 10, [])"
    unfolding COMMENT_RE_def cats.simps by (blast intro: first_Cat)
  from first_match_at [OF this] show ?thesis
    unfolding test_def COMMENT_RE_def exec_line_start by simp
qed

lemma includes_text_middle: "includes_text p (u @ p @ v)"
proof (induction u)
  case Nil
  show ?case
  proof (cases "p @ v")
    case (Cons c s)
    then have "starts_with p (c # s)" unfolding starts_with_iff by metis
    with Cons show ?thesis by simp
  qed simp
qed (simp add: starts_with_iff)

lemma inspect_written:
  assumes "blank indent" and "\<not> js_space (last text)" and "text \<noteq> []" and "action act"
    and "exec STRYKER_DIRECTIVE_RE False (directive_head act scoped @ text) 0 = Some m"
    and "the_group m 1 = act" and "the_group m 3 = ms" and "the_group m 4 = reason"
  shows "inspect_line known (indent @ ''//'' @ directive_head act scoped @ text) next_line =
    concat (map (mutator_problem known) (map trim (split_on CHR '','' ms)))
    @ (if act = ''restore'' then [] else reason_problems (indent @ ''//'' @ directive_head act scoped @ text) reason next_line)"
proof -
  have "trim (indent @ (''//'' @ directive_head act scoped @ text) @ []) = ''//'' @ directive_head act scoped @ text"
    by (rule trim_pieces) (use assms(1-3) in \<open>auto simp: js_space_def\<close>)
  then have "drop 2 (trim (indent @ ''//'' @ directive_head act scoped @ text)) = directive_head act scoped @ text"
    by (simp only: append_Nil2) simp
  moreover have "test COMMENT_RE False (indent @ ''//'' @ directive_head act scoped @ text)"
    using comment_recognized [OF assms(1), of "act @ (if scoped then '' next-line'' else []) @ '' '' @ text"] by simp
  ultimately show ?thesis using assms(5-8) unfolding inspect_line_def by (simp only:) simp
qed

text \<open>
  C40. How a directive is read: a \<open>disable\<close> or a \<open>restore\<close>, with or without \<open>next-line\<close>, with any list of letters,
  commas and spaces, followed by a reason after a colon or after two dashes. Every entry between the commas is
  looked up, and reported if it is empty or unknown. A \<open>restore\<close> is reported for nothing else, its reason is
  not looked at. The reason of a \<open>disable\<close> reaches the report if it comes after a colon, and then only its going on
  in the next line is reported; after two dashes Stryker drops it, and the directive is
  always reported for that.
\<close>

theorem written_directives_are_read:
  assumes "blank indent" and "action act" and "ms \<noteq> []" and "list_all list_char ms"
    and "reason \<noteq> []" and "\<not> js_space (last reason)" and "list_all (\<lambda>c. \<not> line_terminator c) reason"
  shows "inspect_line known (indent @ ''//'' @ directive_head act scoped @ ms @ '':'' @ reason) next_line =
      concat (map (mutator_problem known) (map trim (split_on CHR '','' ms)))
      @ (if act = ''disable'' \<and> test CONTINUATION_RE False next_line \<and> \<not> test TOOL_DIRECTIVE_RE False next_line
         then [Reason_continues] else [])
    \<and> inspect_line known (indent @ ''//'' @ directive_head act scoped @ ms @ '' -- '' @ reason) next_line =
      concat (map (mutator_problem known) (map trim (split_on CHR '','' ms)))
      @ (if act = ''disable'' then [Reason_after_dashes] else [])"
proof -
  have reason: "trim reason \<noteq> []"
    using assms(5,6) by (auto simp: trim_empty_iff blank_def list_all_iff)
  have "list_ends ms ('':'' @ reason)" using assms(3,4) by (simp add: list_ends_def)
  from directive_with_reason [OF refl assms(2) this assms(5,7), of scoped]
  obtain m where "exec STRYKER_DIRECTIVE_RE False (directive_head act scoped @ ms @ '':'' @ reason) 0 = Some m"
    "the_group m 1 = act" "the_group m 3 = ms" "the_group m 4 = reason" by blast
  from inspect_written [OF assms(1) _ _ assms(2) this, of known next_line] reason assms(5,6)
  have colon: "inspect_line known (indent @ ''//'' @ directive_head act scoped @ ms @ '':'' @ reason) next_line =
      concat (map (mutator_problem known) (map trim (split_on CHR '','' ms)))
      @ (if act = ''restore'' then [] else if test CONTINUATION_RE False next_line \<and> \<not> test TOOL_DIRECTIVE_RE False next_line
         then [Reason_continues] else [])"
    by (simp add: reason_problems_def)
  let ?ms = "ms @ '' ''"
  have "list_ends ?ms (''-- '' @ reason)" using assms(4) by (simp add: list_ends_def list_char_def)
  from directive_without_reason [OF refl assms(2) this, of scoped]
  obtain m where "exec STRYKER_DIRECTIVE_RE False (directive_head act scoped @ ?ms @ ''-- '' @ reason) 0 = Some m"
    "the_group m 1 = act" "the_group m 3 = ?ms" "the_group m 4 = []" by auto
  from inspect_written [OF assms(1) _ _ assms(2) this, of known next_line] assms(5,6) names_blank_end [of ms]
    includes_text_middle [of "'' -- ''" "indent @ ''//'' @ directive_head act scoped @ ms" reason]
  have dashes: "inspect_line known (indent @ ''//'' @ directive_head act scoped @ ms @ '' -- '' @ reason) next_line =
      concat (map (mutator_problem known) (map trim (split_on CHR '','' ms)))
      @ (if act = ''restore'' then [] else [Reason_after_dashes])"
    by (simp add: reason_problems_def trim_def trim_end_def)
  from colon dashes assms(2) show ?thesis by (auto simp: action_def)
qed

theorem written_directives_are_read_witness:
  "inspect_line (Some [''blockstatement'']) ''  // Stryker disable next-line BlockStatement, : empty'' [] = [Empty_entry]
   \<and> inspect_line (Some [''blockstatement'']) ''  // Stryker restore all -- empty'' [] = []"
proof -
  let ?known = "Some [''blockstatement'']"
  have acts: "action ''disable''" "action ''restore''" by (simp_all add: action_def)
  have chars: "list_all list_char ''BlockStatement, ''" "list_all list_char ''all''" by code_simp+
  have found: "concat (map (mutator_problem ?known) (map trim (split_on CHR '','' ''BlockStatement, ''))) = [Empty_entry]"
    "concat (map (mutator_problem ?known) (map trim (split_on CHR '','' ''all''))) = []" by code_simp+
  have reason: "'' empty'' \<noteq> []" "\<not> js_space (last '' empty'')" "list_all (\<lambda>c. \<not> line_terminator c) '' empty''"
    "''empty'' \<noteq> []" "\<not> js_space (last ''empty'')" "list_all (\<lambda>c. \<not> line_terminator c) ''empty''" by code_simp+
  have next_line: "test CONTINUATION_RE False [] = False" and indent: "blank ''  ''" by code_simp+
  have texts: "''  '' @ ''//'' @ directive_head ''disable'' True @ ''BlockStatement, '' @ '':'' @ '' empty'' =
      ''  // Stryker disable next-line BlockStatement, : empty''"
    "''  '' @ ''//'' @ ('' Stryker '' @ ''restore'' @ [] @ '' '') @ ''all'' @ '' -- '' @ ''empty'' = ''  // Stryker restore all -- empty''"
    by simp_all
  have lists: "''BlockStatement, '' \<noteq> []" "''all'' \<noteq> []" "(''restore'' = ''disable'') = False" by simp_all
  note first = written_directives_are_read [OF indent acts(1) lists(1) chars(1) reason(1-3), of ?known True "[]",
      unfolded texts found next_line simp_thms if_False append_Nil2]
  note second = written_directives_are_read [OF indent acts(2) lists(2) chars(2) reason(4-6), of ?known False "[]",
      unfolded texts found lists(3) simp_thms if_False append_Nil2]
  from conjunct1 [OF first] conjunct2 [OF second] show ?thesis by (rule conjI)
qed

end
