(* ===== verification/TaskPool.thy ===== *)
theory TaskPool
  imports JsText JsRegex "HOL-Library.Multiset"
begin

text \<open>
  The task pool of the benchmark (\<open>pool\<close> of \<open>src/scripts/benchmark.mjs\<close>): \<open>limit\<close> loops share one
  counter, each takes the next index while there is one and awaits its task, and \<open>Promise.all\<close>
  waits for the loops.

  A loop is a lane: it awaits a task, has left its loop, or was ended by a rejected task. Up to
  its first \<open>await\<close> a loop runs when it is created; afterwards any awaited task may settle next.
\<close>

section \<open>The pool\<close>

datatype lane = Awaiting nat | Left_loop | Rejected nat

record pool_run =
  pl_next :: nat
  pl_lanes :: "lane list"
  pl_started :: "nat list"
  pl_settled :: "nat list"

text \<open>The head of the loop: \<open>while (next < count) await task(next++)\<close>.\<close>

definition take_next :: "nat \<Rightarrow> nat \<Rightarrow> pool_run \<Rightarrow> pool_run" where
  "take_next quota k s =
    (if pl_next s < quota
     then s\<lparr>pl_next := Suc (pl_next s), pl_lanes := (pl_lanes s)[k := Awaiting (pl_next s)],
            pl_started := pl_started s @ [pl_next s]\<rparr>
     else s\<lparr>pl_lanes := (pl_lanes s)[k := Left_loop]\<rparr>)"

definition create_loop :: "nat \<Rightarrow> pool_run \<Rightarrow> pool_run" where
  "create_loop quota s =
    take_next quota (length (pl_lanes s)) (s\<lparr>pl_lanes := pl_lanes s @ [Left_loop]\<rparr>)"

definition start_pool :: "nat \<Rightarrow> nat \<Rightarrow> pool_run" where
  "start_pool quota limit =
    (create_loop quota ^^ limit) \<lparr>pl_next = 0, pl_lanes = [], pl_started = [], pl_settled = []\<rparr>"

definition task_fulfilled :: "nat \<Rightarrow> nat \<Rightarrow> nat \<Rightarrow> pool_run \<Rightarrow> pool_run" where
  "task_fulfilled quota k i s = take_next quota k (s\<lparr>pl_settled := pl_settled s @ [i]\<rparr>)"

definition task_rejected :: "nat \<Rightarrow> nat \<Rightarrow> pool_run \<Rightarrow> pool_run" where
  "task_rejected k i s =
    s\<lparr>pl_settled := pl_settled s @ [i], pl_lanes := (pl_lanes s)[k := Rejected i]\<rparr>"

text \<open>One awaited task settles; the flag says whether a task may reject.\<close>

inductive pool_step :: "bool \<Rightarrow> nat \<Rightarrow> pool_run \<Rightarrow> pool_run \<Rightarrow> bool" for failing quota where
  fulfilled: "k < length (pl_lanes s) \<Longrightarrow> pl_lanes s ! k = Awaiting i
    \<Longrightarrow> pool_step failing quota s (task_fulfilled quota k i s)"
| rejected: "failing \<Longrightarrow> k < length (pl_lanes s) \<Longrightarrow> pl_lanes s ! k = Awaiting i
    \<Longrightarrow> pool_step failing quota s (task_rejected k i s)"

text \<open>\<open>Promise.all\<close>: fulfilled when every loop has ended, rejected as soon as one was rejected.\<close>

datatype pool_outcome = Pool_pending | Pool_fulfilled | Pool_rejected

definition is_rejected :: "lane \<Rightarrow> bool" where
  "is_rejected l = (case l of Rejected _ \<Rightarrow> True | _ \<Rightarrow> False)"

definition pool_outcome_of :: "pool_run \<Rightarrow> pool_outcome" where
  "pool_outcome_of s =
    (if list_ex is_rejected (pl_lanes s) then Pool_rejected
     else if list_all (\<lambda>l. l = Left_loop) (pl_lanes s) then Pool_fulfilled else Pool_pending)"

section \<open>The invariant\<close>

text \<open>The tasks the lanes await.\<close>

fun awaited :: "lane list \<Rightarrow> nat list" where
  "awaited [] = []"
| "awaited (Awaiting i # ls) = i # awaited ls"
| "awaited (_ # ls) = awaited ls"

lemma length_awaited: "length (awaited ls) \<le> length ls"
  by (induction ls rule: awaited.induct) auto

lemma awaited_append: "awaited (ls @ ls') = awaited ls @ awaited ls'"
  by (induction ls rule: awaited.induct) auto

lemma awaited_update:
  assumes "k < length ls"
  shows "mset (awaited (ls[k := l])) + mset (awaited [ls ! k]) = mset (awaited ls) + mset (awaited [l])"
proof -
  from id_take_nth_drop [OF assms] have ls: "awaited ls = awaited (take k ls @ [ls ! k] @ drop (Suc k) ls)"
    by simp
  have "ls[k := l] = take k ls @ [l] @ drop (Suc k) ls" using assms by (simp add: upd_conv_take_nth_drop)
  with ls show ?thesis by (cases l; cases "ls ! k") (simp_all add: awaited_append)
qed

text \<open>
  Every index below the counter was started once, in order, and is awaited or settled; a lane
  leaves its loop only when the counter has reached the end.
\<close>

definition tasks_ok :: "nat \<Rightarrow> pool_run \<Rightarrow> bool" where
  "tasks_ok quota s \<longleftrightarrow>
     pl_next s \<le> quota \<and> pl_started s = [0..<pl_next s]
   \<and> mset (pl_settled s) + mset (awaited (pl_lanes s)) = mset [0..<pl_next s]"

definition pool_inv :: "nat \<Rightarrow> pool_run \<Rightarrow> bool" where
  "pool_inv quota s \<longleftrightarrow> tasks_ok quota s \<and> (Left_loop \<in> set (pl_lanes s) \<longrightarrow> pl_next s = quota)"

lemma swap_parts:
  fixes a b c d n x :: "nat multiset"
  assumes "a + b = n + d" and "c + d = b + x"
  shows "a + c = n + x"
proof -
  have "a + c + d = a + (b + x)" by (simp only: add.assoc assms(2))
  also have "\<dots> = n + d + x" by (simp only: add.assoc [symmetric] assms(1))
  finally have "a + c + d = n + x + d" by (simp only: add.assoc add.commute [of d])
  then show ?thesis by simp
qed

lemma take_next_tasks:
  assumes "k < length (pl_lanes s)" and "pl_next s \<le> quota" and "pl_started s = [0..<pl_next s]"
    and "mset (pl_settled s) + mset (awaited (pl_lanes s)) = mset [0..<pl_next s] + mset (awaited [pl_lanes s ! k])"
  shows "tasks_ok quota (take_next quota k s)"
proof (cases "pl_next s < quota")
  case True
  have "mset (pl_settled s) + mset (awaited ((pl_lanes s)[k := Awaiting (pl_next s)])) =
      mset [0..<Suc (pl_next s)]"
    using swap_parts [OF assms(4) awaited_update [OF assms(1), of "Awaiting (pl_next s)"]] by simp
  with True assms(3) show ?thesis by (simp add: tasks_ok_def take_next_def)
next
  case False
  have "mset (pl_settled s) + mset (awaited ((pl_lanes s)[k := Left_loop])) = mset [0..<pl_next s]"
    using swap_parts [OF assms(4) awaited_update [OF assms(1), of Left_loop]] by simp
  with False assms(2,3) show ?thesis by (simp add: tasks_ok_def take_next_def)
qed

lemma take_next_left:
  assumes "\<And>j. j < length (pl_lanes s) \<Longrightarrow> j \<noteq> k \<Longrightarrow> pl_lanes s ! j = Left_loop \<Longrightarrow> pl_next s = quota"
    and "pl_next s \<le> quota"
  shows "Left_loop \<in> set (pl_lanes (take_next quota k s)) \<longrightarrow> pl_next (take_next quota k s) = quota"
proof
  assume left: "Left_loop \<in> set (pl_lanes (take_next quota k s))"
  show "pl_next (take_next quota k s) = quota"
  proof (cases "pl_next s < quota")
    case True
    with left obtain j where "j < length (pl_lanes s)" "(pl_lanes s)[k := Awaiting (pl_next s)] ! j = Left_loop"
      by (auto simp: take_next_def in_set_conv_nth)
    then have "pl_next s = quota" by (cases "j = k") (auto intro: assms(1) [of j])
    with True show ?thesis by simp
  qed (use assms(2) in \<open>simp add: take_next_def\<close>)
qed

lemma pool_inv_left: "pool_inv quota s \<Longrightarrow> j < length (pl_lanes s) \<Longrightarrow> pl_lanes s ! j = Left_loop \<Longrightarrow> pl_next s = quota"
  using nth_mem [of j "pl_lanes s"] by (simp add: pool_inv_def)

lemma create_loop_inv:
  assumes "pool_inv quota s"
  shows "pool_inv quota (create_loop quota s)"
proof -
  let ?s = "s\<lparr>pl_lanes := pl_lanes s @ [Left_loop]\<rparr>"
  have "tasks_ok quota (create_loop quota s)"
    unfolding create_loop_def
    by (rule take_next_tasks) (use assms in \<open>auto simp: pool_inv_def tasks_ok_def awaited_append\<close>)
  moreover have "Left_loop \<in> set (pl_lanes (create_loop quota s)) \<longrightarrow> pl_next (create_loop quota s) = quota"
    unfolding create_loop_def
    by (rule take_next_left)
      (use assms pool_inv_left [OF assms] in \<open>auto simp: nth_append less_Suc_eq pool_inv_def tasks_ok_def\<close>)
  ultimately show ?thesis by (simp add: pool_inv_def)
qed

lemma take_next_shape [simp]:
  "length (pl_lanes (take_next quota k s)) = length (pl_lanes s)"
  "pl_settled (take_next quota k s) = pl_settled s"
  by (simp_all add: take_next_def)

lemma create_loop_shape [simp]:
  "length (pl_lanes (create_loop quota s)) = Suc (length (pl_lanes s))"
  "pl_settled (create_loop quota s) = pl_settled s"
  by (simp_all add: create_loop_def)

lemma start_pool_inv:
  "pool_inv quota (start_pool quota limit) \<and> length (pl_lanes (start_pool quota limit)) = limit
   \<and> pl_settled (start_pool quota limit) = []"
  unfolding start_pool_def
proof (induction limit)
  case 0
  show ?case by (simp add: pool_inv_def tasks_ok_def)
next
  case (Suc limit)
  then show ?case by (simp add: create_loop_inv)
qed

lemma pool_step_inv:
  assumes "pool_step failing quota s t" and "pool_inv quota s"
  shows "pool_inv quota t \<and> length (pl_lanes t) = length (pl_lanes s)
    \<and> length (pl_settled t) = Suc (length (pl_settled s))"
  using assms
proof cases
  case (fulfilled k i)
  let ?s = "s\<lparr>pl_settled := pl_settled s @ [i]\<rparr>"
  have "tasks_ok quota (take_next quota k ?s)"
    by (rule take_next_tasks) (use fulfilled assms(2) in \<open>auto simp: pool_inv_def tasks_ok_def\<close>)
  moreover have "Left_loop \<in> set (pl_lanes (take_next quota k ?s)) \<longrightarrow> pl_next (take_next quota k ?s) = quota"
    by (rule take_next_left)
      (use pool_inv_left [OF assms(2)] assms(2) in \<open>auto simp: pool_inv_def tasks_ok_def\<close>)
  ultimately show ?thesis using fulfilled by (simp add: pool_inv_def task_fulfilled_def)
next
  case (rejected k i)
  have "Left_loop \<in> set ((pl_lanes s)[k := Rejected i]) \<Longrightarrow> Left_loop \<in> set (pl_lanes s)"
    using rejected by (auto simp: in_set_conv_nth nth_list_update split: if_splits)
  moreover have "mset (awaited (pl_lanes s)) = add_mset i (mset (awaited ((pl_lanes s)[k := Rejected i])))"
    using rejected awaited_update [of k "pl_lanes s" "Rejected i"] by simp
  ultimately show ?thesis
    using rejected assms(2) by (auto simp: pool_inv_def tasks_ok_def task_rejected_def)
qed

lemma pool_steps_inv:
  "(pool_step failing quota ^^ n) (start_pool quota limit) s \<Longrightarrow>
   pool_inv quota s \<and> length (pl_lanes s) = limit \<and> length (pl_settled s) = n"
proof (induction n arbitrary: s)
  case 0
  then show ?case using start_pool_inv [of quota limit] by simp
next
  case (Suc n)
  then obtain u where u: "(pool_step failing quota ^^ n) (start_pool quota limit) u"
      "pool_step failing quota u s" by auto
  from Suc.IH [OF u(1)] pool_step_inv [OF u(2)] show ?case by simp
qed

section \<open>What the pool does\<close>

lemma all_left_iff: "\<not> list_ex is_rejected ls \<Longrightarrow> list_all (\<lambda>l. l = Left_loop) ls \<longleftrightarrow> awaited ls = []"
  by (induction ls rule: awaited.induct) (auto simp: is_rejected_def)

lemma fulfilled_iff:
  assumes "pool_inv quota s" and "pl_lanes s \<noteq> []"
  shows "pool_outcome_of s = Pool_fulfilled \<longleftrightarrow>
    length (pl_settled s) = quota \<and> \<not> list_ex is_rejected (pl_lanes s)"
proof -
  have tasks: "mset (pl_settled s) + mset (awaited (pl_lanes s)) = mset [0..<pl_next s]" "pl_next s \<le> quota"
    and left: "Left_loop \<in> set (pl_lanes s) \<Longrightarrow> pl_next s = quota"
    using assms(1) by (auto simp: pool_inv_def tasks_ok_def)
  from arg_cong [OF tasks(1), of size] have size: "length (pl_settled s) + length (awaited (pl_lanes s)) = pl_next s"
    by simp
  note all_left = all_left_iff [of "pl_lanes s"]
  have "awaited (pl_lanes s) = [] \<Longrightarrow> \<not> list_ex is_rejected (pl_lanes s) \<Longrightarrow> pl_next s = quota"
    using all_left left assms(2) by (cases "pl_lanes s") auto
  moreover have "length (pl_settled s) = quota \<Longrightarrow> awaited (pl_lanes s) = []"
    using size tasks(2) by (metis add_leE add_le_same_cancel1 le_zero_eq length_0_conv)
  ultimately show ?thesis using all_left size by (auto simp: pool_outcome_of_def)
qed

lemma pending_steps:
  assumes "pool_outcome_of s = Pool_pending"
  shows "\<exists>t. pool_step failing quota s t"
proof -
  from assms obtain l where l: "l \<in> set (pl_lanes s)" "l \<noteq> Left_loop" "\<not> is_rejected l"
    by (auto simp: pool_outcome_of_def list_ex_iff list_all_iff split: if_splits)
  from l(2,3) obtain i where "l = Awaiting i" by (cases l) (auto simp: is_rejected_def)
  with l(1) obtain k where "k < length (pl_lanes s)" "pl_lanes s ! k = Awaiting i"
    by (metis in_set_conv_nth)
  then show ?thesis by (blast intro: fulfilled)
qed

text \<open>
  C39. The pool gets through, with a positive limit as all its callers give: in whatever order tasks settle, no index is started twice or skipped,
  at most \<open>limit\<close> tasks are in flight, there are never more than \<open>quota\<close> settlements, a pool that
  is still pending has a task to wait for, and it is fulfilled exactly when \<open>quota\<close> tasks have
  settled and none was rejected; then every index was run to its end once.
\<close>

theorem pool_gets_through:
  assumes "0 < limit" and "(pool_step failing quota ^^ n) (start_pool quota limit) s"
  shows "n \<le> quota \<and> pl_started s = [0..<pl_next s] \<and> length (awaited (pl_lanes s)) \<le> limit
    \<and> (pool_outcome_of s = Pool_pending \<longrightarrow> (\<exists>t. pool_step failing quota s t))
    \<and> (pool_outcome_of s = Pool_fulfilled \<longleftrightarrow> n = quota \<and> \<not> list_ex is_rejected (pl_lanes s))
    \<and> (n = quota \<longrightarrow> mset (pl_settled s) = mset [0..<quota])"
proof -
  from pool_steps_inv [OF assms(2)]
  have inv: "pool_inv quota s" and len: "length (pl_lanes s) = limit" and n: "length (pl_settled s) = n" by auto
  then have tasks: "mset (pl_settled s) + mset (awaited (pl_lanes s)) = mset [0..<pl_next s]" "pl_next s \<le> quota"
      "pl_started s = [0..<pl_next s]"
    by (simp_all add: pool_inv_def tasks_ok_def)
  from arg_cong [OF tasks(1), of size] n have size: "n + length (awaited (pl_lanes s)) = pl_next s" by simp
  have "mset (pl_settled s) = mset [0..<quota]" if "n = quota"
  proof -
    have "length (awaited (pl_lanes s)) = 0" using size tasks(2) that by linarith
    with size tasks(1) that show ?thesis by simp
  qed
  with size tasks n len length_awaited [of "pl_lanes s"] fulfilled_iff [OF inv] assms(1) pending_steps [of s]
  show ?thesis by auto
qed

theorem pool_gets_through_witness:
  "pool_outcome_of (task_fulfilled 3 0 2 (task_fulfilled 3 1 1 (task_fulfilled 3 0 0 (start_pool 3 2)))) = Pool_fulfilled"
proof -
  let ?a = "start_pool 3 2" let ?b = "task_fulfilled 3 0 0 ?a" let ?c = "task_fulfilled 3 1 1 ?b"
  let ?d = "task_fulfilled 3 0 2 ?c"
  have "pool_step False 3 ?a ?b" "pool_step False 3 ?b ?c" "pool_step False 3 ?c ?d"
    by (rule fulfilled; code_simp)+
  then have "(pool_step False 3 ^^ 3) (start_pool 3 2) ?d"
    by (auto simp: numeral_3_eq_3 relcompp.simps)
  from pool_gets_through [OF _ this] have "pool_outcome_of ?d = Pool_fulfilled \<longleftrightarrow> \<not> list_ex is_rejected (pl_lanes ?d)"
    by simp
  moreover have "\<not> list_ex is_rejected (pl_lanes ?d)" by code_simp
  ultimately show ?thesis by simp
qed

end
