(* ===== verification/Benchmark.thy ===== *)
theory Benchmark
  imports Prelude TaskPool
begin

text \<open>
  What the benchmark (\<open>src/scripts/benchmark.mjs\<close>) computes besides running its task pool
  (\<open>TaskPool\<close>): the reading of \<open>INFO\<close> and the command counts, the wait with a deadline, the batches
  of a burst, and the removal of the keys of the run. Elapsed times, percentiles and the printed
  tables are floating-point arithmetic on measurements and are left out.

  Redis is an argument: the text of an \<open>INFO\<close> section, and \<open>SCAN\<close> from a cursor to the next one
  with some keys. Counts are exact as long as they are below \<open>2 ^ 53\<close>.
\<close>

section \<open>INFO\<close>

fun split_crlf :: "string \<Rightarrow> string list" where
  "split_crlf (c # d # s) =
    (if c = CHR 0x0D \<and> d = newline then [] # split_crlf s
     else (case split_crlf (d # s) of l # ls \<Rightarrow> (c # l) # ls | [] \<Rightarrow> [[c]]))"
| "split_crlf s = [s]"

definition info_entry :: "string \<Rightarrow> (string \<times> string) option" where
  "info_entry line =
    (case find_index (\<lambda>c. c = CHR '':'') line of
       Some (Suc n) \<Rightarrow> Some (take (Suc n) line, drop (Suc (Suc n)) line)
     | _ \<Rightarrow> None)"

definition info :: "string \<Rightarrow> (string, string) jsmap" where
  "info contents = fold (\<lambda>line out. case info_entry line of None \<Rightarrow> out | Some (k, v) \<Rightarrow> AList.update k v out)
     (split_crlf contents) []"

definition CALLS_RE :: regex where
  "CALLS_RE = Cat (lit ''calls='') (Group 1 (some digit))"

definition calls_of :: "string \<Rightarrow> nat" where
  "calls_of v = (case exec CALLS_RE False v 0 of None \<Rightarrow> 0 | Some m \<Rightarrow> number_of (the_group m 1))"

definition command_calls :: "string \<Rightarrow> (string, nat) jsmap" where
  "command_calls commandstats =
    fold (\<lambda>(key, v). AList.update (replace_first (lit ''cmdstat_'') False (\<lambda>_. []) key) (calls_of v))
      (info commandstats) []"

definition calls_before :: "(string, nat) jsmap \<Rightarrow> string \<Rightarrow> nat" where
  "calls_before before cmd = (case map_of before cmd of None \<Rightarrow> 0 | Some n \<Rightarrow> n)"

definition call_delta :: "(string, nat) jsmap \<Rightarrow> (string, nat) jsmap \<Rightarrow> (string, nat) jsmap" where
  "call_delta before after =
    fold (\<lambda>(cmd, n) delta.
        let diff = int n - int (calls_before before cmd)
        in if 0 < diff \<and> cmd \<noteq> ''info'' then AList.update cmd (nat diff) delta else delta)
      after []"

lemma call_delta_fold:
  assumes "distinct (map fst after)"
  shows "map_of (fold (\<lambda>(cmd, n) delta.
        let diff = int n - int (calls_before before cmd)
        in if 0 < diff \<and> cmd \<noteq> ''info'' then AList.update cmd (nat diff) delta else delta) after d) cmd =
    (case map_of after cmd of
       None \<Rightarrow> map_of d cmd
     | Some n \<Rightarrow> if cmd \<noteq> ''info'' \<and> calls_before before cmd < n
                then Some (n - calls_before before cmd) else map_of d cmd)"
  using assms
proof (induction after arbitrary: d)
  case (Cons p after)
  obtain c n where p: "p = (c, n)" by (cases p)
  from Cons.prems have "map_of after c = None" "distinct (map fst after)" by (auto simp: p map_of_eq_None_iff)
  with Cons.IH show ?case
    by (auto simp: p Let_def update_conv' nat_diff_distrib' split: option.splits)
qed simp

text \<open>
  The difference counts, for each command but \<open>info\<close>, by how much its calls grew; a command that did
  not grow does not appear.
\<close>

lemma call_delta_lookup:
  assumes "distinct (map fst after)"
  shows "map_of (call_delta before after) cmd =
    (case map_of after cmd of
       None \<Rightarrow> None
     | Some n \<Rightarrow> if cmd \<noteq> ''info'' \<and> calls_before before cmd < n
                then Some (n - calls_before before cmd) else None)"
  unfolding call_delta_def by (subst call_delta_fold [OF assms]) (simp split: option.split)

text \<open>
  Connections other than the script's own (Redis always reports \<open>connected_clients\<close>), and a row of a
  table.
\<close>

definition clients :: "string \<Rightarrow> int" where
  "clients contents =
    (case map_of (info contents) ''connected_clients'' of None \<Rightarrow> 0 | Some v \<Rightarrow> int (number_of v)) - 1"

definition row :: "string list \<Rightarrow> string" where
  "row cells = ''| '' @ join_with '' | '' cells @ '' |''"

section \<open>Waiting\<close>

text \<open>
  \<open>until\<close>: what one round of the loop observes is whether the condition holds and the time in
  milliseconds; \<open>None\<close> is that the loop goes on after the observations given.
\<close>

datatype waited = Fulfilled | Timed_out

fun until_loop :: "nat \<Rightarrow> (bool \<times> nat) list \<Rightarrow> waited option" where
  "until_loop deadline [] = None"
| "until_loop deadline ((holds, now) # rounds) =
    (if holds then Some Fulfilled
     else if deadline < now then Some Timed_out
     else until_loop deadline rounds)"

definition wait_until :: "nat \<Rightarrow> (bool \<times> nat) list \<Rightarrow> waited option" where
  "wait_until now rounds = until_loop (now + 120000) rounds"

text \<open>Each round sleeps ten milliseconds before the next.\<close>

fun rounds_apart :: "nat \<Rightarrow> (bool \<times> nat) list \<Rightarrow> bool" where
  "rounds_apart earliest [] = True"
| "rounds_apart earliest ((_, now) # rounds) = (earliest \<le> now \<and> rounds_apart (now + 10) rounds)"

lemma until_loop_ends:
  "rounds_apart earliest rounds \<Longrightarrow> deadline < earliest + 10 * (length rounds - 1) \<Longrightarrow> rounds \<noteq> []
    \<Longrightarrow> until_loop deadline rounds \<noteq> None"
proof (induction rounds arbitrary: earliest)
  case (Cons r rounds)
  obtain holds now where r: "r = (holds, now)" by (cases r)
  show ?case
  proof (cases "rounds = []")
    case True
    with Cons.prems r show ?thesis by auto
  next
    case False
    then have "deadline < now + 10 + 10 * (length rounds - 1) \<or> holds \<or> deadline < now"
      using Cons.prems r by (cases rounds) auto
    with Cons.IH [of "now + 10"] Cons.prems(1) False show ?thesis by (auto simp: r)
  qed
qed simp

lemma until_loop_fulfilled:
  "until_loop deadline rounds = Some Fulfilled \<Longrightarrow> (\<exists>now. (True, now) \<in> set rounds)"
  by (induction rounds) (auto split: if_splits)

text \<open>A lost job cannot hang the run: the wait is over after some twelve thousand rounds.\<close>

lemma wait_until_ends:
  "rounds_apart now rounds \<Longrightarrow> 12001 < length rounds \<Longrightarrow> wait_until now rounds \<noteq> None"
  unfolding wait_until_def by (rule until_loop_ends) auto

section \<open>The batches of a burst\<close>

definition BULK_SIZE :: nat where
  "BULK_SIZE = 1000"

text \<open>The loop over \<open>at\<close>: \<open>enqueueBulk(name, jobs.slice(at, at + BULK_SIZE))\<close>.\<close>

function burst_batches :: "nat \<Rightarrow> 'a list \<Rightarrow> nat \<Rightarrow> 'a list list" where
  "burst_batches burst jobs i =
    (if i < burst then substring i (i + BULK_SIZE) jobs # burst_batches burst jobs (i + BULK_SIZE) else [])"
  by pat_completeness auto
termination by (relation "measure (\<lambda>(burst, _, i). burst - i)") (auto simp: BULK_SIZE_def)

declare burst_batches.simps [simp del]

lemma burst_batches_concat:
  "length jobs \<le> burst \<Longrightarrow> concat (burst_batches burst jobs i) = drop i jobs"
proof (induction burst jobs i rule: burst_batches.induct)
  case (1 burst jobs i)
  show ?case
  proof (cases "i < burst")
    case True
    with 1 have "concat (burst_batches burst jobs i) = substring i (i + BULK_SIZE) jobs @ drop (i + BULK_SIZE) jobs"
      by (subst burst_batches.simps) simp
    also have "\<dots> = drop i jobs"
      unfolding substring_def by (metis add_diff_cancel_left' append_take_drop_id drop_drop add.commute)
    finally show ?thesis .
  next
    case False
    with 1 show ?thesis by (subst burst_batches.simps) simp
  qed
qed

lemma burst_batches_sizes: "b \<in> set (burst_batches burst jobs i) \<Longrightarrow> length b \<le> BULK_SIZE"
proof (induction burst jobs i rule: burst_batches.induct)
  case (1 burst jobs i)
  show ?case
  proof (cases "i < burst")
    case True
    from 1(2) have "b = substring i (i + BULK_SIZE) jobs \<or> b \<in> set (burst_batches burst jobs (i + BULK_SIZE))"
      by (subst (asm) burst_batches.simps) (simp add: True)
    with 1(1) [OF True] show ?thesis by auto
  next
    case False
    with 1(2) show ?thesis by (subst (asm) burst_batches.simps) simp
  qed
qed

section \<open>Cleaning up\<close>

text \<open>
  \<open>cleanup\<close>: \<open>SCAN\<close> from cursor \<open>0\<close> until the cursor is \<open>0\<close> again, deleting the keys of each page;
  \<open>scan\<close> is a function of the cursor and the number of the call. Whether it ends is up to the server: the loop
  is partial.
\<close>

partial_function (option) cleanup_loop ::
    "(nat \<Rightarrow> string \<Rightarrow> string \<times> string list) \<Rightarrow> nat \<Rightarrow> string \<Rightarrow> string list \<Rightarrow> string list option" where
  "cleanup_loop scan i cursor deleted =
    (let (next_cursor, keys) = scan i cursor; deleted' = deleted @ keys
     in if next_cursor = ''0'' then Some deleted' else cleanup_loop scan (Suc i) next_cursor deleted')"

definition cleanup :: "(nat \<Rightarrow> string \<Rightarrow> string \<times> string list) \<Rightarrow> string list option" where
  "cleanup scan = cleanup_loop scan 0 ''0'' []"

text \<open>The cursors and pages of the successive calls.\<close>

fun cursor_at :: "(nat \<Rightarrow> string \<Rightarrow> string \<times> string list) \<Rightarrow> nat \<Rightarrow> string" where
  "cursor_at scan 0 = ''0''"
| "cursor_at scan (Suc n) = fst (scan n (cursor_at scan n))"

definition page_at :: "(nat \<Rightarrow> string \<Rightarrow> string \<times> string list) \<Rightarrow> nat \<Rightarrow> string list" where
  "page_at scan n = snd (scan n (cursor_at scan n))"

lemma cleanup_loop_ends:
  assumes "cursor_at scan (Suc (n + k)) = ''0''" and "\<forall>i. n < i \<and> i \<le> n + k \<longrightarrow> cursor_at scan i \<noteq> ''0''"
  shows "cleanup_loop scan n (cursor_at scan n) deleted = Some (deleted @ concat (map (page_at scan) [n..<Suc (n + k)]))"
  using assms
proof (induction k arbitrary: n deleted)
  case 0
  then show ?case by (subst cleanup_loop.simps) (simp add: page_at_def Let_def split_beta)
next
  case (Suc k)
  have "cursor_at scan (Suc n) \<noteq> ''0''" using Suc.prems(2) by auto
  moreover have "cleanup_loop scan (Suc n) (cursor_at scan (Suc n)) (deleted @ page_at scan n) =
      Some ((deleted @ page_at scan n) @ concat (map (page_at scan) [Suc n..<Suc (Suc n + k)]))"
    by (rule Suc.IH) (use Suc.prems in auto)
  ultimately show ?case
    by (subst cleanup_loop.simps) (simp add: page_at_def Let_def split_beta upt_rec [of n])
qed

text \<open>
  If the cursor comes back to \<open>0\<close> after \<open>k + 1\<close> calls and every key of the run is on one of the pages
  (what Redis documents of a full iteration), every key of the run is deleted.
\<close>

lemma cleanup_deletes_every_key:
  assumes "cursor_at scan (Suc k) = ''0''" and "\<forall>i. 0 < i \<and> i \<le> k \<longrightarrow> cursor_at scan i \<noteq> ''0''"
    and "keys \<subseteq> (\<Union>i\<le>k. set (page_at scan i))"
  shows "\<exists>deleted. cleanup scan = Some deleted \<and> keys \<subseteq> set deleted"
proof -
  have "cleanup scan = Some (concat (map (page_at scan) [0..<Suc k]))"
    using cleanup_loop_ends [of scan 0 k "[]"] assms(1,2) by (simp add: cleanup_def)
  moreover have "keys \<subseteq> set (concat (map (page_at scan) [0..<Suc k]))"
  proof
    fix x assume "x \<in> keys"
    with assms(3) obtain i where "i \<le> k" "x \<in> set (page_at scan i)" by auto
    then have "i \<in> set [0..<Suc k] \<and> x \<in> set (page_at scan i)" by (simp only: set_upt atLeastLessThan_iff) simp
    then show "x \<in> set (concat (map (page_at scan) [0..<Suc k]))" by (simp only: set_concat set_map) blast
  qed
  ultimately show ?thesis by blast
qed

end
