(* ===== verification/ConnectionTable.thy ===== *)
theory ConnectionTable
  imports Application NestModule Benchmark
begin

text \<open>
  The connection scenarios of the benchmark (\<open>connectionRow\<close> and its callers in
  \<open>src/scripts/benchmark.mjs\<close>), run on the model of the library: each boots an application, does
  something with its services, counts the connections held, closes the application and counts again.

  Redis's count of its clients is derived from the trace: the clients the library opened and has
  not hung up, and for each BullMQ consumer that is not closed the connections it opens itself.
  That number, one blocking connection in BullMQ 6, is an argument (\<open>own\<close>).
\<close>

section \<open>Counting connections\<close>

fun opened_in :: "call \<Rightarrow> nat set" where
  "opened_in (RedisNew c _ _) = {c}"
| "opened_in (RedisDuplicate _ c _) = {c}"
| "opened_in _ = {}"

fun consumer_in :: "call \<Rightarrow> nat set" where
  "consumer_in (Construct WorkerKind h _ _ _) = {h}"
| "consumer_in (Construct QueueEventsKind h _ _ _) = {h}"
| "consumer_in _ = {}"

fun closed_in :: "call \<Rightarrow> nat set" where
  "closed_in (Invoke h m _) = (if m = ''close'' then {h} else {})"
| "closed_in _ = {}"

definition open_clients :: "call list \<Rightarrow> nat set" where
  "open_clients cs = \<Union> (opened_in ` set cs) - released cs"

definition open_consumers :: "call list \<Rightarrow> nat set" where
  "open_consumers cs = \<Union> (consumer_in ` set cs) - \<Union> (closed_in ` set cs)"

definition held :: "nat \<Rightarrow> world \<Rightarrow> nat" where
  "held own w = card (open_clients (w_calls w)) + own * card (open_consumers (w_calls w))"

section \<open>Booting and closing\<close>

text \<open>
  \<open>boot\<close> (the name is taken by the state of a started application): no class of \<open>BenchModule\<close>
  carries processor metadata, so the discovery finds nothing to wire. A configuration that
  \<open>forRoot\<close> refuses ends the boot before anything is created.
\<close>

type_synonym booted = "resolver \<times> resolved_options \<times> application"

definition boot_module ::
    "env \<Rightarrow> url_parser \<Rightarrow> string \<Rightarrow> module_options \<Rightarrow> world \<Rightarrow> booted outcome \<times> world" where
  "boot_module E parse PREFIX options w =
    (let opts = (if mo_prefix options = None then options\<lparr>mo_prefix := Some PREFIX\<rparr> else options);
         ro = apply_defaults opts
     in andthen (for_root parse [provides OptionsToken [] GivenOptions] opts, w) (\<lambda>_ w0.
        let (started, r, w1) = init E opts w0
        in andthen (started, w1) (\<lambda>_ w2.
        andthen (new_flow_service E r (ro_flows_enabled ro) (ro_prefix ro) (ro_telemetry ro) w2) (\<lambda>fl w3.
          (Returns (r, ro, boot ro fl w3), w3)))))"

text \<open>\<open>app.close()\<close>: Nest runs the two hooks of the library in turn.\<close>

definition close_app :: "env \<Rightarrow> resolved_options \<Rightarrow> resolver \<Rightarrow> application \<Rightarrow> unit outcome \<times> world" where
  "close_app E ro r a =
    (case on_module_destroy E ro (ds_workers (ap_scan a)) (ds_events (ap_scan a)) (new_lifecycle, app_world a) of
       (Returns _, (lc, w)) \<Rightarrow>
         (let (res, (q, w1)) = on_application_shutdown E ro r (ap_flow a) lc (ap_queues a, w) in (res, w1))
     | (Throws x, (lc, w)) \<Rightarrow> (Throws x, w)
     | (Hangs, (lc, w)) \<Rightarrow> (Hangs, w))"

section \<open>What a scenario does\<close>

type_synonym scenario = "env \<Rightarrow> resolved_options \<Rightarrow> resolver \<Rightarrow> application \<Rightarrow> unit outcome \<times> application"

fun as_unit :: "'a outcome \<Rightarrow> unit outcome" where
  "as_unit (Returns _) = Returns ()"
| "as_unit (Throws x) = Throws x"
| "as_unit Hangs = Hangs"

definition idle :: scenario where
  "idle E ro r a = (Returns (), a)"

definition enqueues :: "string \<Rightarrow> scenario" where
  "enqueues n E ro r a =
    (let (res, (q, w)) = enqueue E ro r n ''j'' (Obj []) Undef (ap_queues a, app_world a)
     in (as_unit res, set_world w (a\<lparr>ap_queues := q\<rparr>)))"

text \<open>\<open>async () => undefined\<close>: which function the handler is makes no difference.\<close>

definition no_op_handler :: jsval where
  "no_op_handler = Fn 0"

definition registers :: "string \<Rightarrow> scenario" where
  "registers n E ro r a =
    (let (res, (wr, w)) = register E ro r n no_op_handler None (ds_workers (ap_scan a), app_world a)
     in (as_unit res, a\<lparr>ap_scan := (ap_scan a)\<lparr>ds_workers := wr, ds_world := w\<rparr>\<rparr>))"

definition observes :: "string \<Rightarrow> scenario" where
  "observes n E ro r a =
    (let (res, (ev, w)) = get_or_create_events E ro r n (ds_events (ap_scan a), app_world a)
     in (as_unit res, a\<lparr>ap_scan := (ap_scan a)\<lparr>ds_events := ev, ds_world := w\<rparr>\<rparr>))"

definition adds_flow :: "jsval \<Rightarrow> scenario" where
  "adds_flow f E ro r a =
    (let (res, (fl, w)) = flow_add E f (ap_flow a, app_world a)
     in (as_unit res, set_world w (a\<lparr>ap_flow := fl\<rparr>)))"

text \<open>The loops \<open>for (let i = 0; i < n; i += 1)\<close>: one step after the other.\<close>

fun one_by_one :: "scenario list \<Rightarrow> scenario" where
  "one_by_one [] E ro r a = (Returns (), a)"
| "one_by_one (s # ss) E ro r a = andthen (s E ro r a) (\<lambda>_. one_by_one ss E ro r)"

definition numbered :: "string \<Rightarrow> nat \<Rightarrow> string list" where
  "numbered stem n = map (\<lambda>i. stem @ decimal i) [0..<n]"

section \<open>A row of the table\<close>

definition string_of_int :: "int \<Rightarrow> string" where
  "string_of_int i = (if i < 0 then ''-'' @ decimal (nat (- i)) else decimal (nat i))"

text \<open>
  \<open>connectionRow\<close>, with the rows printed so far and the world as its state. Connections of other
  processes do not change in between.
\<close>

type_synonym table = "string list \<times> world"

definition connection_row ::
    "env \<Rightarrow> url_parser \<Rightarrow> nat \<Rightarrow> string \<Rightarrow> string \<Rightarrow> scenario \<Rightarrow> module_options \<Rightarrow> table \<Rightarrow> unit outcome \<times> table" where
  "connection_row E parse own PREFIX label scenario options t =
    (let (rows, w) = t; baseline = int (held own w)
     in case boot_module E parse PREFIX options w of
          (Returns (r, ro, a), w1) \<Rightarrow>
            (case scenario E ro r a of
               (Returns _, a1) \<Rightarrow>
                 (let a2 = set_world (advance 300 (app_world a1)) a1;
                      held_open = int (held own (app_world a2)) - baseline
                  in case close_app E ro r a2 of
                       (Returns _, w2) \<Rightarrow>
                         (let w3 = advance 300 w2; left = int (held own w3) - baseline
                          in (Returns (), (rows @ [row [label, string_of_int held_open, string_of_int left]], w3)))
                     | (Throws x, w2) \<Rightarrow> (Throws x, (rows, w2))
                     | (Hangs, w2) \<Rightarrow> (Hangs, (rows, w2)))
             | (Throws x, a1) \<Rightarrow> (Throws x, (rows, app_world a1))
             | (Hangs, a1) \<Rightarrow> (Hangs, (rows, app_world a1)))
        | (Throws x, w1) \<Rightarrow> (Throws x, (rows, w1))
        | (Hangs, w1) \<Rightarrow> (Hangs, (rows, w1)))"

section \<open>The scenarios\<close>

definition mode_a :: "string \<Rightarrow> nat \<Rightarrow> module_options" where
  "mode_a url sharedClient = (url_only url)\<lparr>mo_connection := Obj [(''client'', Ref sharedClient)]\<rparr>"

definition with_flows :: "module_options \<Rightarrow> module_options" where
  "with_flows options = options\<lparr>mo_flows := Some (Some True)\<rparr>"

definition demo_flow :: jsval where
  "demo_flow = Obj [(''name'', Str ''p''), (''queueName'', Str ''fp''), (''data'', Obj []),
     (''children'', Arr [Obj [(''name'', Str ''c''), (''queueName'', Str ''fc''), (''data'', Obj [])]])]"

type_synonym table_row = "string \<times> scenario \<times> module_options"

fun in_turn :: "env \<Rightarrow> url_parser \<Rightarrow> nat \<Rightarrow> string \<Rightarrow> table_row list \<Rightarrow> table \<Rightarrow> unit outcome \<times> table" where
  "in_turn E parse own PREFIX [] t = (Returns (), t)"
| "in_turn E parse own PREFIX ((label, scenario, options) # rs) t =
     andthen (connection_row E parse own PREFIX label scenario options t) (\<lambda>_. in_turn E parse own PREFIX rs)"

definition consumer_owned_connections :: "string \<Rightarrow> nat \<Rightarrow> table_row list" where
  "consumer_owned_connections url sharedClient =
    [(''module, Mode B (library-owned)'', idle, url_only url),
     (''module, Mode A (your client, not counted)'', idle, mode_a url sharedClient),
     (''Mode A + 1 worker'', registers ''aw1'', mode_a url sharedClient),
     (''Mode A + QueueEvents on 1 queue'', observes ''ae1'', mode_a url sharedClient)]"

definition library_owned_connections :: "string \<Rightarrow> table_row list" where
  "library_owned_connections url =
    [(''Mode B + 1 queue (one enqueue)'', enqueues ''c1'', url_only url),
     (''Mode B + 10 queues'', one_by_one (map enqueues (numbered ''c'' 10)), url_only url),
     (''Mode B + 1 worker'', registers ''w1'', url_only url),
     (''Mode B + 5 workers'', one_by_one (map registers (numbered ''w'' 5)), url_only url),
     (''Mode B + QueueEvents on 1 queue'', observes ''e1'', url_only url),
     (''Mode B + QueueEvents on 5 queues'', one_by_one (map observes (numbered ''e'' 5)), url_only url),
     (''Mode B + flows enabled (FlowProducer, one flow)'', adds_flow demo_flow, with_flows (url_only url))]"

text \<open>
  \<open>connections\<close>: the lines printed and the world left. The shared client is opened and pinged
  before the first baseline is read, and closed at the end; opening it is taken to succeed.
\<close>

definition table_heading :: "string list" where
  "table_heading =
    [newline # ''## Redis connections held (INFO clients delta, admin excluded)'' @ [newline],
     ''| Scenario | Connections while open | Left after close |'', ''| --- | ---: | ---: |'']"

definition connections :: "env \<Rightarrow> url_parser \<Rightarrow> nat \<Rightarrow> string \<Rightarrow> string \<Rightarrow> world \<Rightarrow> string list outcome \<times> world" where
  "connections E parse own PREFIX url w =
    (let sharedClient = w_next w;
         w1 = (log_call (RedisNew sharedClient (Str url) []) w)\<lparr>w_next := Suc sharedClient\<rparr>
     in andthen (await E (Invoke sharedClient ''ping'' []) w1) (\<lambda>_ w2.
          let (res, (rows, w3)) = andthen (in_turn E parse own PREFIX (consumer_owned_connections url sharedClient) ([], w2))
                (\<lambda>_. in_turn E parse own PREFIX (library_owned_connections url))
          in andthen (res, w3) (\<lambda>_ w4.
             andthen (await E (RedisQuit sharedClient) w4) (\<lambda>_ w5.
               (Returns (table_heading @ rows), w5)))))"

section \<open>What the steps of a run open\<close>

text \<open>
  An environment in which nothing goes wrong: clients are ready, no constructor throws, every
  promise resolves (after any delay), and a duplicated client carries the retry policy asked for.
\<close>

definition obliging :: "env \<Rightarrow> bool" where
  "obliging E \<longleftrightarrow> (\<forall>h c. env_throws E h c = None) \<and> (\<forall>h c. \<exists>d v. env_settles E h c = Resolves d v)
     \<and> (\<forall>h c. env_status E h c = ''ready'') \<and> (\<forall>h c. env_retries E h c = Null)"

lemma quiet_env_obliging [simp]: "obliging quiet_env"
  by (simp add: obliging_def)

lemma obliging_settles: "obliging E \<Longrightarrow> env_settles E h c \<noteq> NeverSettles"
  unfolding obliging_def by (metis settlement.distinct(3))

lemma obliging_await:
  assumes "obliging E"
  obtains v w' where "await E c w = (Returns v, w')" and "w_calls w' = w_calls w @ [c]" and "w_next w' = w_next w"
proof -
  from assms obtain d v where "env_settles E (w_calls w) c = Resolves d v" unfolding obliging_def by blast
  then have "fst (await E c w) = Returns v" by (simp add: await_result)
  with await_calls [of E c w] that show thesis by (metis prod.collapse)
qed

text \<open>From \<open>w\<close> to \<open>w'\<close> the clients \<open>C\<close> and the consumers \<open>H\<close> were opened, all of them new, and nothing else changed.\<close>

definition opens :: "world \<Rightarrow> nat set \<Rightarrow> nat set \<Rightarrow> world \<Rightarrow> bool" where
  "opens w C H w' \<longleftrightarrow> world_ok w \<and> world_ok w' \<and> w_next w \<le> w_next w'
     \<and> open_clients (w_calls w') = open_clients (w_calls w) \<union> C
     \<and> open_consumers (w_calls w') = open_consumers (w_calls w) \<union> H
     \<and> C \<union> H \<subseteq> {w_next w ..< w_next w'}"

lemma opens_refl: "world_ok w \<Longrightarrow> opens w {} {} w"
  by (simp add: opens_def)

lemma opens_trans: "opens w C H w' \<Longrightarrow> opens w' C' H' w'' \<Longrightarrow> opens w (C \<union> C') (H \<union> H') w''"
  unfolding opens_def by (auto simp: subset_iff)

lemma opened_in_ids: "i \<in> opened_in c \<Longrightarrow> i \<in> set (ids_of c)"
  by (cases c rule: opened_in.cases) auto

lemma consumer_in_ids: "i \<in> consumer_in c \<Longrightarrow> i \<in> set (ids_of c)"
  by (cases c rule: consumer_in.cases) auto

lemma closed_in_ids: "i \<in> closed_in c \<Longrightarrow> i \<in> set (ids_of c)"
  by (cases c rule: closed_in.cases) (auto split: if_splits)

lemma open_clients_append:
  "open_clients (cs @ ds) = (open_clients cs - released ds) \<union> (\<Union> (opened_in ` set ds) - released cs - released ds)"
  by (auto simp: open_clients_def)

lemma open_consumers_append:
  "open_consumers (cs @ ds) = (open_consumers cs - \<Union> (closed_in ` set ds))
     \<union> (\<Union> (consumer_in ` set ds) - \<Union> (closed_in ` set cs) - \<Union> (closed_in ` set ds))"
  by (auto simp: open_consumers_def)

lemma world_ok_below:
  assumes "world_ok w"
  shows "open_clients (w_calls w) \<subseteq> {..<w_next w}" and "open_consumers (w_calls w) \<subseteq> {..<w_next w}"
    and "released (w_calls w) \<subseteq> {..<w_next w}" and "\<Union> (closed_in ` set (w_calls w)) \<subseteq> {..<w_next w}"
  using assms unfolding world_ok_def open_clients_def open_consumers_def released_def
  by (auto dest!: opened_in_ids consumer_in_ids released_in_ids closed_in_ids bspec)

lemma held_opens:
  assumes "opens w C H w'"
  shows "held own w' = held own w + card C + own * card H"
proof -
  note below = world_ok_below [of w]
  have fin: "finite C" "finite H" using assms by (auto simp: opens_def intro: finite_subset [OF _ finite_atLeastLessThan])
  have "finite (open_clients (w_calls w))" "finite (open_consumers (w_calls w))"
    using assms below by (auto simp: opens_def intro: finite_subset [OF _ finite_lessThan])
  moreover have "open_clients (w_calls w) \<inter> C = {}" "open_consumers (w_calls w) \<inter> H = {}"
    using assms below by (auto simp: opens_def subset_iff) (meson leD)+
  ultimately show ?thesis
    using assms fin by (simp add: held_def opens_def card_Un_disjoint distrib_left)
qed

text \<open>Calls that open and close nothing that is counted, and the two that open something.\<close>

lemma opens_calls:
  assumes "world_ok w" and "w_calls w' = w_calls w @ cs" and "w_next w \<le> w_next w'"
    and "\<forall>c \<in> set cs. \<forall>i \<in> set (ids_of c). i < w_next w'"
    and "released cs = {}" and "\<Union> (closed_in ` set cs) = {}"
    and "\<Union> (opened_in ` set cs) = C" and "\<Union> (consumer_in ` set cs) = H"
    and "C \<union> H \<subseteq> {w_next w ..< w_next w'}"
  shows "opens w C H w'"
proof -
  have "world_ok w'" using assms(1-4) by (fastforce simp: world_ok_def)
  moreover have "C \<inter> released (w_calls w) = {}" "H \<inter> \<Union> (closed_in ` set (w_calls w)) = {}"
    using world_ok_below(3,4) [OF assms(1)] assms(9) by (auto simp: subset_iff) (meson leD)+
  ultimately show ?thesis
    using assms by (auto simp: opens_def open_clients_append open_consumers_append)
qed

lemma obliging_construct:
  assumes "obliging E"
  obtains w' where "construct E k n p opts w = (Returns (w_next w), w')"
    and "w_calls w' = w_calls w @ [Construct k (w_next w) n p opts]" and "w_next w' = Suc (w_next w)"
  using assms by (auto simp: obliging_def construct_def log_call_def Let_def)

lemma obliging_duplicate:
  assumes "obliging E"
  obtains w' where "duplicate_connection E c w = (Returns (w_next w), w')"
    and "w_calls w' = w_calls w @ [RedisDuplicate c (w_next w) blocking_override]" and "w_next w' = Suc (w_next w)"
  using assms by (auto simp: obliging_def duplicate_connection_def log_call_def Let_def)

text \<open>
  Since \<open>w0\<close> an application opened the client of its resolver, if it owns one, and for every
  registered worker and every observed queue one client and one consumer.
\<close>

definition handles :: "discovery_state \<Rightarrow> nat set" where
  "handles ds = set (jsmap_values (worker_get_all (ds_workers ds))) \<union> set (jsmap_values (events_get_all (ds_events ds)))"

definition consumers :: "discovery_state \<Rightarrow> nat" where
  "consumers ds = length (wr_entries (ds_workers ds)) + length (ev_events (ds_events ds))"

definition tracks :: "world \<Rightarrow> resolver \<Rightarrow> application \<Rightarrow> bool" where
  "tracks w0 r a \<longleftrightarrow>
     opens w0 (set (owned_client r) \<union> tracked_by (ap_scan a)) (handles (ap_scan a)) (app_world a)
   \<and> card (set (owned_client r) \<union> tracked_by (ap_scan a)) = length (owned_client r) + consumers (ap_scan a)
   \<and> card (handles (ap_scan a)) = consumers (ap_scan a)
   \<and> map fst (ev_events (ds_events (ap_scan a))) = map fst (ev_connections (ds_events (ap_scan a)))
   \<and> (\<exists>c. r_client r = Some c \<and> c < w_next (app_world a))
   \<and> set (jsmap_values (q_cache (ap_queues a))) \<union> set_option (fl_producer (ap_flow a))
       \<subseteq> {w_next w0 ..< w_next (app_world a)}"

lemma tracks_held: "tracks w0 r a \<Longrightarrow>
    held own (app_world a) = held own w0 + length (owned_client r) + (1 + own) * consumers (ap_scan a)"
  by (auto simp: tracks_def distrib_right dest!: held_opens [where own = own])

text \<open>A step that opens one client and one consumer and enters both into a registry.\<close>

lemma tracks_grow:
  assumes "tracks w0 r a" and "opens (app_world a) {c} {h} (app_world a')"
    and "tracked_by (ap_scan a') = insert c (tracked_by (ap_scan a))"
    and "handles (ap_scan a') = insert h (handles (ap_scan a))"
    and "consumers (ap_scan a') = Suc (consumers (ap_scan a))"
    and "map fst (ev_events (ds_events (ap_scan a'))) = map fst (ev_connections (ds_events (ap_scan a')))"
    and "ap_queues a' = ap_queues a" and "ap_flow a' = ap_flow a"
  shows "tracks w0 r a'"
proof -
  let ?C = "set (owned_client r) \<union> tracked_by (ap_scan a)" and ?H = "handles (ap_scan a)"
  have old: "opens w0 ?C ?H (app_world a)" "card ?C = length (owned_client r) + consumers (ap_scan a)"
    "card ?H = consumers (ap_scan a)"
    using assms(1) by (auto simp: tracks_def)
  have range: "?C \<union> ?H \<subseteq> {w_next w0 ..< w_next (app_world a)}" using old(1) by (simp add: opens_def)
  then have fin: "finite ?C" "finite ?H" by (auto intro: finite_subset [OF _ finite_atLeastLessThan])
  have new: "w_next (app_world a) \<le> c" "w_next (app_world a) \<le> h" "w_next (app_world a) \<le> w_next (app_world a')"
    using assms(2) by (auto simp: opens_def)
  with range have "c \<notin> ?C" "h \<notin> ?H" by auto
  with fin old have "card (insert c ?C) = length (owned_client r) + Suc (consumers (ap_scan a))"
    "card (insert h ?H) = Suc (consumers (ap_scan a))" by simp_all
  moreover have "opens w0 (insert c ?C) (insert h ?H) (app_world a')"
    using opens_trans [OF old(1) assms(2)] by simp
  moreover have "set (jsmap_values (q_cache (ap_queues a))) \<union> set_option (fl_producer (ap_flow a))
       \<subseteq> {w_next w0 ..< w_next (app_world a')}"
    using assms(1) new(3) by (fastforce simp: tracks_def)
  moreover have "\<exists>c. r_client r = Some c \<and> c < w_next (app_world a')" using assms(1) new(3) by (fastforce simp: tracks_def)
  ultimately show ?thesis using assms(3-8) by (simp add: tracks_def)
qed

text \<open>A step that opens nothing that is counted.\<close>

lemma tracks_keep:
  assumes "tracks w0 r a" and "opens (app_world a) {} {} (app_world a')"
    and "ds_workers (ap_scan a') = ds_workers (ap_scan a)" and "ds_events (ap_scan a') = ds_events (ap_scan a)"
    and "set (jsmap_values (q_cache (ap_queues a'))) \<union> set_option (fl_producer (ap_flow a'))
       \<subseteq> {w_next w0 ..< w_next (app_world a')}"
  shows "tracks w0 r a'"
proof -
  have "w_next (app_world a) \<le> w_next (app_world a')" using assms(2) by (simp add: opens_def)
  then show ?thesis
    using assms opens_trans [of w0 _ _ "app_world a" "{}" "{}" "app_world a'"]
    by (auto simp: tracks_def tracked_by_def handles_def consumers_def)
qed

section \<open>The steps of the scenarios\<close>

lemma register_step:
  assumes "obliging E" and "tracks w0 r a" and "map_of (wr_entries (ds_workers (ap_scan a))) n = None"
    and "validate_worker_options opts = Returns ()"
  obtains h wr w where "register E ro r n hdl opts (ds_workers (ap_scan a), app_world a) = (Returns h, (wr, w))"
    and "tracks w0 r (a\<lparr>ap_scan := (ap_scan a)\<lparr>ds_workers := wr, ds_world := w\<rparr>\<rparr>)" and "h < w_next w"
    and "worker_list wr = worker_list (ds_workers (ap_scan a)) @ [n]"
proof -
  let ?wr = "ds_workers (ap_scan a)" and ?w = "app_world a"
  obtain c where c: "r_client r = Some c" "c < w_next ?w" using assms(2) by (auto simp: tracks_def)
  obtain w1 where dup: "duplicate_connection E c ?w = (Returns (w_next ?w), w1)"
    "w_calls w1 = w_calls ?w @ [RedisDuplicate c (w_next ?w) blocking_override]" "w_next w1 = Suc (w_next ?w)"
    using obliging_duplicate [OF assms(1)] by blast
  let ?new = "Construct WorkerKind (w_next w1) n hdl (build_bull_options ro opts (w_next ?w))"
  obtain w2 where con: "construct E WorkerKind n hdl (build_bull_options ro opts (w_next ?w)) w1 = (Returns (w_next w1), w2)"
    "w_calls w2 = w_calls w1 @ [?new]" "w_next w2 = Suc (w_next w1)"
    using obliging_construct [OF assms(1)] by blast
  let ?w' = "attach_default_error_listener WorkerKind (w_next w1) n w2"
  let ?wr' = "?wr\<lparr>wr_entries := wr_entries ?wr @ [(n, \<lparr>we_worker = w_next w1, we_connection = w_next ?w\<rparr>)]\<rparr>"
  let ?a' = "a\<lparr>ap_scan := (ap_scan a)\<lparr>ds_workers := ?wr', ds_world := ?w'\<rparr>\<rparr>"
  have run: "register E ro r n hdl opts (?wr, ?w) = (Returns (w_next w1), (?wr', ?w'))"
    using assms(3,4) c dup con
    by (simp add: register_def guard_duplicate_def get_client_def start_worker_def update_absent)
  have "opens ?w {w_next ?w} {w_next w1} ?w'"
    by (rule opens_calls [where cs = "[RedisDuplicate c (w_next ?w) blocking_override, ?new, OnError WorkerKind (w_next w1) n]"])
      (use assms(2) c dup con in \<open>auto simp: tracks_def opens_def attach_default_error_listener_def log_call_def\<close>)
  then have "tracks w0 r ?a'"
    by (intro tracks_grow [OF assms(2), where c = "w_next ?w" and h = "w_next w1"])
      (use assms(2) in \<open>auto simp: app_world_def tracked_by_def tracked_workers_def handles_def jsmap_values_def
        worker_get_all_def consumers_def tracks_def\<close>)
  moreover have "w_next w1 < w_next ?w'" by (simp add: con(3) attach_default_error_listener_def log_call_def)
  moreover have "worker_list ?wr' = worker_list ?wr @ [n]" by (simp add: worker_list_def jsmap_keys_def)
  ultimately show thesis by (rule that [OF run])
qed

lemma registers_step:
  assumes "obliging E" and "tracks w0 r a" and "map_of (wr_entries (ds_workers (ap_scan a))) n = None"
  obtains a' where "registers n E ro r a = (Returns (), a')" and "tracks w0 r a'"
    and "worker_list (ds_workers (ap_scan a')) = worker_list (ds_workers (ap_scan a)) @ [n]"
    and "ds_events (ap_scan a') = ds_events (ap_scan a)"
proof -
  have "validate_worker_options None = Returns ()" by (simp add: validate_worker_options_def check_present_def)
  from register_step [OF assms this] obtain h wr w where
    "register E ro r n no_op_handler None (ds_workers (ap_scan a), app_world a) = (Returns h, (wr, w))"
    "tracks w0 r (a\<lparr>ap_scan := (ap_scan a)\<lparr>ds_workers := wr, ds_world := w\<rparr>\<rparr>)"
    "worker_list wr = worker_list (ds_workers (ap_scan a)) @ [n]" by blast
  moreover from this(1) have "registers n E ro r a = (Returns (), a\<lparr>ap_scan := (ap_scan a)\<lparr>ds_workers := wr, ds_world := w\<rparr>\<rparr>)"
    by (simp add: registers_def)
  ultimately show thesis using that by force
qed

lemma observes_step:
  assumes "obliging E" and "tracks w0 r a" and "map_of (ev_events (ds_events (ap_scan a))) n = None"
  obtains a' where "observes n E ro r a = (Returns (), a')" and "tracks w0 r a'"
    and "events_list (ds_events (ap_scan a')) = events_list (ds_events (ap_scan a)) @ [n]"
    and "ds_workers (ap_scan a') = ds_workers (ap_scan a)"
proof -
  let ?ev = "ds_events (ap_scan a)" and ?w = "app_world a"
  obtain c where c: "r_client r = Some c" "c < w_next ?w" using assms(2) by (auto simp: tracks_def)
  obtain w1 where dup: "duplicate_connection E c ?w = (Returns (w_next ?w), w1)"
    "w_calls w1 = w_calls ?w @ [RedisDuplicate c (w_next ?w) blocking_override]" "w_next w1 = Suc (w_next ?w)"
    using obliging_duplicate [OF assms(1)] by blast
  obtain w2 where con: "construct E QueueEventsKind n Undef (queue_events_options ro (w_next ?w)) w1 = (Returns (w_next w1), w2)"
    "w_calls w2 = w_calls w1 @ [Construct QueueEventsKind (w_next w1) n Undef (queue_events_options ro (w_next ?w))]"
    "w_next w2 = Suc (w_next w1)"
    using obliging_construct [OF assms(1)] by blast
  have keys: "map fst (ev_events ?ev) = map fst (ev_connections ?ev)" using assms(2) by (simp add: tracks_def)
  with assms(3) have absent: "map_of (ev_connections ?ev) n = None" by (simp add: map_of_eq_None_iff flip: set_map)
  let ?w' = "attach_default_error_listener QueueEventsKind (w_next w1) n w2"
  let ?ev' = "\<lparr>ev_events = ev_events ?ev @ [(n, w_next w1)], ev_connections = ev_connections ?ev @ [(n, w_next ?w)]\<rparr>"
  let ?a' = "a\<lparr>ap_scan := (ap_scan a)\<lparr>ds_events := ?ev', ds_world := ?w'\<rparr>\<rparr>"
  have run: "observes n E ro r a = (Returns (), ?a')"
    using assms(3) absent c dup con
    by (simp add: observes_def get_or_create_events_def get_client_def update_absent)
  have "opens ?w {w_next ?w} {w_next w1} ?w'"
    by (rule opens_calls [where cs = "[RedisDuplicate c (w_next ?w) blocking_override,
          Construct QueueEventsKind (w_next w1) n Undef (queue_events_options ro (w_next ?w)),
          OnError QueueEventsKind (w_next w1) n]"])
      (use assms(2) c dup con in \<open>auto simp: tracks_def opens_def attach_default_error_listener_def log_call_def\<close>)
  then have "tracks w0 r ?a'"
    by (intro tracks_grow [OF assms(2), where c = "w_next ?w" and h = "w_next w1"])
      (use keys in \<open>auto simp: app_world_def tracked_by_def tracked_events_def handles_def jsmap_values_def
        events_get_all_def consumers_def\<close>)
  with run show thesis by (rule that) (simp_all add: events_list_def jsmap_keys_def)
qed

lemma queue_for_opens:
  assumes "obliging E" and "world_ok w" and "r_client r = Some c"
    and "lo \<le> w_next w" and "set (jsmap_values (q_cache q)) \<subseteq> {lo ..< w_next w}"
  obtains h q' w' where "queue_for E ro r n (q, w) = (Returns h, (q', w'))" and "opens w {} {} w'" and "h < w_next w'"
    and "set (jsmap_values (q_cache q')) \<subseteq> {lo ..< w_next w'}"
proof (cases "map_of (q_cache q) n")
  case (Some h)
  then have "h \<in> set (jsmap_values (q_cache q))" by (force simp: jsmap_values_def dest: map_of_SomeD)
  with Some assms(5) opens_refl [OF assms(2)] show thesis
    by (intro that [of h q w]) (auto simp: queue_for_def get_or_create_queue_def)
next
  case None
  obtain w1 where con: "construct E QueueKind n Undef (queue_options ro c []) w = (Returns (w_next w), w1)"
    "w_calls w1 = w_calls w @ [Construct QueueKind (w_next w) n Undef (queue_options ro c [])]"
    "w_next w1 = Suc (w_next w)"
    using obliging_construct [OF assms(1)] by blast
  let ?w2 = "attach_default_error_listener QueueKind (w_next w) n w1"
  have "opens w {} {} ?w2"
    by (rule opens_calls [where cs = "[Construct QueueKind (w_next w) n Undef (queue_options ro c []), OnError QueueKind (w_next w) n]"])
      (use assms(2) con in \<open>auto simp: attach_default_error_listener_def log_call_def\<close>)
  with None con assms(3-5) show thesis
    by (intro that [of "w_next w" "q\<lparr>q_cache := q_cache q @ [(n, w_next w)]\<rparr>" ?w2])
      (auto simp: queue_for_def get_or_create_queue_def get_client_def update_absent jsmap_values_def
        attach_default_error_listener_def log_call_def subset_iff)
qed

text \<open>Any call of the queue service that does not close a queue.\<close>

lemma queue_call_step:
  assumes "obliging E" and "tracks w0 r a" and "m \<noteq> ''close''"
  obtains v q w where "queue_call E ro r n m args (ap_queues a, app_world a) = (Returns v, (q, w))"
    and "tracks w0 r (set_world w (a\<lparr>ap_queues := q\<rparr>))"
proof -
  let ?w = "app_world a"
  have a: "world_ok ?w" "w_next w0 \<le> w_next ?w"
    "set (jsmap_values (q_cache (ap_queues a))) \<union> set_option (fl_producer (ap_flow a)) \<subseteq> {w_next w0 ..< w_next ?w}"
    using assms(2) by (auto simp: tracks_def opens_def)
  obtain c where c: "r_client r = Some c" using assms(2) by (auto simp: tracks_def)
  obtain h q w1 where q: "queue_for E ro r n (ap_queues a, ?w) = (Returns h, (q, w1))" "opens ?w {} {} w1" "h < w_next w1"
    "set (jsmap_values (q_cache q)) \<subseteq> {w_next w0 ..< w_next w1}"
    using queue_for_opens [OF assms(1) a(1) c a(2)] a(3) by blast
  obtain v w2 where call: "await E (Invoke h m args) w1 = (Returns v, w2)"
    "w_calls w2 = w_calls w1 @ [Invoke h m args]" "w_next w2 = w_next w1"
    using obliging_await [OF assms(1)] by blast
  have "opens w1 {} {} w2"
    by (rule opens_calls [OF _ call(2)]) (use q call assms(3) in \<open>auto simp: opens_def\<close>)
  with opens_trans [OF q(2) this] have grown: "opens ?w {} {} w2" by simp
  then have "w_next ?w \<le> w_next w2" by (simp add: opens_def)
  with a(3) q(4) call(3) have "tracks w0 r (set_world w2 (a\<lparr>ap_queues := q\<rparr>))"
    by (intro tracks_keep [OF assms(2)]) (use grown in \<open>auto simp: set_world_def app_world_def\<close>)
  moreover have "queue_call E ro r n m args (ap_queues a, ?w) = (Returns v, (q, w2))"
    using q(1) call(1) by (simp add: queue_call_def)
  ultimately show thesis by (intro that)
qed

lemma enqueues_step:
  assumes "obliging E" and "tracks w0 r a"
  obtains a' where "enqueues n E ro r a = (Returns (), a')" and "tracks w0 r a'"
    and "ds_workers (ap_scan a') = ds_workers (ap_scan a)" and "ds_events (ap_scan a') = ds_events (ap_scan a)"
proof -
  have "''add'' \<noteq> ''close''" by simp
  from queue_call_step [OF assms this]
  obtain v q w where call: "queue_call E ro r n ''add'' [Str ''j'', Obj [], Undef] (ap_queues a, app_world a) = (Returns v, (q, w))"
    "tracks w0 r (set_world w (a\<lparr>ap_queues := q\<rparr>))" by blast
  then have "enqueues n E ro r a = (Returns (), set_world w (a\<lparr>ap_queues := q\<rparr>))"
    by (simp add: enqueues_def enqueue_def)
  from that [OF this call(2)] show thesis by (simp add: set_world_def)
qed

lemma adds_flow_step:
  assumes "obliging E" and "tracks w0 r a" and "fl_producer (ap_flow a) = Some h"
  obtains a' where "adds_flow f E ro r a = (Returns (), a')" and "tracks w0 r a'"
    and "ds_workers (ap_scan a') = ds_workers (ap_scan a)" and "ds_events (ap_scan a') = ds_events (ap_scan a)"
proof -
  have h: "h < w_next (app_world a)" "world_ok (app_world a)"
    and range: "set (jsmap_values (q_cache (ap_queues a))) \<union> set_option (fl_producer (ap_flow a))
       \<subseteq> {w_next w0 ..< w_next (app_world a)}"
    using assms(2,3) by (auto simp: tracks_def opens_def)
  obtain v w' where call: "await E (Invoke h ''add'' [f]) (app_world a) = (Returns v, w')"
    "w_calls w' = w_calls (app_world a) @ [Invoke h ''add'' [f]]" "w_next w' = w_next (app_world a)"
    using obliging_await [OF assms(1)] by blast
  let ?a' = "set_world w' (a\<lparr>ap_flow := ap_flow a\<rparr>)"
  have run: "adds_flow f E ro r a = (Returns (), ?a')"
    using assms(3) call(1) by (simp add: adds_flow_def flow_add_def producer_call_def require_producer_def)
  have "opens (app_world a) {} {} w'" by (rule opens_calls [OF h(2) call(2)]) (use h call in auto)
  then have "tracks w0 r ?a'"
    by (intro tracks_keep [OF assms(2)]) (use range call(3) in \<open>auto simp: set_world_def app_world_def\<close>)
  with run show thesis by (rule that) (simp_all add: set_world_def)
qed

section \<open>Closing\<close>

text \<open>
  From \<open>w\<close> to \<open>w'\<close> nothing was opened, the calls were about the identities \<open>I\<close> only, the clients \<open>R\<close>
  were released and the objects \<open>K\<close> closed.
\<close>

definition winds_down :: "nat set \<Rightarrow> nat set \<Rightarrow> nat set \<Rightarrow> world \<Rightarrow> world \<Rightarrow> bool" where
  "winds_down I R K w w' \<longleftrightarrow> w_next w' = w_next w \<and> (\<exists>cs. w_calls w' = w_calls w @ cs
     \<and> (\<forall>c \<in> set cs. opened_in c = {} \<and> consumer_in c = {} \<and> set (ids_of c) \<subseteq> I)
     \<and> R \<subseteq> released cs \<and> K \<subseteq> \<Union> (closed_in ` set cs))"

lemma winds_down_trans:
  assumes "winds_down I R K w w'" and "winds_down I' R' K' w' w''"
  shows "winds_down (I \<union> I') (R \<union> R') (K \<union> K') w w''"
proof -
  obtain cs ds where "w_calls w' = w_calls w @ cs" "w_calls w'' = w_calls w' @ ds"
    "\<forall>c \<in> set cs. opened_in c = {} \<and> consumer_in c = {} \<and> set (ids_of c) \<subseteq> I" "R \<subseteq> released cs"
    "\<forall>c \<in> set ds. opened_in c = {} \<and> consumer_in c = {} \<and> set (ids_of c) \<subseteq> I'" "R' \<subseteq> released ds"
    "K \<subseteq> \<Union> (closed_in ` set cs)" "K' \<subseteq> \<Union> (closed_in ` set ds)" "w_next w' = w_next w" "w_next w'' = w_next w'"
    using assms unfolding winds_down_def by blast
  then show ?thesis unfolding winds_down_def by (intro conjI exI [of _ "cs @ ds"]) auto
qed

lemma opens_winds_down:
  assumes "opens w0 C H w" and "winds_down I C H w w'" and "I \<subseteq> {w_next w0 ..< w_next w}"
  shows "opens w0 {} {} w'"
proof -
  obtain cs where cs: "w_calls w' = w_calls w @ cs" "w_next w' = w_next w"
    "\<forall>c \<in> set cs. opened_in c = {} \<and> consumer_in c = {} \<and> set (ids_of c) \<subseteq> I"
    "C \<subseteq> released cs" "H \<subseteq> \<Union> (closed_in ` set cs)"
    using assms(2) unfolding winds_down_def by blast
  have o: "world_ok w0" "world_ok w" "w_next w0 \<le> w_next w"
    "open_clients (w_calls w) = open_clients (w_calls w0) \<union> C"
    "open_consumers (w_calls w) = open_consumers (w_calls w0) \<union> H" using assms(1) by (auto simp: opens_def)
  have new: "\<Union> (opened_in ` set cs) = {}" "\<Union> (consumer_in ` set cs) = {}" using cs(3) by auto
  have within: "released cs \<subseteq> I" "\<Union> (closed_in ` set cs) \<subseteq> I"
  proof (safe)
    fix i assume "i \<in> released cs"
    then obtain c where "c \<in> set cs" "i \<in> released_in c" unfolding released_def by blast
    with cs(3) released_in_ids [of i c] show "i \<in> I" by auto
  next
    fix i c assume "c \<in> set cs" "i \<in> closed_in c"
    with cs(3) closed_in_ids [of i c] show "i \<in> I" by auto
  qed
  have "I \<subseteq> {..<w_next w}" using assms(3) by auto
  then have ids: "\<And>c i. c \<in> set cs \<Longrightarrow> i \<in> set (ids_of c) \<Longrightarrow> i < w_next w" using cs(3) by (meson lessThan_iff subsetD)
  have "world_ok w'" unfolding world_ok_def cs(2)
  proof (intro ballI)
    fix c i assume "c \<in> set (w_calls w')" "i \<in> set (ids_of c)"
    then consider "c \<in> set (w_calls w)" | "c \<in> set cs" unfolding cs(1) by auto
    then show "i < w_next w" using ids o(2) \<open>i \<in> set (ids_of c)\<close> by cases (auto simp: world_ok_def)
  qed
  moreover have "open_clients (w_calls w0) \<inter> I = {}" "open_consumers (w_calls w0) \<inter> I = {}"
    using world_ok_below(1,2) [OF o(1)] assms(3) by (auto simp: subset_iff) (meson leD)+
  moreover have "open_clients (w_calls w') = open_clients (w_calls w) - released cs"
    "open_consumers (w_calls w') = open_consumers (w_calls w) - \<Union> (closed_in ` set cs)"
    unfolding cs(1) open_clients_append open_consumers_append new by auto
  ultimately show ?thesis
    using o(1,3-5) cs(2,4,5) within unfolding opens_def by auto
qed

lemma winds_down_refl: "winds_down {} {} {} w w"
  by (simp add: winds_down_def)

lemma winds_down_now: "winds_down I R K w (advance d w') = winds_down I R K w w'"
  "winds_down I R K w (write_log l w') = winds_down I R K w w'"
  by (simp_all add: winds_down_def)

lemma await_each_winds_down:
  assumes "obliging E"
  obtains w' where "await_each E (map graceful_close hs) w = (Returns (), w')"
    and "winds_down (set hs) {} (set hs) w w'"
proof -
  obtain w' where run: "await_each E (map graceful_close hs) w = (Returns (), w')"
    using await_each_settles [of "map graceful_close hs" E w] obliging_settles [OF assms] by blast
  moreover have "w_calls w' = w_calls w @ map graceful_close hs" "w_next w' = w_next w"
    using await_each_frame [OF run] by auto
  then have "winds_down (set hs) {} (set hs) w w'"
    unfolding winds_down_def by (auto simp: graceful_close_def)
  ultimately show thesis by (rule that)
qed

lemma hang_up_all_winds_down:
  assumes "obliging E"
  obtains w' where "hang_up_all E cs w = (Returns (), w')" and "winds_down (set cs) (set cs) {} w w'"
proof -
  have "\<exists>w'. hang_up_all E cs w = (Returns (), w') \<and> winds_down (set cs) (set cs) {} w w'"
  proof (induction cs arbitrary: w)
    case Nil
    then show ?case by (simp add: winds_down_refl)
  next
    case (Cons c cs)
    obtain v w1 where q: "await E (RedisQuit c) w = (Returns v, w1)" "w_calls w1 = w_calls w @ [RedisQuit c]" "w_next w1 = w_next w"
      using obliging_await [OF assms] by blast
    obtain w' where rest: "hang_up_all E cs w1 = (Returns (), w')" "winds_down (set cs) (set cs) {} w1 w'"
      using Cons.IH by blast
    have "winds_down {c} {c} {} w w1" using q by (simp add: winds_down_def)
    from winds_down_trans [OF this rest(2)] q(1) rest(1) show ?case by (simp add: quit_or_disconnect_def)
  qed
  with that show thesis by blast
qed

lemma close_workers_winds_down:
  obtains forced w' where "close_workers E t ws 0 w = (Returns forced, w')"
    and "winds_down (set (map snd ws)) {} (set (map snd ws)) w w'"
proof -
  obtain k w' cs where run: "close_workers E t ws 0 w = (Returns k, w')" and cs: "w_calls w' = w_calls w @ cs"
    "drained E t (w_calls w) (map snd ws) k cs" "w_next w' = w_next w"
    using close_workers_drains [of E t ws 0 w] by auto
  from cs(2) have "(\<forall>c \<in> set cs. opened_in c = {} \<and> consumer_in c = {} \<and> set (ids_of c) \<subseteq> set (map snd ws))
      \<and> set (map snd ws) \<subseteq> \<Union> (closed_in ` set cs)"
    by (induction rule: drained.induct) (auto simp: graceful_close_def forced_close_def)
  with cs(1,3) have "winds_down (set (map snd ws)) {} (set (map snd ws)) w w'" by (auto simp: winds_down_def)
  with run show thesis by (rule that)
qed

lemma module_destroy_winds_down:
  assumes "obliging E"
  obtains lc' w' where "on_module_destroy E ro (ds_workers ds) (ds_events ds) (lc, w) = (Returns (), (lc', w'))"
    and "winds_down (handles ds \<union> tracked_by ds) (tracked_by ds) (handles ds) w w'"
proof -
  let ?wr = "ds_workers ds" and ?ev = "ds_events ds"
  obtain forced w1 where a: "close_workers E (ro_drainTimeoutMs ro) (worker_get_all ?wr) 0 w = (Returns forced, w1)"
    "winds_down (set (map snd (worker_get_all ?wr))) {} (set (map snd (worker_get_all ?wr))) w w1"
    using close_workers_winds_down by blast
  obtain w2 where b: "close_queue_events E ?ev w1 = (Returns (), w2)"
    "winds_down (set (jsmap_values (events_get_all ?ev))) {} (set (jsmap_values (events_get_all ?ev))) w1 w2"
    unfolding close_queue_events_def using await_each_winds_down [OF assms] by blast
  obtain w3 where c: "close_duplicated_connections E ?wr ?ev w2 = (Returns (), w3)"
    "winds_down (tracked_by ds) (tracked_by ds) {} w2 w3"
    unfolding close_duplicated_connections_def tracked_by_def
    using hang_up_all_winds_down [OF assms, of "owned_connections ?wr ?ev" w2] owned_connections_tracked [of ?wr ?ev] by metis
  have "on_module_destroy E ro ?wr ?ev (lc, w) =
      (Returns (), (lc\<lparr>lc_startedAt := Some (w_now w), lc_forcedWorkers := forced\<rparr>, w3))"
    using a(1) b(1) c(1) by (simp add: on_module_destroy_def)
  moreover have "winds_down (handles ds \<union> tracked_by ds) (tracked_by ds) (handles ds) w w3"
    using winds_down_trans [OF winds_down_trans [OF a(2) b(2)] c(2)]
    by (simp add: handles_def jsmap_values_def)
  ultimately show thesis by (rule that)
qed

lemma drain_queues_winds_down:
  assumes "obliging E"
  obtains w' where "drain_queues_if_requested E ro (q, w) = (Returns (), (q, w'))"
    and "winds_down (set (jsmap_values (q_cache q))) {} {} w w'"
proof -
  have each: "\<exists>w'. drain_each E qs w = (Returns (), w') \<and> winds_down (set (jsmap_values qs)) {} {} w w'" for qs w
  proof (induction qs arbitrary: w)
    case Nil
    then show ?case by (simp add: winds_down_refl jsmap_values_def)
  next
    case (Cons p qs)
    obtain n h where p: "p = (n, h)" by (cases p)
    obtain v w1 where d: "await E (Invoke h ''drain'' []) w = (Returns v, w1)"
      "w_calls w1 = w_calls w @ [Invoke h ''drain'' []]" "w_next w1 = w_next w"
      using obliging_await [OF assms] by blast
    obtain w' where rest: "drain_each E qs w1 = (Returns (), w')" "winds_down (set (jsmap_values qs)) {} {} w1 w'"
      using Cons.IH by blast
    have "winds_down {h} {} {} w w1" using d by (simp add: winds_down_def)
    from winds_down_trans [OF this rest(2)] d(1) rest(1) show ?case by (simp add: p jsmap_values_def)
  qed
  have skip: "winds_down I {} {} w w" for I by (simp add: winds_down_def)
  show thesis
  proof (cases "ro_drainOnShutdown ro")
    case True
    with each [of "q_cache q" w] that show thesis
      by (auto simp: drain_queues_if_requested_def get_cached_queues_def)
  next
    case False
    with skip that show thesis by (simp add: drain_queues_if_requested_def)
  qed
qed

lemma teardown_winds_down:
  assumes "obliging E"
  obtains w' where "teardown E r w = (Returns (), w')"
    and "winds_down (set (owned_client r)) (set (owned_client r)) {} w w'"
proof (cases "owned_client r")
  case Nil
  then have "teardown E r w = (Returns (), w)"
    by (auto simp: teardown_def owned_client_def split: option.splits if_splits)
  with that [of w] Nil winds_down_refl show thesis by simp
next
  case (Cons c cs)
  then have "teardown E r w = quit_or_disconnect E c w" "owned_client r = [c]"
    by (auto simp: teardown_def owned_client_def split: option.splits if_splits)
  moreover obtain w' where "hang_up_all E [c] w = (Returns (), w')" "winds_down {c} {c} {} w w'"
    using hang_up_all_winds_down [OF assms, of "[c]" w] by auto
  moreover from this(1) have "quit_or_disconnect E c w = (Returns (), w')"
    by (cases "quit_or_disconnect E c w"; cases "fst (quit_or_disconnect E c w)") auto
  ultimately show thesis by (intro that) simp_all
qed

lemma application_shutdown_winds_down:
  assumes "obliging E"
  obtains q' w' where "on_application_shutdown E ro r fl lc (q, w) = (Returns (), (q', w'))"
    and "winds_down (set (jsmap_values (q_cache q)) \<union> set_option (fl_producer fl) \<union> set (owned_client r))
           (set (owned_client r)) {} w w'"
proof -
  let ?hs = "jsmap_values (q_cache q)"
  have less: "winds_down I R K u u' \<Longrightarrow> winds_down I R {} u u'" for I R K u u' unfolding winds_down_def by auto
  obtain w1 where d: "drain_queues_if_requested E ro (q, w) = (Returns (), (q, w1))" "winds_down (set ?hs) {} {} w w1"
    using drain_queues_winds_down [OF assms] by blast
  have "\<exists>w2. flow_close E fl w1 = (Returns (), w2) \<and> winds_down (set_option (fl_producer fl)) {} {} w1 w2"
  proof (cases "fl_producer fl")
    case (Some h)
    obtain w2 where "await_each E (map graceful_close [h]) w1 = (Returns (), w2)" "winds_down (set [h]) {} (set [h]) w1 w2"
      using await_each_winds_down [OF assms] by blast
    with Some less show ?thesis by (auto simp: flow_close_def graceful_close_def)
  qed (simp add: flow_close_def winds_down_refl)
  then obtain w2 where f: "flow_close E fl w1 = (Returns (), w2)" "winds_down (set_option (fl_producer fl)) {} {} w1 w2"
    by blast
  obtain w3 where k: "await_each E (map graceful_close ?hs) w2 = (Returns (), w3)" "winds_down (set ?hs) {} (set ?hs) w2 w3"
    using await_each_winds_down [OF assms] by blast
  have eq: "map (\<lambda>h. Invoke h ''close'' []) ?hs = map graceful_close ?hs" by (simp add: graceful_close_def)
  have ca: "close_all E (q, w2) = (Returns (), (q\<lparr>q_cache := []\<rparr>, w3))" using k(1) by (simp add: close_all_def eq)
  obtain w4 where t: "teardown E r w3 = (Returns (), w4)" "winds_down (set (owned_client r)) (set (owned_client r)) {} w3 w4"
    using teardown_winds_down [OF assms] by blast
  have "on_application_shutdown E ro r fl lc (q, w) =
      (Returns (), (q\<lparr>q_cache := []\<rparr>, write_log (shutdown_line lc w4) w4))"
    using d(1) f(1) ca t(1) by (simp add: on_application_shutdown_def on_world_def swallow_def)
  moreover have "winds_down (set ?hs \<union> set_option (fl_producer fl) \<union> set (owned_client r)) (set (owned_client r)) {}
      w (write_log (shutdown_line lc w4) w4)"
    using winds_down_trans [OF winds_down_trans [OF winds_down_trans [OF d(2) f(2)] less [OF k(2)]] t(2)]
    by (simp add: winds_down_now Un_ac)
  ultimately show thesis by (rule that)
qed

lemma close_app_step:
  assumes "obliging E" and "tracks w0 r a"
  obtains w' where "close_app E ro r a = (Returns (), w')" and "opens w0 {} {} w'"
proof -
  obtain lc w1 where m: "on_module_destroy E ro (ds_workers (ap_scan a)) (ds_events (ap_scan a)) (new_lifecycle, app_world a)
      = (Returns (), (lc, w1))"
    "winds_down (handles (ap_scan a) \<union> tracked_by (ap_scan a)) (tracked_by (ap_scan a)) (handles (ap_scan a)) (app_world a) w1"
    using module_destroy_winds_down [OF assms(1)] by blast
  obtain q w2 where s: "on_application_shutdown E ro r (ap_flow a) lc (ap_queues a, w1) = (Returns (), (q, w2))"
    "winds_down (set (jsmap_values (q_cache (ap_queues a))) \<union> set_option (fl_producer (ap_flow a)) \<union> set (owned_client r))
       (set (owned_client r)) {} w1 w2"
    using application_shutdown_winds_down [OF assms(1)] by blast
  have run: "close_app E ro r a = (Returns (), w2)" using m(1) s(1) by (simp add: close_app_def)
  have tr: "opens w0 (set (owned_client r) \<union> tracked_by (ap_scan a)) (handles (ap_scan a)) (app_world a)"
    using assms(2) by (simp add: tracks_def)
  then have range: "set (owned_client r) \<union> tracked_by (ap_scan a) \<union> handles (ap_scan a)
      \<subseteq> {w_next w0 ..< w_next (app_world a)}" by (simp add: opens_def)
  have "opens w0 {} {} w2"
    by (rule opens_winds_down [OF tr winds_down_trans [OF m(2) s(2), unfolded Un_commute [of "tracked_by (ap_scan a)"], simplified]])
      (use range assms(2) in \<open>auto simp: tracks_def\<close>)
  with run show thesis by (rule that)
qed

section \<open>Booting opens the module's own connection\<close>

text \<open>
  A configuration the module can start with: one that the validation of \<open>forRoot\<close> accepts, with its
  own connection or with a client that exists.
\<close>

definition startable :: "url_parser \<Rightarrow> module_options \<Rightarrow> world \<Rightarrow> bool" where
  "startable parse opts w \<longleftrightarrow> validate_options parse opts = Returns ()
     \<and> (has_key ''client'' (props (mo_connection opts)) \<longrightarrow>
       (\<exists>c < w_next w. field (props (mo_connection opts)) ''client'' = Ref c))"

lemma validate_options_prefix [simp]:
  "validate_options parse (opts\<lparr>mo_prefix := p\<rparr>) = validate_options parse opts"
  by (simp add: validate_options_def drain_timeout_of_def cache_ttl_of_def)

lemma forRoot_accepts:
  assumes "validate_options parse opts = Returns ()"
  obtains m where "for_root parse base opts = Returns m"
  using assms for_root_rejects_before_anything by blast

text \<open>A configuration that is refused opens nothing: the boot throws and the world is the one before.\<close>

lemma boot_refuses_invalid_options:
  assumes "validate_options parse opts = Throws x"
  shows "boot_module E parse PREFIX opts w = (Throws x, w)"
  using assms by (simp add: boot_module_def for_root_def Let_def)

definition own_connections :: "module_options \<Rightarrow> nat" where
  "own_connections opts = (if has_key ''client'' (props (mo_connection opts)) then 0 else 1)"

lemma init_opens:
  assumes "obliging E" and "world_ok w" and "startable parse opts w"
  obtains r w' where "init E opts w = (Returns (), r, w')" and "opens w (set (owned_client r)) {} w'"
    and "length (owned_client r) = own_connections opts" and "\<exists>c. r_client r = Some c \<and> c < w_next w'"
proof (cases "has_key ''client'' (props (mo_connection opts))")
  case True
  with assms(3) obtain c where c: "c < w_next w" "field (props (mo_connection opts)) ''client'' = Ref c"
    by (auto simp: startable_def)
  obtain w1 where dup: "duplicate_connection E c w = (Returns (w_next w), w1)"
    "w_calls w1 = w_calls w @ [RedisDuplicate c (w_next w) blocking_override]" "w_next w1 = Suc (w_next w)"
    using obliging_duplicate [OF assms(1)] by blast
  let ?r = "\<lparr>r_client = Some c, r_mode = Some Mode_A_byo\<rparr>" and ?w' = "disconnect (w_next w) w1"
  have run: "init E opts w = (Returns (), ?r, ?w')"
    using True c dup(1) assms(1)
    by (simp add: init_def adopt_client_def init_mode_a_def is_client_usable_def usable_status_def obliging_def
        assert_blocking_connection_def Let_def)
  have "opens w {w_next w} {} w1"
    by (rule opens_calls [OF assms(2) dup(2)]) (use c dup(3) in auto)
  moreover have "winds_down {w_next w} {w_next w} {} w1 ?w'" by (simp add: winds_down_def)
  ultimately have "opens w {} {} ?w'" by (rule opens_winds_down) (simp add: dup(3))
  with that [OF run] c dup(3) True show thesis by (simp add: owned_client_def is_owned_def own_connections_def)
next
  case False
  let ?r = "\<lparr>r_client = Some (w_next w), r_mode = Some Mode_B_owned\<rparr>"
  obtain url given where "\<exists>w'. open_owned E (mo_connection opts) w = (Returns (w_next w), w')
      \<and> w_calls w' = w_calls w @ [RedisNew (w_next w) url given] \<and> w_next w' = Suc (w_next w)"
    using assms(1) by (auto simp: open_owned_def obliging_def Let_def log_call_def)
  then obtain w' where new: "open_owned E (mo_connection opts) w = (Returns (w_next w), w')"
    "w_calls w' = w_calls w @ [RedisNew (w_next w) url given]" "w_next w' = Suc (w_next w)" by blast
  have run: "init E opts w = (Returns (), ?r, w')"
    using False new(1) assms(1) by (simp add: init_def wait_ready_def obliging_def Let_def)
  have "opens w {w_next w} {} w'" by (rule opens_calls [OF assms(2) new(2)]) (use new(3) in auto)
  with that [OF run] new(3) False show thesis by (simp add: owned_client_def is_owned_def own_connections_def)
qed

lemma flow_service_opens:
  assumes "obliging E" and "world_ok w" and "r_client r = Some c" and "c < w_next w"
  obtains fl w' where "new_flow_service E r enabled prefix telemetry w = (Returns fl, w')" and "opens w {} {} w'"
    and "set_option (fl_producer fl) \<subseteq> {w_next w ..< w_next w'}" and "fl_producer fl \<noteq> None \<longleftrightarrow> enabled"
proof (cases enabled)
  case True
  let ?new = "Construct FlowProducerKind (w_next w) [] Undef (flow_options c prefix telemetry)"
  obtain w1 where con: "construct E FlowProducerKind [] Undef (flow_options c prefix telemetry) w = (Returns (w_next w), w1)"
    "w_calls w1 = w_calls w @ [?new]" "w_next w1 = Suc (w_next w)"
    using obliging_construct [OF assms(1)] by blast
  let ?w2 = "attach_default_error_listener FlowProducerKind (w_next w) ''*'' w1"
  have "opens w {} {} ?w2"
    by (rule opens_calls [where cs = "[?new, OnError FlowProducerKind (w_next w) ''*'']"])
      (use assms(2) con in \<open>auto simp: attach_default_error_listener_def log_call_def\<close>)
  with True assms(3) con show thesis
    by (intro that [of "\<lparr>fl_producer = Some (w_next w)\<rparr>" ?w2])
      (auto simp: new_flow_service_def get_client_def attach_default_error_listener_def log_call_def)
next
  case False
  with opens_refl [OF assms(2)] show thesis
    by (intro that [of "\<lparr>fl_producer = None\<rparr>" w]) (auto simp: new_flow_service_def)
qed

lemma boot_step:
  assumes "obliging E" and "world_ok w" and "startable parse opts w"
  obtains r ro a w' where "boot_module E parse PREFIX opts w = (Returns (r, ro, a), w')" and "tracks w r a"
    and "length (owned_client r) = own_connections opts" and "app_world a = w'"
    and "worker_list (ds_workers (ap_scan a)) = []" and "events_list (ds_events (ap_scan a)) = []"
    and "fl_producer (ap_flow a) \<noteq> None \<longleftrightarrow> mo_flows opts = Some (Some True)"
proof -
  define opts' where "opts' = (if mo_prefix opts = None then opts\<lparr>mo_prefix := Some PREFIX\<rparr> else opts)"
  let ?ro = "apply_defaults opts'"
  have same: "mo_connection opts' = mo_connection opts" "mo_flows opts' = mo_flows opts"
    "validate_options parse opts' = validate_options parse opts" by (simp_all add: opts'_def)
  then have "startable parse opts' w" using assms(3) by (simp add: startable_def)
  then obtain r w1 where i: "init E opts' w = (Returns (), r, w1)" "opens w (set (owned_client r)) {} w1"
    "length (owned_client r) = own_connections opts" "\<exists>c. r_client r = Some c \<and> c < w_next w1"
    using init_opens [OF assms(1,2), of parse opts'] same by (auto simp: own_connections_def)
  then obtain c where c: "r_client r = Some c" "c < w_next w1" by blast
  have flows: "ro_flows_enabled ?ro \<longleftrightarrow> mo_flows opts = Some (Some True)"
    using same by (cases "mo_flows opts"; cases "the (mo_flows opts)") (auto simp: apply_defaults_def)
  have "world_ok w1" using i(2) by (simp add: opens_def)
  then obtain fl w2 where f: "new_flow_service E r (ro_flows_enabled ?ro) (ro_prefix ?ro) (ro_telemetry ?ro) w1 = (Returns fl, w2)"
    "opens w1 {} {} w2" "set_option (fl_producer fl) \<subseteq> {w_next w1 ..< w_next w2}" "fl_producer fl \<noteq> None \<longleftrightarrow> ro_flows_enabled ?ro"
    using flow_service_opens [OF assms(1) _ c] by blast
  let ?a = "boot ?ro fl w2"
  from assms(3) same(3) have "validate_options parse opts' = Returns ()" by (simp add: startable_def)
  then obtain m where "for_root parse [provides OptionsToken [] GivenOptions] opts' = Returns m" by (rule forRoot_accepts)
  then have run: "boot_module E parse PREFIX opts w = (Returns (r, ?ro, ?a), w2)"
    using i(1) f(1) by (simp add: boot_module_def Let_def flip: opts'_def)
  have "distinct (owned_client r)" by (simp add: owned_client_def split: option.split)
  then have card: "card (set (owned_client r)) = length (owned_client r)" by (rule distinct_card)
  have app: "app_world ?a = w2" "tracked_by (ap_scan ?a) = {}" "handles (ap_scan ?a) = {}" "consumers (ap_scan ?a) = 0"
    "ds_workers (ap_scan ?a) = new_worker_registry" "ds_events (ap_scan ?a) = new_events_registry"
    by (simp_all add: boot_def fresh_discovery_def app_world_def tracked_by_def tracked_workers_def tracked_events_def
        handles_def consumers_def new_worker_registry_def new_events_registry_def worker_get_all_def events_get_all_def
        jsmap_values_def)
  have grows: "w_next w \<le> w_next w1" "w_next w1 \<le> w_next w2" using i(2) f(2) by (simp_all add: opens_def)
  have "tracks w r ?a"
    using opens_trans [OF i(2) f(2)] card c grows f(3) app
    by (auto simp: tracks_def boot_def new_queue_service_def new_events_registry_def jsmap_values_def)
  from that [OF run this i(3) app(1)] app f(4) flows show thesis
    by (simp add: worker_list_def events_list_def new_worker_registry_def new_events_registry_def jsmap_keys_def boot_def)
qed

section \<open>Rows\<close>

text \<open>A scenario that registers the workers \<open>ws\<close>, observes the queues \<open>es\<close> and opens nothing else.\<close>

definition brings :: "env \<Rightarrow> scenario \<Rightarrow> string list \<Rightarrow> string list \<Rightarrow> bool" where
  "brings E s ws es \<longleftrightarrow> (\<forall>w0 ro r a. tracks w0 r a \<and> distinct (worker_list (ds_workers (ap_scan a)) @ ws)
       \<and> distinct (events_list (ds_events (ap_scan a)) @ es) \<longrightarrow>
     (\<exists>a'. s E ro r a = (Returns (), a') \<and> tracks w0 r a'
       \<and> worker_list (ds_workers (ap_scan a')) = worker_list (ds_workers (ap_scan a)) @ ws
       \<and> events_list (ds_events (ap_scan a')) = events_list (ds_events (ap_scan a)) @ es))"

lemma consumers_listed:
  "consumers ds = length (worker_list (ds_workers ds)) + length (events_list (ds_events ds))"
  by (simp add: consumers_def worker_list_def events_list_def jsmap_keys_def)

lemma absent_worker: "n \<notin> set (worker_list wr) \<Longrightarrow> map_of (wr_entries wr) n = None"
  by (simp add: worker_list_def jsmap_keys_def map_of_eq_None_iff)

lemma absent_events: "n \<notin> set (events_list ev) \<Longrightarrow> map_of (ev_events ev) n = None"
  by (simp add: events_list_def jsmap_keys_def map_of_eq_None_iff)

lemma brings_idle: "brings E idle [] []"
  by (simp add: brings_def idle_def)

lemma brings_registers: "obliging E \<Longrightarrow> brings E (registers n) [n] []"
  unfolding brings_def by (auto dest!: absent_worker) (metis registers_step append_Nil2)

lemma brings_observes: "obliging E \<Longrightarrow> brings E (observes n) [] [n]"
  unfolding brings_def by (auto dest!: absent_events) (metis observes_step append_Nil2)

lemma brings_enqueues: "obliging E \<Longrightarrow> brings E (enqueues n) [] []"
  unfolding brings_def by (auto) (metis enqueues_step)

lemma brings_nil: "brings E (one_by_one []) [] []"
  by (simp add: brings_def)

lemma brings_cons:
  assumes "brings E s ws es" and "brings E (one_by_one ss) ws' es'"
  shows "brings E (one_by_one (s # ss)) (ws @ ws') (es @ es')"
  unfolding brings_def
proof (intro allI impI, elim conjE)
  fix w0 ro r a
  assume a: "tracks w0 r a" "distinct (worker_list (ds_workers (ap_scan a)) @ ws @ ws')"
    "distinct (events_list (ds_events (ap_scan a)) @ es @ es')"
  then obtain b where b: "s E ro r a = (Returns (), b)" "tracks w0 r b"
    "worker_list (ds_workers (ap_scan b)) = worker_list (ds_workers (ap_scan a)) @ ws"
    "events_list (ds_events (ap_scan b)) = events_list (ds_events (ap_scan a)) @ es"
    using assms(1) unfolding brings_def by (metis append_assoc distinct_append)
  with a obtain d where "one_by_one ss E ro r b = (Returns (), d)" "tracks w0 r d"
    "worker_list (ds_workers (ap_scan d)) = worker_list (ds_workers (ap_scan b)) @ ws'"
    "events_list (ds_events (ap_scan d)) = events_list (ds_events (ap_scan b)) @ es'"
    using assms(2) unfolding brings_def by (metis append_assoc)
  with b show "\<exists>a'. one_by_one (s # ss) E ro r a = (Returns (), a') \<and> tracks w0 r a'
       \<and> worker_list (ds_workers (ap_scan a')) = worker_list (ds_workers (ap_scan a)) @ ws @ ws'
       \<and> events_list (ds_events (ap_scan a')) = events_list (ds_events (ap_scan a)) @ es @ es'" by simp
qed

lemma brings_instance:
  assumes "obliging E"
  shows "brings E (one_by_one (map registers ws @ map observes es)) ws es"
proof -
  have "brings E (one_by_one (map observes es)) [] es"
    by (induction es) (auto simp del: one_by_one.simps intro: brings_nil brings_cons [OF brings_observes [OF assms], of _ "[]", simplified])
  then show ?thesis
    by (induction ws) (auto simp del: one_by_one.simps intro: brings_cons [OF brings_registers [OF assms], of _ _ es, simplified])
qed

lemma brings_enqueues_all: "obliging E \<Longrightarrow> brings E (one_by_one (map enqueues ns)) [] []"
  by (induction ns) (auto simp del: one_by_one.simps intro: brings_nil brings_cons [of E _ "[]" "[]" _ "[]" "[]", simplified] brings_enqueues)

lemma string_of_nat: "string_of_int (int n) = decimal n"
  by (simp add: string_of_int_def)

lemma opens_later: "world_ok w \<Longrightarrow> opens w {} {} (advance d w)"
  by (rule opens_calls [of _ _ "[]"]) (auto simp: world_ok_def advance_def)

lemma connection_row_prints:
  assumes "obliging E" and "world_ok w" and "startable parse opts w"
    and "\<And>r ro a. tracks w r a \<Longrightarrow> worker_list (ds_workers (ap_scan a)) = [] \<Longrightarrow> events_list (ds_events (ap_scan a)) = [] \<Longrightarrow>
      (fl_producer (ap_flow a) \<noteq> None \<longleftrightarrow> mo_flows opts = Some (Some True)) \<Longrightarrow>
      \<exists>a'. s E ro r a = (Returns (), a') \<and> tracks w r a' \<and> consumers (ap_scan a') = k"
  obtains w' where "connection_row E parse own PREFIX label s opts (rows, w) =
      (Returns (), (rows @ [row [label, decimal (own_connections opts + (1 + own) * k), ''0'']], w'))"
    and "opens w {} {} w'"
proof -
  obtain r ro a w1 where boot: "boot_module E parse PREFIX opts w = (Returns (r, ro, a), w1)" "tracks w r a"
    "length (owned_client r) = own_connections opts" "worker_list (ds_workers (ap_scan a)) = []"
    "events_list (ds_events (ap_scan a)) = []" "fl_producer (ap_flow a) \<noteq> None \<longleftrightarrow> mo_flows opts = Some (Some True)"
    using boot_step [OF assms(1-3)] by metis
  from assms(4) [OF boot(2,4-6)] obtain b where b: "s E ro r a = (Returns (), b)" "tracks w r b"
    "consumers (ap_scan b) = k" by blast
  let ?b = "set_world (advance 300 (app_world b)) b"
  have "world_ok (app_world b)" using b(2) by (simp add: tracks_def opens_def)
  from opens_later [OF this, of 300] have "opens (app_world b) {} {} (app_world ?b)"
    by (simp add: app_world_def set_world_def)
  then have tb: "tracks w r ?b"
    by (rule tracks_keep [OF b(2)]) (use b(2) in \<open>auto simp: set_world_def app_world_def tracks_def\<close>)
  have open_now: "held own (app_world ?b) = held own w + own_connections opts + (1 + own) * k"
    using tracks_held [OF tb, of own] boot(3) b(3) by (simp add: set_world_def consumers_def)
  obtain w2 where close: "close_app E ro r ?b = (Returns (), w2)" "opens w {} {} w2"
    using close_app_step [OF assms(1) tb] by blast
  have "world_ok w2" using close(2) by (simp add: opens_def)
  from opens_trans [OF close(2) opens_later [OF this, of 300]] have after: "opens w {} {} (advance 300 w2)" by simp
  then have left: "held own (advance 300 w2) = held own w" by (simp add: held_opens)
  have zero: "string_of_int 0 = ''0''" by (simp add: string_of_int_def decimal.simps digit_char_def char_of_def bit_0)
  have "connection_row E parse own PREFIX label s opts (rows, w) =
      (Returns (), (rows @ [row [label, decimal (own_connections opts + (1 + own) * k), ''0'']], advance 300 w2))"
    using boot(1) b(1) close(1) open_now left zero string_of_nat [of "own_connections opts + (1 + own) * k"]
    by (simp add: connection_row_def Let_def)
  from this after show thesis by (rule that)
qed

section \<open>The budget\<close>

text \<open>
  C5. The connection budget of the README is exact: boot the module on any configuration that its validation
  accepts (with a client that exists, if one is given) where nothing fails, register any workers and observe
  any queues under names that are not taken, and the row the benchmark prints
  says that it holds one connection for itself if it owns its connection and none if the client was
  given, and for each worker and each observed queue one duplicate plus what BullMQ opens; after the
  application closed nothing is left.
\<close>

theorem connection_budget_is_exact:
  assumes "obliging E" and "world_ok w" and "startable parse opts w" and "distinct ws" and "distinct es"
  shows "\<exists>w'. connection_row E parse own PREFIX label (one_by_one (map registers ws @ map observes es)) opts (rows, w) =
      (Returns (), (rows @ [row [label, decimal (own_connections opts + (1 + own) * (length ws + length es)), ''0'']], w'))
    \<and> held own w' = held own w"
proof -
  let ?s = "one_by_one (map registers ws @ map observes es)"
  have "\<exists>a'. ?s E ro r a = (Returns (), a') \<and> tracks w r a' \<and> consumers (ap_scan a') = length ws + length es"
    if "tracks w r a" "worker_list (ds_workers (ap_scan a)) = []" "events_list (ds_events (ap_scan a)) = []" for r ro a
    using brings_instance [OF assms(1), of ws es] that assms(4,5) by (fastforce simp: brings_def consumers_listed)
  then obtain w' where "connection_row E parse own PREFIX label ?s opts (rows, w) =
      (Returns (), (rows @ [row [label, decimal (own_connections opts + (1 + own) * (length ws + length es)), ''0'']], w'))"
    and "opens w {} {} w'"
    using connection_row_prints [OF assms(1-3), of ?s "length ws + length es"] by blast
  with held_opens [of w "{}" "{}" w' own] show ?thesis by simp
qed

section \<open>The table\<close>

definition prints :: "env \<Rightarrow> url_parser \<Rightarrow> nat \<Rightarrow> string \<Rightarrow> world \<Rightarrow> table_row \<Rightarrow> string \<Rightarrow> bool" where
  "prints E parse own PREFIX w0 tr line \<longleftrightarrow> (case tr of (label, s, opts) \<Rightarrow>
     \<forall>rows w. opens w0 {} {} w \<longrightarrow> (\<exists>w'. connection_row E parse own PREFIX label s opts (rows, w) =
        (Returns (), (rows @ [line], w')) \<and> opens w0 {} {} w'))"

lemma in_turn_prints:
  "list_all2 (prints E parse own PREFIX w0) trs lines \<Longrightarrow> opens w0 {} {} w \<Longrightarrow>
     \<exists>w'. in_turn E parse own PREFIX trs (rows, w) = (Returns (), (rows @ lines, w')) \<and> opens w0 {} {} w'"
proof (induction trs lines arbitrary: rows w rule: list_all2_induct)
  case (Cons tr trs line lines)
  obtain label s opts where tr: "tr = (label, s, opts)" by (cases tr) auto
  obtain w1 where "connection_row E parse own PREFIX label s opts (rows, w) = (Returns (), (rows @ [line], w1))" "opens w0 {} {} w1"
    using Cons.hyps(1) Cons.prems unfolding prints_def tr by fastforce
  with Cons.IH [of w1 "rows @ [line]"] show ?case by (auto simp: tr)
qed simp

lemma startable_later: "startable parse opts w \<Longrightarrow> opens w {} {} w' \<Longrightarrow> startable parse opts w'"
  unfolding startable_def opens_def by (meson order.strict_trans2)

lemma prints_brought:
  assumes "obliging E" and "startable parse opts w0" and "brings E s ws es" and "distinct ws" and "distinct es"
    and "n = own_connections opts + (1 + own) * (length ws + length es)"
  shows "prints E parse own PREFIX w0 (label, s, opts) (row [label, decimal n, ''0''])"
  unfolding prints_def prod.case
proof (intro allI impI)
  fix rows w assume w: "opens w0 {} {} w"
  have start: "world_ok w" "startable parse opts w" using w startable_later [OF assms(2) w] by (simp_all add: opens_def)
  have "\<exists>a'. s E ro r a = (Returns (), a') \<and> tracks w r a' \<and> consumers (ap_scan a') = length ws + length es"
    if "tracks w r a" "worker_list (ds_workers (ap_scan a)) = []" "events_list (ds_events (ap_scan a)) = []" for r ro a
    using assms(3) that assms(4,5) by (fastforce simp: brings_def consumers_listed)
  then obtain w' where run: "connection_row E parse own PREFIX label s opts (rows, w) =
      (Returns (), (rows @ [row [label, decimal n, ''0'']], w'))" and "opens w {} {} w'"
    using connection_row_prints [OF assms(1) start, of s "length ws + length es"] unfolding assms(6) by blast
  with opens_trans [OF w, of "{}" "{}" w'] show "\<exists>w'. connection_row E parse own PREFIX label s opts (rows, w) =
      (Returns (), (rows @ [row [label, decimal n, ''0'']], w')) \<and> opens w0 {} {} w'" by auto
qed

lemma prints_flow:
  assumes "obliging E" and "startable parse opts w0" and "mo_flows opts = Some (Some True)"
  shows "prints E parse own PREFIX w0 (label, adds_flow f, opts) (row [label, decimal (own_connections opts), ''0''])"
  unfolding prints_def prod.case
proof (intro allI impI)
  fix rows w assume w: "opens w0 {} {} w"
  have start: "world_ok w" "startable parse opts w" using w startable_later [OF assms(2) w] by (simp_all add: opens_def)
  have "\<exists>a'. adds_flow f E ro r a = (Returns (), a') \<and> tracks w r a' \<and> consumers (ap_scan a') = 0"
    if a: "tracks w r a" "worker_list (ds_workers (ap_scan a)) = []" "events_list (ds_events (ap_scan a)) = []"
      "fl_producer (ap_flow a) \<noteq> None \<longleftrightarrow> mo_flows opts = Some (Some True)" for r ro a
  proof -
    from a(4) assms(3) obtain h where "fl_producer (ap_flow a) = Some h" by auto
    from adds_flow_step [OF assms(1) a(1) this] a(2,3) show ?thesis by (metis add_0 consumers_listed list.size(3))
  qed
  then obtain w' where run: "connection_row E parse own PREFIX label (adds_flow f) opts (rows, w) =
      (Returns (), (rows @ [row [label, decimal (own_connections opts), ''0'']], w'))" and "opens w {} {} w'"
    using connection_row_prints [OF assms(1) start, of "adds_flow f" 0] by (metis add_0_right mult_0_right)
  with opens_trans [OF w, of "{}" "{}" w'] show "\<exists>w'. connection_row E parse own PREFIX label (adds_flow f) opts (rows, w) =
      (Returns (), (rows @ [row [label, decimal (own_connections opts), ''0'']], w')) \<and> opens w0 {} {} w'" by auto
qed

text \<open>The URL the benchmark is started with: neither blank nor malformed.\<close>

definition redis_url :: "url_parser \<Rightarrow> string \<Rightarrow> bool" where
  "redis_url parse url \<longleftrightarrow> \<not> blank url \<and> is_parseable_url parse url"

lemma demo_url: "redis_url (\<lambda>_. Some ([], [])) ''redis://h''"
  by (simp add: redis_url_def blank_def js_space_def is_parseable_url_def decodable_def)

lemma startable_modes:
  "redis_url parse url \<Longrightarrow> startable parse (url_only url) w"
  "redis_url parse url \<Longrightarrow> startable parse (with_flows (url_only url)) w"
  "c < w_next w \<Longrightarrow> startable parse (mode_a url c) w"
  by (auto simp: startable_def validate_options_def redis_url_def url_only_def with_flows_def mode_a_def has_key_def
      field_def drain_timeout_of_def cache_ttl_of_def)

lemma own_connections_modes [simp]:
  "own_connections (url_only url) = 1" "own_connections (with_flows (url_only url)) = 1"
  "own_connections (mode_a url c) = 0"
  by (simp_all add: own_connections_def url_only_def with_flows_def mode_a_def has_key_def)

lemma decimals: "decimal 0 = ''0''" "decimal 1 = ''1''" "decimal 2 = ''2''" "decimal 3 = ''3''" "decimal 11 = ''11''"
  by code_simp+

lemma numbered_five: "numbered stem 5 = [stem @ ''0'', stem @ ''1'', stem @ ''2'', stem @ ''3'', stem @ ''4'']"
proof -
  have "[0..<5] = [0, 1, 2, 3, 4 :: nat]" by (simp add: upt_rec)
  moreover have "decimal 4 = ''4''" by code_simp
  ultimately show ?thesis by (simp add: numbered_def decimals del: One_nat_def)
qed

definition the_table :: "string list" where
  "the_table =
    [''| module, Mode B (library-owned) | 1 | 0 |'',
     ''| module, Mode A (your client, not counted) | 0 | 0 |'',
     ''| Mode A + 1 worker | 2 | 0 |'',
     ''| Mode A + QueueEvents on 1 queue | 2 | 0 |'',
     ''| Mode B + 1 queue (one enqueue) | 1 | 0 |'',
     ''| Mode B + 10 queues | 1 | 0 |'',
     ''| Mode B + 1 worker | 3 | 0 |'',
     ''| Mode B + 5 workers | 11 | 0 |'',
     ''| Mode B + QueueEvents on 1 queue | 3 | 0 |'',
     ''| Mode B + QueueEvents on 5 queues | 11 | 0 |'',
     ''| Mode B + flows enabled (FlowProducer, one flow) | 1 | 0 |'']"

lemma consumer_owned_prints:
  assumes "obliging E" and "c < w_next w" and "redis_url parse url"
  shows "list_all2 (prints E parse 1 PREFIX w) (consumer_owned_connections url c) (take 4 the_table)"
proof -
  note brought = prints_brought [OF assms(1)]
  have "prints E parse 1 PREFIX w (''module, Mode B (library-owned)'', idle, url_only url)
      (row [''module, Mode B (library-owned)'', decimal 1, ''0''])"
    by (rule brought [OF _ brings_idle]) (simp_all add: startable_modes assms)
  moreover have "prints E parse 1 PREFIX w (''module, Mode A (your client, not counted)'', idle, mode_a url c)
      (row [''module, Mode A (your client, not counted)'', decimal 0, ''0''])"
    by (rule brought [OF _ brings_idle]) (simp_all add: startable_modes assms)
  moreover have "prints E parse 1 PREFIX w (''Mode A + 1 worker'', registers ''aw1'', mode_a url c)
      (row [''Mode A + 1 worker'', decimal 2, ''0''])"
    by (rule brought [OF _ brings_registers]) (simp_all add: startable_modes assms)
  moreover have "prints E parse 1 PREFIX w (''Mode A + QueueEvents on 1 queue'', observes ''ae1'', mode_a url c)
      (row [''Mode A + QueueEvents on 1 queue'', decimal 2, ''0''])"
    by (rule brought [OF _ brings_observes]) (simp_all add: startable_modes assms)
  ultimately show ?thesis
    by (simp add: consumer_owned_connections_def the_table_def decimals row_def del: One_nat_def)
qed

lemma library_owned_prints:
  assumes "obliging E" and "redis_url parse url"
  shows "list_all2 (prints E parse 1 PREFIX w) (library_owned_connections url) (drop 4 the_table)"
proof -
  note brought = prints_brought [OF assms(1)]
  have five: "brings E (one_by_one (map registers (numbered ''w'' 5))) (numbered ''w'' 5) []"
    "brings E (one_by_one (map observes (numbered ''e'' 5))) [] (numbered ''e'' 5)"
    using brings_instance [OF assms(1), of "numbered ''w'' 5" "[]"] brings_instance [OF assms(1), of "[]" "numbered ''e'' 5"]
    by simp_all
  have distinct: "distinct (numbered stem 5)" "length (numbered stem 5) = 5" for stem
    by (simp_all add: numbered_five)
  have "prints E parse 1 PREFIX w (''Mode B + 1 queue (one enqueue)'', enqueues ''c1'', url_only url)
      (row [''Mode B + 1 queue (one enqueue)'', decimal 1, ''0''])"
    by (rule brought [OF _ brings_enqueues]) (simp_all add: startable_modes assms)
  moreover have "prints E parse 1 PREFIX w (''Mode B + 10 queues'', one_by_one (map enqueues (numbered ''c'' 10)), url_only url)
      (row [''Mode B + 10 queues'', decimal 1, ''0''])"
    by (rule brought [OF _ brings_enqueues_all]) (simp_all add: startable_modes assms)
  moreover have "prints E parse 1 PREFIX w (''Mode B + 1 worker'', registers ''w1'', url_only url)
      (row [''Mode B + 1 worker'', decimal 3, ''0''])"
    by (rule brought [OF _ brings_registers]) (simp_all add: startable_modes assms)
  moreover have "prints E parse 1 PREFIX w (''Mode B + 5 workers'', one_by_one (map registers (numbered ''w'' 5)), url_only url)
      (row [''Mode B + 5 workers'', decimal 11, ''0''])"
    by (rule brought [OF _ five(1)]) (simp_all add: startable_modes distinct assms)
  moreover have "prints E parse 1 PREFIX w (''Mode B + QueueEvents on 1 queue'', observes ''e1'', url_only url)
      (row [''Mode B + QueueEvents on 1 queue'', decimal 3, ''0''])"
    by (rule brought [OF _ brings_observes]) (simp_all add: startable_modes assms)
  moreover have "prints E parse 1 PREFIX w (''Mode B + QueueEvents on 5 queues'', one_by_one (map observes (numbered ''e'' 5)), url_only url)
      (row [''Mode B + QueueEvents on 5 queues'', decimal 11, ''0''])"
    by (rule brought [OF _ five(2)]) (simp_all add: startable_modes distinct assms)
  moreover have "prints E parse 1 PREFIX w (''Mode B + flows enabled (FlowProducer, one flow)'', adds_flow demo_flow, with_flows (url_only url))
      (row [''Mode B + flows enabled (FlowProducer, one flow)'', decimal (own_connections (with_flows (url_only url))), ''0''])"
    by (rule prints_flow [OF assms(1) startable_modes(2) [OF assms(2)]]) (simp add: with_flows_def)
  ultimately show ?thesis
    by (simp add: library_owned_connections_def the_table_def decimals row_def del: One_nat_def)
qed

text \<open>
  The whole table. With the one blocking connection BullMQ opens for a consumer, its numbers are those
  recorded in \<open>src/docs/benchmark_results_2026-10-31.md\<close>, row for row, and the run leaves no connection behind.
\<close>

lemma connections_print_the_table:
  assumes "obliging E" and "world_ok w" and "redis_url parse url"
  shows "\<exists>w'. connections E parse 1 PREFIX url w = (Returns (table_heading @ the_table), w') \<and> held own w' = held own w"
proof -
  let ?c = "w_next w"
  let ?w1 = "(log_call (RedisNew ?c (Str url) []) w)\<lparr>w_next := Suc ?c\<rparr>"
  obtain v w2 where ping: "await E (Invoke ?c ''ping'' []) ?w1 = (Returns v, w2)"
    "w_calls w2 = w_calls ?w1 @ [Invoke ?c ''ping'' []]" "w_next w2 = Suc ?c"
    using obliging_await [OF assms(1), of "Invoke ?c ''ping'' []" ?w1] by auto
  have shared: "opens w {?c} {} w2"
    by (rule opens_calls [OF assms(2), where cs = "[RedisNew ?c (Str url) [], Invoke ?c ''ping'' []]"])
      (use ping in \<open>auto simp: log_call_def\<close>)
  then have "opens w2 {} {} w2" by (intro opens_refl) (simp add: opens_def)
  from in_turn_prints [OF consumer_owned_prints [OF assms(1) _ assms(3)] this, of ?c PREFIX "[]"] ping(3)
  obtain w3 where first: "in_turn E parse 1 PREFIX (consumer_owned_connections url ?c) ([], w2) =
      (Returns (), (take 4 the_table, w3))" "opens w2 {} {} w3" by auto
  from in_turn_prints [OF library_owned_prints [OF assms(1,3)] first(2), of PREFIX "take 4 the_table"]
  obtain w4 where second: "in_turn E parse 1 PREFIX (library_owned_connections url) (take 4 the_table, w3) =
      (Returns (), (the_table, w4))" "opens w2 {} {} w4" by auto
  obtain u w5 where quit: "await E (RedisQuit ?c) w4 = (Returns u, w5)" "w_calls w5 = w_calls w4 @ [RedisQuit ?c]"
    "w_next w5 = w_next w4"
    using obliging_await [OF assms(1)] by blast
  have "winds_down {?c} {?c} {} w4 w5" using quit by (simp add: winds_down_def)
  with opens_trans [OF shared second(2)] have "opens w {} {} w5"
    by (intro opens_winds_down [of w "{?c}" "{}" w4 "{?c}" w5]) (use shared second(2) in \<open>auto simp: opens_def\<close>)
  with held_opens [of w "{}" "{}" w5 own] ping(1) first(1) second(1) quit(1) show ?thesis
    by (simp add: connections_def Let_def)
qed

text \<open>The worked example of the README: 20 workers and 5 observed queues in Mode B hold 51 connections.\<close>

theorem connection_budget_is_exact_witness:
  "\<exists>w'. connection_row quiet_env (\<lambda>_. Some ([], [])) 1 ''bench'' ''the README'' (one_by_one (map registers (numbered ''w'' 20) @ map observes (numbered ''q'' 5)))
      (url_only ''redis://h'') ([], start_world) = (Returns (), ([''| the README | 51 | 0 |''], w'))"
proof -
  have ws: "distinct (numbered ''w'' 20)" "length (numbered ''w'' 20) = 20" by code_simp+
  have es: "distinct (numbered ''q'' 5)" "length (numbered ''q'' 5) = 5" by code_simp+
  note start = startable_modes(1) [OF demo_url]
  have "decimal 51 = ''51''" by code_simp
  then show ?thesis
    using connection_budget_is_exact [OF quiet_env_obliging start_world_ok start ws(1) es(1), of 1 "''bench''" "''the README''" "[]"]
    by (auto simp: ws(2) es(2) row_def)
qed

end
