(* ===== verification/BenchmarkRuns.thy ===== *)
theory BenchmarkRuns
  imports ConnectionTable
begin

text \<open>
  The throughput and latency runs of the benchmark (\<open>burstDrain\<close>, \<open>percentile\<close> and the loops of
  \<open>src/scripts/benchmark.mjs\<close>) on the model of the library: what they ask of the queue service and of the
  worker registry, how they wait, and what is released when they fail. What is left out is the
  arithmetic on elapsed times and the printing of its results.
\<close>

section \<open>Percentiles\<close>

text \<open>
  \<open>sorted[Math.min(sorted.length - 1, Math.ceil((p / 100) * sorted.length) - 1)]\<close>, \<open>None\<close> for \<open>undefined\<close>.
  The script asks for 50, 95 and 99: the double nearest to \<open>p / 100\<close> is exact or below, and so
  the rounded product is at most the exact one and above the integer before it, for fewer than \<open>2 ^ 45\<close>
  samples; the rank is the one of exact arithmetic.
\<close>

definition percentile :: "'a list \<Rightarrow> nat \<Rightarrow> 'a option" where
  "percentile xs p =
    (let n = length xs; i = min (int n - 1) (int ((p * n + 99) div 100) - 1)
     in if 0 \<le> i then Some (xs ! nat i) else None)"

lemma sorted_ranks:
  assumes "sorted (xs :: 'a :: linorder list)" and "i < length xs"
  shows "i < length (filter (\<lambda>x. x \<le> xs ! i) xs)" and "length (filter (\<lambda>x. x < xs ! i) xs) \<le> i"
proof -
  have "length (filter (\<lambda>x. x \<le> xs ! i) xs) \<ge> length (filter (\<lambda>x. x \<le> xs ! i) (take (Suc i) xs))"
    by (metis append_take_drop_id filter_append length_append le_add1)
  moreover have "filter (\<lambda>x. x \<le> xs ! i) (take (Suc i) xs) = take (Suc i) xs"
    using assms by (intro filter_True) (auto simp: in_set_conv_nth sorted_nth_mono)
  ultimately show "i < length (filter (\<lambda>x. x \<le> xs ! i) xs)" using assms(2) by simp
  have "filter (\<lambda>x. x < xs ! i) (drop i xs) = []"
    using assms by (intro filter_False) (auto simp: in_set_conv_nth not_less sorted_nth_mono)
  then have "filter (\<lambda>x. x < xs ! i) xs = filter (\<lambda>x. x < xs ! i) (take i xs)"
    by (metis append_Nil2 append_take_drop_id filter_append)
  also have "length \<dots> \<le> i" by (rule order_trans [OF length_filter_le]) simp
  finally show "length (filter (\<lambda>x. x < xs ! i) xs) \<le> i" .
qed

text \<open>
  The nearest rank: of the samples, at least \<open>p\<close> percent are at most the percentile, and fewer than \<open>p\<close> percent
  are below it.
\<close>

lemma percentile_is_nearest_rank:
  assumes "sorted (xs :: 'a :: linorder list)" and "xs \<noteq> []" and "0 < p" and "p \<le> 100"
  obtains v where "percentile xs p = Some v" and "v \<in> set xs"
    and "p * length xs \<le> 100 * length (filter (\<lambda>x. x \<le> v) xs)"
    and "100 * length (filter (\<lambda>x. x < v) xs) < p * length xs"
proof -
  let ?n = "length xs" and ?k = "(p * length xs + 99) div 100"
  have n: "0 < ?n" using assms(2) by simp
  have "0 < p * ?n" using n assms(3) by simp
  then have k: "0 < ?k" by linarith
  have "p * ?n \<le> 100 * ?n" using assms(4) by simp
  then have le: "?k \<le> ?n" by linarith
  have "min (int ?n - 1) (int ?k - 1) = int (?k - 1)" using k le by (auto simp: min_def of_nat_diff)
  then have "percentile xs p = Some (xs ! (?k - 1))" using k n by (simp add: percentile_def Let_def del: of_nat_diff)
  moreover have i: "?k - 1 < ?n" using k le by linarith
  moreover note ranks = sorted_ranks [OF assms(1) i]
  have "p * ?n \<le> 100 * length (filter (\<lambda>x. x \<le> xs ! (?k - 1)) xs)" using ranks(1) k by linarith
  moreover have "100 * (?k - 1) < p * ?n" using k \<open>0 < p * ?n\<close> by linarith
  then have "100 * length (filter (\<lambda>x. x < xs ! (?k - 1)) xs) < p * ?n" using ranks(2) by linarith
  moreover have "xs ! (?k - 1) \<in> set xs" using i by simp
  ultimately show thesis using that by blast
qed

section \<open>Draining a burst\<close>

definition burst_jobs :: "nat \<Rightarrow> bulk_job list" where
  "burst_jobs burst =
    map (\<lambda>i. \<lparr>bj_name = ''job'', bj_data = Obj [(''i'', Num (Fin (of_nat i)))], bj_options = Undef\<rparr>) [0..<burst]"

definition enqueues_bulk :: "string \<Rightarrow> bulk_job list \<Rightarrow> scenario" where
  "enqueues_bulk n jobs E ro r a =
    (let (res, (q, w)) = enqueue_bulk E ro r n jobs (ap_queues a, app_world a)
     in (as_unit res, set_world w (a\<lparr>ap_queues := q\<rparr>)))"

text \<open>A worker with its concurrency set, and a listener of the script on its \<open>completed\<close> event.\<close>

definition registers_with :: "string \<Rightarrow> nat \<Rightarrow> scenario" where
  "registers_with n concurrency E ro r a =
    (let (res, (wr, w)) = register E ro r n no_op_handler
           (Some \<lparr>wo_concurrency = Some (Fin (of_nat concurrency)), wo_limiter = None, wo_autorun = None, wo_lockDuration = None,
              wo_stalledInterval = None\<rparr>) (ds_workers (ap_scan a), app_world a)
     in case res of
          Returns h \<Rightarrow>
            (Returns (), a\<lparr>ap_scan := (ap_scan a)\<lparr>ds_workers := wr,
               ds_world := log_call (Invoke h ''on'' [Str ''completed'', no_op_handler]) w\<rparr>\<rparr>)
        | x \<Rightarrow> (as_unit x, a\<lparr>ap_scan := (ap_scan a)\<lparr>ds_workers := wr, ds_world := w\<rparr>\<rparr>))"

fun in_batches :: "string \<Rightarrow> bulk_job list list \<Rightarrow> scenario" where
  "in_batches n [] E ro r a = (Returns (), a)"
| "in_batches n (b # bs) E ro r a = andthen (enqueues_bulk n b E ro r a) (\<lambda>_. in_batches n bs E ro r)"

definition timed_out :: "string \<Rightarrow> 'a outcome" where
  "timed_out what = Throws (Foreign (js_error (''Timed out waiting for '' @ what)))"

text \<open>
  \<open>burstDrain\<close> up to the division by the time it took; \<open>rounds\<close> is what the loop of \<open>until\<close> observes.
\<close>

definition burst_drain :: "nat \<Rightarrow> nat \<Rightarrow> (bool \<times> nat) list \<Rightarrow> scenario" where
  "burst_drain burst concurrency rounds E ro r a =
    (let name = ''burst'' @ decimal concurrency
     in andthen (registers_with name concurrency E ro r a) (\<lambda>_ a1.
        andthen (in_batches name (burst_batches burst (burst_jobs burst) 0) E ro r (set_world (advance 300 (app_world a1)) a1))
          (\<lambda>_ a2. ((case wait_until (w_now (app_world a2)) rounds of
              Some Fulfilled \<Rightarrow> Returns ()
            | Some Timed_out \<Rightarrow> timed_out ''burst jobs to complete''
            | None \<Rightarrow> Hangs), a2))))"

section \<open>No batch of a burst is refused\<close>

text \<open>The jobs handed to BullMQ by \<open>addBulk\<close>.\<close>

fun bulk_added :: "call \<Rightarrow> jsval list" where
  "bulk_added (Invoke h m [Arr js]) = (if m = ''addBulk'' then js else [])"
| "bulk_added _ = []"

definition all_added :: "world \<Rightarrow> jsval list" where
  "all_added w = concat (map bulk_added (w_calls w))"

lemma queue_for_adds_nothing:
  "queue_for E ro r n s = (res, (q, w)) \<Longrightarrow> all_added w = all_added (snd s)"
  by (auto simp: queue_for_def get_or_create_queue_def Let_def all_added_def attach_default_error_listener_def
      construct_def log_call_def split: prod.splits option.splits result.splits)

lemma register_adds_nothing:
  "register E ro r n hdl opts (wr, w) = (res, (wr', w')) \<Longrightarrow> all_added w' = all_added w"
  by (auto simp: register_def checked_def start_worker_def duplicate_connection_def construct_def Let_def all_added_def
      attach_default_error_listener_def log_call_def disconnect_def
      split: prod.splits option.splits result.splits)

lemma enqueues_bulk_step:
  assumes "obliging E" and "tracks w0 r a" and "length jobs \<le> MAX_BULK_SIZE"
  obtains a' where "enqueues_bulk n jobs E ro r a = (Returns (), a')" and "tracks w0 r a'"
    and "all_added (app_world a') = all_added (app_world a) @ map bulk_entry jobs"
    and "ds_workers (ap_scan a') = ds_workers (ap_scan a)"
proof -
  have "''addBulk'' \<noteq> ''close''" by simp
  from queue_call_step [OF assms(1,2) this] obtain v q w where call:
    "queue_call E ro r n ''addBulk'' [Arr (map bulk_entry jobs)] (ap_queues a, app_world a) = (Returns v, (q, w))"
    "tracks w0 r (set_world w (a\<lparr>ap_queues := q\<rparr>))" by blast
  obtain h q1 w1 where q: "queue_for E ro r n (ap_queues a, app_world a) = (Returns h, (q1, w1))"
    "await E (Invoke h ''addBulk'' [Arr (map bulk_entry jobs)]) w1 = (Returns v, w)"
    using call(1) by (auto simp: queue_call_def Let_def split: prod.splits result.splits)
  have "all_added w = all_added (app_world a) @ map bulk_entry jobs"
    using queue_for_adds_nothing [OF q(1)] await_calls [OF q(2)] by (simp add: all_added_def)
  moreover have "enqueues_bulk n jobs E ro r a = (Returns (), set_world w (a\<lparr>ap_queues := q\<rparr>))"
    using call(1) assms(3) by (simp add: enqueues_bulk_def enqueue_bulk_def)
  moreover have "app_world (set_world w (a\<lparr>ap_queues := q\<rparr>)) = w"
    "ds_workers (ap_scan (set_world w (a\<lparr>ap_queues := q\<rparr>))) = ds_workers (ap_scan a)" by (simp_all add: app_world_def set_world_def)
  ultimately show thesis using call(2) that by metis
qed

lemma in_batches_step:
  assumes "obliging E"
  shows "tracks w0 r a \<Longrightarrow> \<forall>b \<in> set bs. length b \<le> MAX_BULK_SIZE \<Longrightarrow>
    \<exists>a'. in_batches n bs E ro r a = (Returns (), a') \<and> tracks w0 r a'
      \<and> all_added (app_world a') = all_added (app_world a) @ map bulk_entry (concat bs)"
proof (induction bs arbitrary: a)
  case (Cons b bs)
  from Cons.prems(2) have "length b \<le> MAX_BULK_SIZE" by simp
  from enqueues_bulk_step [OF assms Cons.prems(1) this] obtain a1 where
    one: "enqueues_bulk n b E ro r a = (Returns (), a1)" "tracks w0 r a1"
    "all_added (app_world a1) = all_added (app_world a) @ map bulk_entry b" by blast
  from Cons.IH [OF one(2)] Cons.prems(2) one(1,3) show ?case by fastforce
qed simp

lemma registers_with_step:
  assumes "obliging E" and "tracks w0 r a" and "map_of (wr_entries (ds_workers (ap_scan a))) n = None"
    and "1 \<le> concurrency" and "concurrency \<le> 1000"
  obtains a' where "registers_with n concurrency E ro r a = (Returns (), a')" and "tracks w0 r a'"
    and "all_added (app_world a') = all_added (app_world a)"
    and "worker_list (ds_workers (ap_scan a')) = worker_list (ds_workers (ap_scan a)) @ [n]"
proof -
  let ?opts = "Some \<lparr>wo_concurrency = Some (Fin (of_nat concurrency)), wo_limiter = None, wo_autorun = None,
    wo_lockDuration = None, wo_stalledInterval = None\<rparr>"
  have "check_concurrency (Fin (of_nat concurrency)) = Returns ()"
    using assms(4,5) by (simp add: check_concurrency_iff)
  then have valid: "validate_worker_options ?opts = Returns ()"
    by (simp add: validate_worker_options_def check_present_def)
  obtain h wr w where reg: "register E ro r n no_op_handler ?opts (ds_workers (ap_scan a), app_world a) = (Returns h, (wr, w))"
    "tracks w0 r (a\<lparr>ap_scan := (ap_scan a)\<lparr>ds_workers := wr, ds_world := w\<rparr>\<rparr>)" "h < w_next w" "worker_list wr = worker_list (ds_workers (ap_scan a)) @ [n]"
    using register_step [OF assms(1-3) valid] by blast
  let ?a1 = "a\<lparr>ap_scan := (ap_scan a)\<lparr>ds_workers := wr, ds_world := w\<rparr>\<rparr>"
  let ?w' = "log_call (Invoke h ''on'' [Str ''completed'', no_op_handler]) w"
  let ?a' = "a\<lparr>ap_scan := (ap_scan a)\<lparr>ds_workers := wr, ds_world := ?w'\<rparr>\<rparr>"
  have "world_ok w" using reg(2) by (simp add: tracks_def opens_def app_world_def)
  then have "opens w {} {} ?w'"
    by (rule opens_calls [where cs = "[Invoke h ''on'' [Str ''completed'', no_op_handler]]"])
      (use reg(3) in \<open>auto simp: log_call_def\<close>)
  then have "tracks w0 r ?a'"
    by (intro tracks_keep [OF reg(2)]) (use reg(2) in \<open>auto simp: app_world_def tracks_def log_call_def\<close>)
  moreover have "registers_with n concurrency E ro r a = (Returns (), ?a')"
    using reg(1) by (simp add: registers_with_def)
  moreover have "all_added ?w' = all_added (app_world a)"
    using register_adds_nothing [OF reg(1)] by (simp add: all_added_def log_call_def no_op_handler_def)
  then have "all_added (app_world ?a') = all_added (app_world a)" by (simp add: app_world_def)
  moreover have "worker_list (ds_workers (ap_scan ?a')) = worker_list (ds_workers (ap_scan a)) @ [n]" using reg(4) by simp
  ultimately show thesis using that by metis
qed

lemma burst_is_cut_for_the_queue: "b \<in> set (burst_batches burst jobs i) \<Longrightarrow> length b \<le> MAX_BULK_SIZE"
  using burst_batches_sizes [of b burst jobs i] by (simp add: BULK_SIZE_def MAX_BULK_SIZE_def)

lemma burst_drain_step:
  assumes "obliging E" and "tracks w0 r a" and "map_of (wr_entries (ds_workers (ap_scan a))) (''burst'' @ decimal concurrency) = None"
    and "1 \<le> concurrency" and "concurrency \<le> 1000"
    and "burst_drain burst concurrency rounds E ro r a = (res, a')"
  shows "tracks w0 r a'" and "all_added (app_world a') = all_added (app_world a) @ map bulk_entry (burst_jobs burst)"
    and "res = (case wait_until (w_now (app_world a')) rounds of Some Fulfilled \<Rightarrow> Returns ()
      | Some Timed_out \<Rightarrow> timed_out ''burst jobs to complete'' | None \<Rightarrow> Hangs)"
proof -
  let ?name = "''burst'' @ decimal concurrency" and ?bs = "burst_batches burst (burst_jobs burst) 0"
  from registers_with_step [OF assms(1-5)] obtain a1 where
    one: "registers_with ?name concurrency E ro r a = (Returns (), a1)" "tracks w0 r a1"
      "all_added (app_world a1) = all_added (app_world a)" by blast
  let ?a2 = "set_world (advance 300 (app_world a1)) a1"
  have "opens (app_world a1) {} {} (app_world ?a2)"
    using opens_later [of "app_world a1" 300] one(2) by (simp add: tracks_def opens_def app_world_def set_world_def)
  then have two: "tracks w0 r ?a2"
    by (rule tracks_keep [OF one(2)]) (use one(2) in \<open>auto simp: set_world_def app_world_def tracks_def\<close>)
  have "\<forall>b \<in> set ?bs. length b \<le> MAX_BULK_SIZE" using burst_is_cut_for_the_queue by blast
  from in_batches_step [OF assms(1) two this] obtain a3 where
    three: "in_batches ?name ?bs E ro r ?a2 = (Returns (), a3)" "tracks w0 r a3"
      "all_added (app_world a3) = all_added (app_world ?a2) @ map bulk_entry (concat ?bs)" by blast
  have "concat ?bs = burst_jobs burst" using burst_batches_concat [of "burst_jobs burst" burst 0] by (simp add: burst_jobs_def)
  moreover have "all_added (app_world ?a2) = all_added (app_world a)"
    using one(3) by (simp add: app_world_def set_world_def all_added_def)
  moreover have out: "a' = a3" "res = (case wait_until (w_now (app_world a3)) rounds of Some Fulfilled \<Rightarrow> Returns ()
      | Some Timed_out \<Rightarrow> timed_out ''burst jobs to complete'' | None \<Rightarrow> Hangs)"
    using assms(6) one(1) three(1) by (auto simp: burst_drain_def Let_def)
  ultimately show "all_added (app_world a') = all_added (app_world a) @ map bulk_entry (burst_jobs burst)" using three(3) by simp
  show "tracks w0 r a'" "res = (case wait_until (w_now (app_world a')) rounds of Some Fulfilled \<Rightarrow> Returns ()
      | Some Timed_out \<Rightarrow> timed_out ''burst jobs to complete'' | None \<Rightarrow> Hangs)" using out three(2) by simp_all
qed



section \<open>Throughput\<close>

definition job_data :: "nat \<Rightarrow> jsval" where
  "job_data i = Obj [(''i'', Num (Fin (of_nat i)))]"

definition enqueues_job :: "string \<Rightarrow> jsval \<Rightarrow> scenario" where
  "enqueues_job n data E ro r a =
    (let (res, (q, w)) = enqueue E ro r n ''job'' data Undef (ap_queues a, app_world a)
     in (as_unit res, set_world w (a\<lparr>ap_queues := q\<rparr>)))"

text \<open>
  \<open>enqueueThroughput\<close> up to the printing: what \<open>pool\<close> starts it starts in the order of the indices (\<open>TaskPool\<close>), and
  \<open>enqueue\<close> hands its job over before it first awaits, so the calls come in this order with any number in flight.
\<close>

definition throughput_steps :: "nat \<Rightarrow> nat \<Rightarrow> nat \<Rightarrow> scenario list" where
  "throughput_steps SEQUENTIAL CONCURRENT BULK_BATCHES =
     map (\<lambda>i. enqueues_job ''seq'' (job_data i)) [0..<SEQUENTIAL]
   @ map (\<lambda>i. enqueues_job ''con'' (job_data i)) [0..<CONCURRENT]
   @ map (\<lambda>_. enqueues_bulk ''bulk'' (burst_jobs BULK_SIZE)) [0..<BULK_BATCHES]"

definition enqueue_throughput ::
    "env \<Rightarrow> url_parser \<Rightarrow> string \<Rightarrow> string \<Rightarrow> nat \<Rightarrow> nat \<Rightarrow> nat \<Rightarrow> world \<Rightarrow> unit outcome \<times> world" where
  "enqueue_throughput E parse PREFIX url SEQUENTIAL CONCURRENT BULK_BATCHES w =
    (case boot_module E parse PREFIX (url_only url) w of
       (Returns (r, ro, a), w1) \<Rightarrow>
         (case one_by_one (throughput_steps SEQUENTIAL CONCURRENT BULK_BATCHES) E ro r a of
            (Returns _, a1) \<Rightarrow> close_app E ro r a1
          | (Throws x, a1) \<Rightarrow> (Throws x, app_world a1)
          | (Hangs, a1) \<Rightarrow> (Hangs, app_world a1))
     | (Throws x, w1) \<Rightarrow> (Throws x, w1)
     | (Hangs, w1) \<Rightarrow> (Hangs, w1))"

text \<open>Steps that only talk to queues keep the ledger, and so does any sequence of them.\<close>

definition keeps :: "env \<Rightarrow> scenario \<Rightarrow> bool" where
  "keeps E s \<longleftrightarrow> (\<forall>w0 ro r a. tracks w0 r a \<longrightarrow> (\<exists>a'. s E ro r a = (Returns (), a') \<and> tracks w0 r a'
     \<and> ds_workers (ap_scan a') = ds_workers (ap_scan a)))"

lemma keeps_all: "\<forall>s \<in> set ss. keeps E s \<Longrightarrow> keeps E (one_by_one ss)"
proof (induction ss)
  case (Cons s ss)
  then have "keeps E s" "keeps E (one_by_one ss)" by auto
  then show ?case unfolding keeps_def by (metis andthen_simps(1) one_by_one.simps(2))
qed (simp add: keeps_def)

lemma keeps_enqueues_job:
  assumes "obliging E"
  shows "keeps E (enqueues_job n data)"
  unfolding keeps_def
proof (intro allI impI)
  fix w0 ro r a assume a: "tracks w0 r a"
  have "''add'' \<noteq> ''close''" by simp
  from queue_call_step [OF assms a this] obtain v q w where
    "queue_call E ro r n ''add'' [Str ''job'', data, Undef] (ap_queues a, app_world a) = (Returns v, (q, w))"
    "tracks w0 r (set_world w (a\<lparr>ap_queues := q\<rparr>))" by blast
  then show "\<exists>a'. enqueues_job n data E ro r a = (Returns (), a') \<and> tracks w0 r a'
      \<and> ds_workers (ap_scan a') = ds_workers (ap_scan a)"
    by (simp add: enqueues_job_def enqueue_def set_world_def)
qed

lemma keeps_enqueues_bulk:
  "obliging E \<Longrightarrow> length jobs \<le> MAX_BULK_SIZE \<Longrightarrow> keeps E (enqueues_bulk n jobs)"
  unfolding keeps_def using enqueues_bulk_step by metis

text \<open>A throughput run succeeds whatever its sizes and leaves no connection.\<close>

lemma throughput_leaves_nothing:
  assumes "obliging E" and "world_ok w" and "redis_url parse url"
  shows "\<exists>w'. enqueue_throughput E parse PREFIX url SEQUENTIAL CONCURRENT BULK_BATCHES w = (Returns (), w')
    \<and> held own w' = held own w"
proof -
  obtain r ro a w1 where boot: "boot_module E parse PREFIX (url_only url) w = (Returns (r, ro, a), w1)" "tracks w r a"
    using boot_step [OF assms(1,2) startable_modes(1) [OF assms(3)]] by metis
  have "length (burst_jobs BULK_SIZE) \<le> MAX_BULK_SIZE" by (simp add: burst_jobs_def BULK_SIZE_def MAX_BULK_SIZE_def)
  then have "keeps E (one_by_one (throughput_steps SEQUENTIAL CONCURRENT BULK_BATCHES))"
    using keeps_enqueues_job [OF assms(1)] keeps_enqueues_bulk [OF assms(1)]
    by (intro keeps_all) (auto simp: throughput_steps_def)
  with boot(2) obtain a1 where run: "one_by_one (throughput_steps SEQUENTIAL CONCURRENT BULK_BATCHES) E ro r a = (Returns (), a1)"
    "tracks w r a1" unfolding keeps_def by blast
  obtain w2 where "close_app E ro r a1 = (Returns (), w2)" "opens w {} {} w2"
    using close_app_step [OF assms(1) run(2)] by blast
  with boot(1) run(1) held_opens [of w "{}" "{}" w2 own] show ?thesis by (simp add: enqueue_throughput_def)
qed

section \<open>Latency\<close>

text \<open>
  One turn of the pacing loop: how long to wait before job \<open>i\<close> is due, \<open>None\<close> to go on at once. Node's
  timers count whole milliseconds.
\<close>

definition pause :: "rat \<Rightarrow> rat \<Rightarrow> nat \<Rightarrow> rat \<Rightarrow> nat option" where
  "pause startedAt interval i now =
    (let wait = startedAt + of_nat i * interval - now in if 1 < wait then Some (nat \<lfloor>wait\<rfloor>) else None)"

definition sleeps :: "nat option \<Rightarrow> scenario" where
  "sleeps d E ro r a = (Returns (), set_world (advance (case d of None \<Rightarrow> 0 | Some ms \<Rightarrow> ms) (app_world a)) a)"

definition paced_steps :: "string \<Rightarrow> rat \<Rightarrow> rat \<Rightarrow> (rat \<times> jsval) list \<Rightarrow> scenario list" where
  "paced_steps n startedAt interval readings =
    concat (map (\<lambda>(i, now, t0). [sleeps (pause startedAt interval i now), enqueues_job n (Obj [(''t0'', t0)])])
      (zip [0..<length readings] readings))"

text \<open>
  \<open>pacedLatency\<close>: the clock readings of the loop, the observations of the wait and the samples the \<open>completed\<close>
  events left are arguments. Without a sample a percentile is \<open>undefined\<close>, and reading \<open>toFixed\<close> of it throws.
\<close>

definition all_defined :: "'a option list \<Rightarrow> 'a list outcome" where
  "all_defined xs = (if None \<in> set xs then type_error ''Cannot read properties of undefined (reading 'toFixed')''
     else Returns (map the xs))"

definition paced_latency ::
    "nat \<Rightarrow> rat \<Rightarrow> rat \<Rightarrow> (rat \<times> jsval) list \<Rightarrow> (bool \<times> nat) list \<Rightarrow> rat list \<Rightarrow> env \<Rightarrow> resolved_options \<Rightarrow> resolver
     \<Rightarrow> application \<Rightarrow> rat list outcome \<times> application" where
  "paced_latency concurrency startedAt interval readings rounds samples E ro r a =
    (let name = ''lat'' @ decimal concurrency
     in andthen (registers_with name concurrency E ro r a) (\<lambda>_ a1.
        andthen (one_by_one (paced_steps name startedAt interval readings) E ro r (set_world (advance 500 (app_world a1)) a1))
          (\<lambda>_ a2. ((case wait_until (w_now (app_world a2)) rounds of
              Some Fulfilled \<Rightarrow> all_defined (map (percentile (sort samples)) [50, 95, 99])
            | Some Timed_out \<Rightarrow> timed_out ''latency jobs to complete''
            | None \<Rightarrow> Hangs), a2))))"

lemma keeps_sleeps: "keeps E (sleeps d)"
  unfolding keeps_def
proof (intro allI impI)
  fix w0 ro r a assume a: "tracks w0 r a"
  let ?a' = "set_world (advance (case d of None \<Rightarrow> 0 | Some ms \<Rightarrow> ms) (app_world a)) a"
  have "opens (app_world a) {} {} (app_world ?a')"
    using opens_later a by (simp add: tracks_def opens_def app_world_def set_world_def)
  then have "tracks w0 r ?a'"
    by (rule tracks_keep [OF a]) (use a in \<open>auto simp: set_world_def app_world_def tracks_def\<close>)
  then show "\<exists>a'. sleeps d E ro r a = (Returns (), a') \<and> tracks w0 r a' \<and> ds_workers (ap_scan a') = ds_workers (ap_scan a)"
    by (simp add: sleeps_def set_world_def)
qed

text \<open>A pause ends at most a millisecond before the job is due, and none is taken that overshoots it.\<close>

lemma pause_is_on_time:
  "case pause startedAt interval i now of
     None \<Rightarrow> startedAt + of_nat i * interval \<le> now + 1
   | Some ms \<Rightarrow> now + of_nat ms \<le> startedAt + of_nat i * interval \<and> startedAt + of_nat i * interval < now + of_nat ms + 1"
proof -
  let ?wait = "startedAt + of_nat i * interval - now"
  have "of_nat (nat \<lfloor>?wait\<rfloor>) = (of_int \<lfloor>?wait\<rfloor> :: rat)" if "1 < ?wait"
    using that by (intro of_nat_nat) linarith
  then show ?thesis by (auto simp: pause_def Let_def split: option.split) linarith+
qed

lemma percentiles_defined: "returned (all_defined (map (percentile (sort samples)) [50, 95, 99])) \<longleftrightarrow> samples \<noteq> []"
proof (cases "samples = []")
  case True
  then show ?thesis by (simp add: all_defined_def percentile_def type_error_def)
next
  case False
  have "percentile (sort samples) p \<noteq> None" if "0 < p" "p \<le> 100" for p
    using percentile_is_nearest_rank [of "sort samples" p] False that
    by (metis not_Cons_self2 option.distinct(1) sort_key_simps(1) sorted_sort set_sort set_empty2)
  from this [of 50] this [of 95] this [of 99] False show ?thesis by (auto simp: all_defined_def)
qed

text \<open>The pacing ends, and the percentiles are there exactly when the wait is fulfilled and left a sample.\<close>

lemma paced_latency_step:
  assumes "obliging E" and "tracks w0 r a" and "map_of (wr_entries (ds_workers (ap_scan a))) (''lat'' @ decimal concurrency) = None"
    and "1 \<le> concurrency" and "concurrency \<le> 1000"
    and "paced_latency concurrency startedAt interval readings rounds samples E ro r a = (res, a')"
  shows "tracks w0 r a'"
    and "worker_list (ds_workers (ap_scan a')) = worker_list (ds_workers (ap_scan a)) @ [''lat'' @ decimal concurrency]"
    and "returned res \<longleftrightarrow> wait_until (w_now (app_world a')) rounds = Some Fulfilled \<and> samples \<noteq> []"
proof -
  let ?name = "''lat'' @ decimal concurrency"
  from registers_with_step [OF assms(1-5)] obtain a1 where
    one: "registers_with ?name concurrency E ro r a = (Returns (), a1)" "tracks w0 r a1"
      "worker_list (ds_workers (ap_scan a1)) = worker_list (ds_workers (ap_scan a)) @ [?name]" by blast
  let ?a2 = "set_world (advance 500 (app_world a1)) a1"
  have "sleeps (Some 500) E ro r a1 = (Returns (), ?a2)" by (simp add: sleeps_def)
  then have two: "tracks w0 r ?a2" "ds_workers (ap_scan ?a2) = ds_workers (ap_scan a1)"
    using keeps_sleeps [of E "Some 500"] one(2) unfolding keeps_def by (metis prod.inject)+
  have "keeps E (one_by_one (paced_steps ?name startedAt interval readings))"
    by (intro keeps_all) (auto simp: paced_steps_def keeps_sleeps keeps_enqueues_job [OF assms(1)])
  with two(1) obtain a3 where three: "one_by_one (paced_steps ?name startedAt interval readings) E ro r ?a2 = (Returns (), a3)"
    "tracks w0 r a3" "ds_workers (ap_scan a3) = ds_workers (ap_scan ?a2)" unfolding keeps_def by blast
  have out: "a' = a3" "res = (case wait_until (w_now (app_world a3)) rounds of
      Some Fulfilled \<Rightarrow> all_defined (map (percentile (sort samples)) [50, 95, 99])
    | Some Timed_out \<Rightarrow> timed_out ''latency jobs to complete'' | None \<Rightarrow> Hangs)"
    using assms(6) one(1) three(1) by (auto simp: paced_latency_def Let_def)
  show "tracks w0 r a'" using out(1) three(2) by simp
  show "worker_list (ds_workers (ap_scan a')) = worker_list (ds_workers (ap_scan a)) @ [?name]"
    using out(1) three(3) two(2) one(3) by simp
  show "returned res \<longleftrightarrow> wait_until (w_now (app_world a')) rounds = Some Fulfilled \<and> samples \<noteq> []"
    unfolding out using percentiles_defined by (auto simp: timed_out_def split: option.split waited.split)
qed

section \<open>The whole run\<close>

text \<open>\<open>latency\<close>: both measurements on one application, which is closed when both have succeeded.\<close>

fun carry :: "'a outcome \<times> application \<Rightarrow> ('a \<times> application) outcome \<times> world" where
  "carry (Returns v, a) = (Returns (v, a), app_world a)"
| "carry (Throws x, a) = (Throws x, app_world a)"
| "carry (Hangs, a) = (Hangs, app_world a)"

record latency_input =
  li_startedAt :: rat
  li_interval :: rat
  li_readings :: "(rat \<times> jsval) list"
  li_rounds :: "(bool \<times> nat) list"
  li_samples :: "rat list"
  li_burst_rounds :: "(bool \<times> nat) list"

definition latency :: "env \<Rightarrow> url_parser \<Rightarrow> string \<Rightarrow> string \<Rightarrow> nat \<Rightarrow> nat \<Rightarrow> latency_input \<Rightarrow> world \<Rightarrow> rat list outcome \<times> world" where
  "latency E parse PREFIX url burst concurrency l w =
    andthen (boot_module E parse PREFIX (url_only url) w) (\<lambda>(r, ro, a) _.
    andthen (carry (paced_latency concurrency (li_startedAt l) (li_interval l) (li_readings l) (li_rounds l) (li_samples l) E ro r a))
      (\<lambda>(percentiles, a1) _.
    andthen (carry (burst_drain burst concurrency (li_burst_rounds l) E ro r a1)) (\<lambda>(_, a2) _.
    andthen (close_app E ro r a2) (\<lambda>_ w2. (Returns percentiles, w2)))))"

lemma decimal_lat_burst: "''lat'' @ decimal c \<noteq> ''burst'' @ decimal c"
  by simp

text \<open>A row that is printed left no connection behind.\<close>

lemma latency_leaves_nothing:
  assumes "obliging E" and "world_ok w" and "1 \<le> concurrency" and "concurrency \<le> 1000" and "redis_url parse url"
    and "latency E parse PREFIX url burst concurrency l w = (Returns percentiles, w')"
  shows "held own w' = held own w \<and> li_samples l \<noteq> []"
proof -
  obtain r ro a w1 where boot: "boot_module E parse PREFIX (url_only url) w = (Returns (r, ro, a), w1)" "tracks w r a"
    "worker_list (ds_workers (ap_scan a)) = []"
    using boot_step [OF assms(1,2) startable_modes(1) [OF assms(5)]] by metis
  obtain p a1 where p: "paced_latency concurrency (li_startedAt l) (li_interval l) (li_readings l) (li_rounds l) (li_samples l) E ro r a = (p, a1)"
    by force
  have "map_of (wr_entries (ds_workers (ap_scan a))) (''lat'' @ decimal concurrency) = None"
    using boot(3) by (intro absent_worker) simp
  note paced = paced_latency_step [OF assms(1) boot(2) this assms(3,4) p]
  from assms(6) boot(1) p obtain ps where ps: "p = Returns ps" by (cases p) (auto simp: latency_def)
  obtain b a2 where b: "burst_drain burst concurrency (li_burst_rounds l) E ro r a1 = (b, a2)" by force
  have "map_of (wr_entries (ds_workers (ap_scan a1))) (''burst'' @ decimal concurrency) = None"
    using boot(3) paced(2) by (intro absent_worker) simp
  note burst = burst_drain_step [OF assms(1) paced(1) this assms(3,4) b]
  from assms(6) boot(1) p ps b obtain u where u: "b = Returns u" by (cases b) (auto simp: latency_def)
  obtain w2 where close: "close_app E ro r a2 = (Returns (), w2)" "opens w {} {} w2"
    using close_app_step [OF assms(1) burst(1)] by blast
  have "w' = w2" using assms(6) boot(1) p ps b u close(1) by (simp add: latency_def)
  with held_opens [OF close(2), of own] paced(3) ps show ?thesis by simp
qed

text \<open>
  The end of \<open>main\<close>: \<open>try { ... } finally { cleanup; quit }\<close>. The second part runs when the first one returned or
  threw, and what it throws replaces the result. The parts are the throughput, the latency and the connection runs, in this order.
\<close>

definition finally_do :: "'a outcome \<times> 's \<Rightarrow> ('s \<Rightarrow> unit outcome \<times> 's) \<Rightarrow> 'a outcome \<times> 's" where
  "finally_do m f = (case m of
      (Hangs, s) \<Rightarrow> (Hangs, s)
    | (res, s) \<Rightarrow> (case f s of (Returns _, s1) \<Rightarrow> (res, s1) | (Throws x, s1) \<Rightarrow> (Throws x, s1) | (Hangs, s1) \<Rightarrow> (Hangs, s1)))"

definition main_run ::
    "('s \<Rightarrow> unit outcome \<times> 's) list \<Rightarrow> ('s \<Rightarrow> unit outcome \<times> 's) \<Rightarrow> ('s \<Rightarrow> unit outcome \<times> 's) \<Rightarrow> 's \<Rightarrow> unit outcome \<times> 's" where
  "main_run parts clean quit s =
    finally_do (fold (\<lambda>part m. andthen m (\<lambda>_. part)) parts (Returns (), s)) (\<lambda>s1. andthen (clean s1) (\<lambda>_. quit))"

text \<open>Whatever part fails, the keys of the run are deleted: the cleanup starts from the state the failure left.\<close>

lemma cleanup_always_runs:
  assumes "fold (\<lambda>part m. andthen m (\<lambda>_. part)) parts (Returns (), s) = (res, s1)" and "res \<noteq> Hangs"
    and "clean s1 = (Returns (), s2)" and "quit s2 = (Returns (), s3)"
  shows "main_run parts clean quit s = (res, s3)"
  using assms by (cases res) (simp_all add: main_run_def finally_do_def)

end
