(* ===== verification/Spec2Isabelle.thy ===== *)
theory Spec2Isabelle
  imports MetricsRace Application ShutdownRace QueueClosing SmokeTest FileLength PublishedGate StripComments ConstTables
    Directives BenchmarkRuns
begin

text \<open>
  Verification of \<^verbatim>\<open>@bymax-one/nest-queue\<close>: a NestJS module that wraps BullMQ
  (\<open>src/src\<close>), and the maintenance scripts that guard its releases (\<open>src/scripts\<close>). This theory
  imports all others; it holds this overview and the properties that span components.

  \<^bold>\<open>The program.\<close> The module validates its options, resolves one Redis client (the
  consumer's own, Mode A, or one it opens, Mode B) and provides services on it: queues by name,
  workers and event streams (each on a duplicate of the client), an opt-in flow producer and
  opt-in cached metrics. Decorated providers are discovered at module initialization and wired to
  workers and streams. Two shutdown hooks release everything in order. The scripts check file
  lengths, the published type surface, links and CHANGELOG, compile the examples of the README,
  strip comments from the bundles, mutate constant tables, and try the built package.

  \<^bold>\<open>Foundations.\<close>
  \<^item> \<open>Prelude\<close>: the insertion-ordered map of the language, the result of an operation (returns,
    throws, hangs), collections of lemmas, the locale \<open>ordered_map\<close>.
  \<^item> \<open>JsValues\<close>: dynamic values, numbers with \<open>NaN\<close> and infinities, timer delays.
  \<^item> \<open>JsText\<close>, \<open>JsRegex\<close>, \<open>JsMatches\<close>, \<open>NodePath\<close>, \<open>Paths\<close>: strings, regular expressions (an
    executable matcher proved sound and complete for its declarative reading; where the matches of
    a global search lie, and lines under replacement), POSIX paths.
  \<^item> \<open>Contracts\<close>: the interfaces several services share (one instance per name, the ledger of
    duplicated connections, an opt-in service), as locales interpreted where they are provided.
  \<^item> \<open>Externals\<close>: the boundary to ioredis and BullMQ. A world is the clock, the next identity,
    the trace of outgoing calls and the log; the environment \<open>env\<close> answers each call with any
    function of the history. Nothing is assumed of it: constructors may throw, promises may settle
    late or never.

  \<^bold>\<open>The library\<close> (\<open>src/src/server\<close>), one theory per component, names as in the code:
  \<^item> \<open>Options\<close> (\<open>config/\<close>), \<open>Errors\<close> (\<open>errors/\<close>, \<open>constants/error-codes.ts\<close>), \<open>Schedules\<close>
    (\<open>utils/validate-job-scheduler-options.ts\<close> and the repeat options of \<open>src/src/shared\<close>):
    what is accepted, exactly, and with which code the rest is refused. \<open>NaN\<close> passes the checks of the
    two numbers, and of the keys \<open>client\<close> and \<open>options\<close> only the presence counts.
  \<^item> \<open>Connection\<close> (\<open>services/connection-resolver.service.ts\<close>): the record \<open>resolver\<close> and the
    ready race as a state machine; \<open>init\<close>, \<open>teardown\<close>.
  \<^item> \<open>Queues\<close>, \<open>QueueClosing\<close> (\<open>queue.service.ts\<close>): the cache and every operation, \<open>closeAll\<close> among them;
    \<open>closeAll\<close> also with lookups between its awaits.
  \<^item> \<open>Workers\<close>, \<open>WorkerRace\<close> (\<open>worker-registry.service.ts\<close>): registration, removal, views; the
    removal split at its awaits as an inductive step relation.
  \<^item> \<open>Events\<close>, \<open>Flows\<close>, \<open>Metrics\<close>, \<open>MetricsRace\<close>: the remaining services; the last one is the
    metrics cache under every interleaving of reads, replies, invalidations and time.
  \<^item> \<open>Decorators\<close>, \<open>Discovery\<close> (\<open>decorators/\<close>, \<open>processor-discovery.service.ts\<close>): metadata on classes
    with prototype chains, read as own metadata, the scan, the dispatcher, and the guarded listeners under emissions that a throw
    would stop and promises that settle in any order.
  \<^item> \<open>Lifecycle\<close>, \<open>ShutdownRace\<close> (\<open>lifecycle/queue-lifecycle.service.ts\<close>): both hooks with every
    step, a worker forced exactly if it does not close in time; the first one also as a step relation in which workers and
    streams come and go between its awaits, on the steps of \<open>WorkerRace\<close>, with or without overlapping removals.
  \<^item> \<open>NestModule\<close> (\<open>bymax-queue.module.ts\<close>): the provider graphs of both registrations, with the validation
    that comes first in the synchronous one (the boots of \<open>ConnectionTable\<close> run it).
  \<^item> \<open>Application\<close>: all services on one world; a run is any list of operations. Its lemma
    \<open>app_run_ok\<close> carries the invariants of the components to every reachable state.

  \<^bold>\<open>The scripts\<close> (\<open>src/scripts\<close>): \<open>FileLength\<close>, \<open>LineDiff\<close> and \<open>ApiSurface\<close>, \<open>LinkGuard\<close> and
  \<open>PublishedSurface\<close>, \<open>SnippetText\<close> and \<open>SnippetGate\<close> (\<open>readme-snippets.mjs\<close>), which
  \<open>PublishedGate\<close> puts together, \<open>StripComments\<close>,
  \<open>ConstTables\<close>, \<open>Directives\<close>, \<open>SmokeTest\<close> (\<open>dogfood-smoke-test.mjs\<close> with the barrels it checks, and
  \<open>check-size.mjs\<close>), \<open>TaskPool\<close>, \<open>Benchmark\<close>, \<open>ConnectionTable\<close> and \<open>BenchmarkRuns\<close>
  (\<open>benchmark.mjs\<close>; the last two run the model of the library, and prove what it holds and hands to BullMQ). What a script gets from git, npm, the
  network, the file system or the TypeScript compiler is an argument of the definitions.

  \<^bold>\<open>What is shown.\<close> No connection the library duplicates outlives the first hook, the
  consumer's client is never hung up, no emitter crashes the process; each registry stays well
  formed under every operation, failures included; the validators accept exactly what is
  stated of them; the dispatcher, the diff and the section readers agree with reference definitions;
  waiting and draining end; the interleaved runs keep their bounds, and a shutdown under way misses
  only what comes too late (for the connections of workers, if the removals of one queue do not overlap: otherwise
  one may be lost, as is shown too); the connections held are linear in what is registered, and
  exactly the README's budget when nothing fails; the library
  passes its own smoke test; a diagnostic of a README example names its line; the gates pass exactly on the
  states they describe, request nothing unvalidated, write nothing half done.

  \<^bold>\<open>Conventions and bounds.\<close>
  \<^item> Strings are lists of code units below 256; the dash and the arrow of a message are their
    UTF-8 bytes. Numbers are exact rationals, as binary64 is for millisecond counts.
  \<^item> The clock moves only where the code awaits. A close that settles in the very millisecond
    the drain timer fires counts as late, an order the event loop leaves open.
  \<^item> \<open>private_address_reason\<close>, \<open>fetch_checked\<close> and \<open>diff_walk\<close> are total by their measures (the
    length of the address, the six hops, the two remainders). The rounds of a starred expression
    are bounded by the length of the text plus one, which is enough because a round that consumes
    nothing ends the repetition. \<open>cleanup_loop\<close> is partial: whether a scan ends is up to Redis.
  \<^item> The operations of a run of \<open>Application\<close> come one after another; what overlaps is in the theories whose names
    end in \<open>Race\<close> and in \<open>QueueClosing\<close>. The test commands of \<open>ConstTables\<close> write to no source file.
  \<^item> WHATWG URLs, \<open>Date.parse\<close>, the cron parser of BullMQ, \<open>JSON.parse\<close>, and the parser, printer
    and comment scanner of TypeScript are arguments.

  \<^bold>\<open>Not modelled.\<close> Type-only files without behaviour; tests; console output of the scripts beyond
  the messages their results hold; in the benchmark, the arithmetic on elapsed times and the tables of
  measurements; the calls of the scripts into the TypeScript and Stryker packages; configuration files of
  ESLint, Jest and tsup, which are data for those tools.
  What Nest does with a dynamic module beyond the order constraints its
  injection lists imply is outside too.
\<close>

section \<open>One namespace\<close>

text \<open>
  Everything the library creates works in one Redis namespace: a queue, a worker, a sandboxed
  worker, an event stream and the flow producer carry the prefix of the module, whatever the other
  options are (the types of the queue options and of the overrides exclude a prefix).
\<close>

lemma one_namespace:
  assumes "\<not> has_key ''prefix'' (ro_queueOptions ro)" and "\<not> has_key ''prefix'' overrides"
  shows "field (queue_options ro client overrides) ''prefix'' = Str (ro_prefix ro)
    \<and> field (build_bull_options ro opts conn) ''prefix'' = Str (ro_prefix ro)
    \<and> field (sandboxed_options ro opts threads conn) ''prefix'' = Str (ro_prefix ro)
    \<and> field (queue_events_options ro conn) ''prefix'' = Str (ro_prefix ro)
    \<and> field (flow_options client (ro_prefix ro) telemetry) ''prefix'' = Str (ro_prefix ro)"
  using queue_prefix [OF assms]
  by (simp add: field_def build_bull_options_def sandboxed_options_def queue_events_options_def flow_options_def)

lemma one_namespace_witness:
  "field (queue_options demo_ro 0 [(''streams'', Obj [])]) ''prefix'' = Str ''bull''"
proof -
  have "\<not> has_key ''prefix'' (ro_queueOptions demo_ro)" "\<not> has_key ''prefix'' [(''streams'', Obj [])]"
    by (simp_all add: has_key_def demo_ro_def url_only_def apply_defaults_def)
  from one_namespace [OF this] show ?thesis by (simp add: demo_ro_def url_only_def apply_defaults_def)
qed

section \<open>Connections over the life of an application\<close>

text \<open>
  C1. No connection leaks: start with either mode, with flows on or off, run any operations of any
  service one after another in any order (discoveries, registrations that fail, removals, lookups, constructors and
  calls that throw), and shut down. Once the first shutdown hook has returned, no connection the
  library duplicated is left open.
\<close>

theorem application_leaks_no_connection:
  assumes "init E opts w0 = (Returns (), r, w1)" and "world_ok w0" and "open_duplicates w0 = {}"
    and "\<And>c. field (props (mo_connection opts)) ''client'' = Ref c \<Longrightarrow> c < w_next w0 \<and> c \<notin> released (w_calls w0)"
    and "ro = apply_defaults opts"
    and "new_flow_service E r (ro_flows_enabled ro) (ro_prefix ro) (ro_telemetry ro) w1 = (Returns fl, w2)"
    and "a = app_run E ro r ops (boot ro fl w2)"
    and "on_module_destroy E ro (ds_workers (ap_scan a)) (ds_events (ap_scan a)) (lc, app_world a) =
      (Returns (), (lc', w'))"
  shows "open_duplicates w' = {}"
proof (rule startup_ok [OF assms(1-4) assms(6), where ro = ro])
  fix c assume "app_ok r c (boot ro fl w2)"
  then have "app_ok r c a" unfolding assms(7) by (rule app_run_ok)
  then have "open_duplicates (app_world a) \<subseteq>
      tracked_workers (ds_workers (ap_scan a)) \<union> tracked_events (ds_events (ap_scan a))"
    by (simp add: app_ok_def scan_ok_def tracked_by_def app_world_def)
  with assms(8) show ?thesis by (rule module_destroy_releases)
qed

lemma card_tracked:
  "card (tracked_workers wr \<union> tracked_events ev) \<le> length (wr_entries wr) + length (ev_connections ev)"
proof -
  have "card (tracked_workers wr) \<le> length (wr_entries wr)" "card (tracked_events ev) \<le> length (ev_connections ev)"
    unfolding tracked_workers_def tracked_events_def image_image
    by (metis card_image_le card_length finite_set le_trans)+
  then show ?thesis using card_Un_le [of "tracked_workers wr" "tracked_events ev"] by simp
qed

text \<open>
  C4. The connections the library opens are linear in what is registered, as the README's budget
  says: after any run of operations of any service, one after another, there is at most one for each worker in the
  registry and one for each queue that is observed; queues, schedules, metrics and flows add none.
  (The second connection of each consumer in that table is opened by BullMQ.)
\<close>

theorem connections_are_budgeted:
  assumes "init E opts w0 = (Returns (), r, w1)" and "world_ok w0" and "open_duplicates w0 = {}"
    and "\<And>c. field (props (mo_connection opts)) ''client'' = Ref c \<Longrightarrow> c < w_next w0 \<and> c \<notin> released (w_calls w0)"
    and "ro = apply_defaults opts"
    and "new_flow_service E r (ro_flows_enabled ro) (ro_prefix ro) (ro_telemetry ro) w1 = (Returns fl, w2)"
    and "a = app_run E ro r ops (boot ro fl w2)"
  shows "finite (open_duplicates (app_world a)) \<and> card (open_duplicates (app_world a))
    \<le> length (worker_list (ds_workers (ap_scan a))) + length (events_list (ds_events (ap_scan a)))"
proof (rule startup_ok [OF assms(1-4) assms(6), where ro = ro])
  fix c assume "app_ok r c (boot ro fl w2)"
  then have ok: "app_ok r c a" unfolding assms(7) by (rule app_run_ok)
  let ?wr = "ds_workers (ap_scan a)" and ?ev = "ds_events (ap_scan a)"
  have owned: "open_duplicates (app_world a) \<subseteq> tracked_workers ?wr \<union> tracked_events ?ev"
    using ok by (simp add: app_ok_def scan_ok_def tracked_by_def app_world_def)
  have fin: "finite (tracked_workers ?wr \<union> tracked_events ?ev)"
    by (simp add: tracked_workers_def tracked_events_def)
  have "length (ev_connections ?ev) = length (events_list ?ev)"
    using ok by (auto simp: app_ok_def scan_ok_def events_inv_def events_list_def jsmap_keys_def dest: arg_cong [where f = length])
  then have "card (tracked_workers ?wr \<union> tracked_events ?ev) \<le> length (worker_list ?wr) + length (events_list ?ev)"
    using card_tracked [of ?wr ?ev] by (simp add: worker_list_def jsmap_keys_def)
  with card_mono [OF fin owned] finite_subset [OF owned fin] show ?thesis by simp
qed

text \<open>
  C2. In Mode A the consumer's client is never touched: in the same runs, whatever fails or hangs
  during the two shutdown hooks, the library has neither quit nor disconnected the client it was
  given.
\<close>

theorem shared_client_is_never_hung_up:
  assumes "init E opts w0 = (Returns (), r, w1)" and "world_ok w0" and "open_duplicates w0 = {}"
    and "\<And>c. field (props (mo_connection opts)) ''client'' = Ref c \<Longrightarrow> c < w_next w0 \<and> c \<notin> released (w_calls w0)"
    and "ro = apply_defaults opts"
    and "new_flow_service E r (ro_flows_enabled ro) (ro_prefix ro) (ro_telemetry ro) w1 = (Returns fl, w2)"
    and "a = app_run E ro r ops (boot ro fl w2)"
    and "r_mode r = Some Mode_A_byo"
    and "on_module_destroy E ro (ds_workers (ap_scan a)) (ds_events (ap_scan a)) (lc, app_world a) =
      (res, (lc', w'))"
    and "on_application_shutdown E ro r fl lc' (ap_queues a, w') = (res', (q', w''))"
  shows "\<exists>c. field (props (mo_connection opts)) ''client'' = Ref c \<and> r_client r = Some c
    \<and> c \<notin> released (w_calls (app_world a)) \<and> c \<notin> released (w_calls w') \<and> c \<notin> released (w_calls w'')"
proof (rule startup_ok [OF assms(1-4) assms(6), where ro = ro])
  fix c assume c: "r_client r = Some c" and boot: "app_ok r c (boot ro fl w2)"
    and given: "r_mode r = Some Mode_A_byo \<Longrightarrow> field (props (mo_connection opts)) ''client'' = Ref c"
  from boot have "app_ok r c a" unfolding assms(7) by (rule app_run_ok)
  then have a: "c \<notin> released (w_calls (app_world a))"
      "c \<notin> set (owned_connections (ds_workers (ap_scan a)) (ds_events (ap_scan a)))"
    by (simp_all add: app_ok_def scan_ok_def tracked_by_def app_world_def owned_connections_tracked)
  with module_destroy_releases_owned [OF assms(9)] have w': "c \<notin> released (w_calls w')" by auto
  have "owned_client r = []" using assms(8) by (simp add: owned_client_def is_owned_def)
  with application_shutdown_releases [OF assms(10)] w' have "c \<notin> released (w_calls w'')" by auto
  with a w' c given assms(8) show ?thesis by blast
qed

section \<open>Emitters\<close>

text \<open>
  C3. An \<open>error\<close> event cannot take the process down: in every state an application reaches, whatever
  a queue, a worker, an event stream or the flow producer the library built emits as \<open>error\<close> is
  logged, once, with the kind and the name of the emitter, and nothing is thrown.
\<close>

theorem no_emitter_crashes_the_process:
  assumes "init E opts w0 = (Returns (), r, w1)" and "world_ok w0" and "open_duplicates w0 = {}"
    and "\<And>c. field (props (mo_connection opts)) ''client'' = Ref c \<Longrightarrow> c < w_next w0 \<and> c \<notin> released (w_calls w0)"
    and "new_flow_service E r enabled ns telemetry w1 = (Returns fl, w2)"
    and "a = app_run E ro r ops (boot ro fl w2)"
    and "k = QueueKind \<and> (n, h) \<in> set (get_cached_queues (ap_queues a, app_world a))
       \<or> k = WorkerKind \<and> (n, h) \<in> set (worker_get_all (ds_workers (ap_scan a)))
       \<or> k = QueueEventsKind \<and> (n, h) \<in> set (events_get_all (ds_events (ap_scan a)))
       \<or> k = FlowProducerKind \<and> n = ''*'' \<and> fl_producer (ap_flow a) = Some h"
  shows "emit_error k h n err (app_world a) =
    (Returns (), write_log (EmitterError k n (describe_error err)) (app_world a))"
proof (rule startup_ok [OF assms(1-4) assms(5), where ro = ro])
  fix c assume "app_ok r c (boot ro fl w2)"
  then have "app_ok r c a" unfolding assms(6) by (rule app_run_ok)
  then have "OnError k h n \<in> set (w_calls (app_world a))"
    using assms(7) by (auto simp: app_ok_def scan_ok_def worker_inv_def events_inv_def queue_inv_def flow_ok_def
        list_all_iff entry_ok_def app_world_def get_cached_queues_def worker_get_all_def events_get_all_def)
  then show ?thesis by (rule emit_error_listened)
qed

section \<open>Opt-in services\<close>

text \<open>
  Flows and metrics that are not enabled are injectable and inert: they are constructed without
  touching the connection, and from then on every operation, after any others, is refused with its
  own code and status 503 and leaves the service, the caches and Redis as they were.
\<close>

lemma switched_off_services_are_inert:
  "new_flow_service E r False ns telemetry w = (Returns \<lparr>fl_producer = None\<rparr>, w)
   \<and> flow_attempt E fop (fold (\<lambda>opn t. snd (flow_attempt E opn t)) fops (\<lparr>fl_producer = None\<rparr>, w)) =
       (Some (QueueExn (queue_error_bare FLOW_DISABLED SERVICE_UNAVAILABLE)), (\<lparr>fl_producer = None\<rparr>, w))
   \<and> metrics_attempt E ro r (own_op x)
         (fold (\<lambda>y t. snd (metrics_attempt E ro r (own_op y) t)) ys (new_metrics_service False ttl, s)) =
       (Some (QueueExn (queue_error_bare METRICS_DISABLED SERVICE_UNAVAILABLE)), (new_metrics_service False ttl, s))"
  using fo.never_moves [of "(\<lparr>fl_producer = None\<rparr>, w)" E fops]
    fo.refused [of "(\<lparr>fl_producer = None\<rparr>, w)" E fop]
    mo.never_moves [of "(new_metrics_service False ttl, s)" E ro r ys]
    mo.refused [of "(new_metrics_service False ttl, s)" E ro r x]
  by (simp add: new_flow_service_def switched_off_def new_metrics_service_def)

section \<open>A sample life\<close>

definition byo_options :: module_options where
  "byo_options = (url_only [])\<lparr>mo_connection := Obj [(''client'', Ref 0)]\<rparr>"

lemma byo_init:
  "init quiet_env byo_options start_world = (Returns (), (demo_resolver,
     \<lparr>w_now = 0, w_next = 2, w_calls = [RedisDuplicate 0 1 blocking_override, RedisDisconnect 1], w_log = []\<rparr>))"
  by (simp add: init_def byo_options_def url_only_def has_key_def field_def adopt_client_def init_mode_a_def
      is_client_usable_def usable_status_def duplicate_connection_def assert_blocking_connection_def
      start_world_def demo_resolver_def log_call_def disconnect_def Let_def)

lemma byo_client:
  "field (props (mo_connection byo_options)) ''client'' = Ref c \<Longrightarrow>
   c < w_next start_world \<and> c \<notin> released (w_calls start_world)"
  by (simp add: byo_options_def field_def start_world_def)

lemma byo_flow:
  "new_flow_service quiet_env demo_resolver (ro_flows_enabled (apply_defaults byo_options))
     (ro_prefix (apply_defaults byo_options)) (ro_telemetry (apply_defaults byo_options)) w = (Returns \<lparr>fl_producer = None\<rparr>, w)"
  by (simp add: new_flow_service_def apply_defaults_def byo_options_def url_only_def)

lemma start_world_clean: "open_duplicates start_world = {}"
  by (simp add: open_duplicates_def start_world_def)

theorem application_leaks_no_connection_witness:
  "\<exists>a lc w. a = app_run quiet_env (apply_defaults byo_options) demo_resolver
        [AppDiscover mailer_store [Instance mailer], AppEvents ''sms'']
        (boot (apply_defaults byo_options) \<lparr>fl_producer = None\<rparr> (snd (snd (init quiet_env byo_options start_world))))
     \<and> on_module_destroy quiet_env (apply_defaults byo_options) (ds_workers (ap_scan a)) (ds_events (ap_scan a))
         (new_lifecycle, app_world a) = (Returns (), (lc, w))
     \<and> open_duplicates w = {}"
proof -
  let ?ro = "apply_defaults byo_options"
  define a where "a = app_run quiet_env ?ro demo_resolver
        [AppDiscover mailer_store [Instance mailer], AppEvents ''sms'']
        (boot ?ro \<lparr>fl_producer = None\<rparr> (snd (snd (init quiet_env byo_options start_world))))"
  obtain lc w where run: "on_module_destroy quiet_env ?ro (ds_workers (ap_scan a)) (ds_events (ap_scan a))
         (new_lifecycle, app_world a) = (Returns (), (lc, w))"
    by (rule module_destroy_returns [of "ds_events (ap_scan a)" quiet_env ?ro "ds_workers (ap_scan a)" new_lifecycle "app_world a"])
      simp_all
  have "open_duplicates w = {}"
    by (rule application_leaks_no_connection [OF byo_init start_world_ok start_world_clean byo_client refl byo_flow _ run])
      (simp_all add: a_def byo_init)
  with run a_def show ?thesis by blast
qed

theorem connections_are_budgeted_witness:
  "\<exists>a. a = app_run quiet_env (apply_defaults byo_options) demo_resolver
        [AppDiscover mailer_store [Instance mailer], AppEvents ''sms'']
        (boot (apply_defaults byo_options) \<lparr>fl_producer = None\<rparr> (snd (snd (init quiet_env byo_options start_world))))
     \<and> card (open_duplicates (app_world a))
        \<le> length (worker_list (ds_workers (ap_scan a))) + length (events_list (ds_events (ap_scan a)))"
  by (intro exI conjI refl conjunct2
      [OF connections_are_budgeted [OF byo_init start_world_ok start_world_clean byo_client refl byo_flow]])
    (simp_all add: byo_init)

theorem shared_client_is_never_hung_up_witness:
  "\<exists>a res s res' s'. a = app_run quiet_env (apply_defaults byo_options) demo_resolver
        [AppDiscover mailer_store [Instance mailer], AppEvents ''sms'']
        (boot (apply_defaults byo_options) \<lparr>fl_producer = None\<rparr> (snd (snd (init quiet_env byo_options start_world))))
     \<and> on_module_destroy quiet_env (apply_defaults byo_options) (ds_workers (ap_scan a)) (ds_events (ap_scan a))
         (new_lifecycle, app_world a) = (res, s)
     \<and> on_application_shutdown quiet_env (apply_defaults byo_options) demo_resolver \<lparr>fl_producer = None\<rparr>
         (fst s) (ap_queues a, snd s) = (res', s')
     \<and> 0 \<notin> released (w_calls (snd s'))"
proof -
  let ?ro = "apply_defaults byo_options"
  define a where "a = app_run quiet_env ?ro demo_resolver
        [AppDiscover mailer_store [Instance mailer], AppEvents ''sms'']
        (boot ?ro \<lparr>fl_producer = None\<rparr> (snd (snd (init quiet_env byo_options start_world))))"
  obtain res lc w where d: "on_module_destroy quiet_env ?ro (ds_workers (ap_scan a)) (ds_events (ap_scan a))
         (new_lifecycle, app_world a) = (res, (lc, w))"
    by (metis prod_cases3)
  obtain res' q' w' where s: "on_application_shutdown quiet_env ?ro demo_resolver \<lparr>fl_producer = None\<rparr> lc
      (ap_queues a, w) = (res', (q', w'))"
    by (metis prod_cases3)
  have "r_mode demo_resolver = Some Mode_A_byo" by (simp add: demo_resolver_def)
  from shared_client_is_never_hung_up [OF byo_init start_world_ok start_world_clean byo_client refl byo_flow _ this d s]
  have "0 \<notin> released (w_calls w')" by (auto simp: a_def byo_init demo_resolver_def)
  with a_def d s show ?thesis by (metis fst_conv snd_conv)
qed

theorem no_emitter_crashes_the_process_witness:
  "\<exists>a. a = app_run quiet_env demo_ro demo_resolver [AppEvents ''sms'', AppQueue (OpPause ''mail'')]
        (boot demo_ro \<lparr>fl_producer = None\<rparr> (snd (snd (init quiet_env byo_options start_world))))
     \<and> (\<exists>h. (''mail'', h) \<in> set (get_cached_queues (ap_queues a, app_world a))
          \<and> fst (emit_error QueueKind h ''mail'' (js_error ''down'') (app_world a)) = Returns ())"
proof -
  define a where "a = app_run quiet_env demo_ro demo_resolver [AppEvents ''sms'', AppQueue (OpPause ''mail'')]
        (boot demo_ro \<lparr>fl_producer = None\<rparr> (snd (snd (init quiet_env byo_options start_world))))"
  have cached: "\<exists>h. (''mail'', h) \<in> set (get_cached_queues (ap_queues a, app_world a))"
    by (simp add: a_def byo_init app_run_def boot_def fresh_discovery_def new_events_registry_def
        get_or_create_events_def get_client_def demo_resolver_def duplicate_connection_def construct_def
        on_events_def app_world_def set_world_def pause_queue_def queue_call_def queue_for_def
        get_or_create_queue_def new_queue_service_def await_def get_cached_queues_def Let_def)
  then obtain h where h: "(''mail'', h) \<in> set (get_cached_queues (ap_queues a, app_world a))" by blast
  have "emit_error QueueKind h ''mail'' (js_error ''down'') (app_world a) =
      (Returns (), write_log (EmitterError QueueKind ''mail'' (describe_error (js_error ''down''))) (app_world a))"
    by (rule no_emitter_crashes_the_process [OF byo_init start_world_ok start_world_clean byo_client byo_flow,
          where ro = demo_ro and ops = "[AppEvents ''sms'', AppQueue (OpPause ''mail'')]"])
      (use h in \<open>simp_all add: a_def byo_init\<close>)
  with h a_def show ?thesis by (metis fst_conv)
qed

end
